(* ===== verification/Cider_Prelude.thy ===== *)
theory Cider_Prelude
  imports Main "HOL-Library.Signed_Division"
begin

text \<open>
  Shared vocabulary of the development: the fixed-width integers of the C++ code, its
  truncating division, and the generic facts about quotients, lists and lookups that the
  component theories use.

  A C++ integer is an \<^typ>\<open>int\<close>; every place where the source can leave the range of its
  type is wrapped explicitly by \<open>s8\<close>, \<open>s16\<close>, \<open>s32\<close>, \<open>s64\<close> (two's complement) or \<open>u8\<close>,
  \<open>u32\<close>, \<open>u64\<close> (unsigned).  C++ \<open>/\<close> and \<open>%\<close> are \<open>sdiv\<close> and \<open>smod\<close> on signed operands
  and \<open>div\<close> and \<open>mod\<close> on unsigned ones.
\<close>

section \<open>Fixed-width integers\<close>

named_theorems wrap_id \<open>a wrapped value that is already in range\<close>
named_theorems wrap_range \<open>the range of a wrapped value\<close>

definition wrap_s :: "int \<Rightarrow> int \<Rightarrow> int" where
  "wrap_s half x = (x + half) mod (2 * half) - half"

abbreviation s8 :: "int \<Rightarrow> int" where "s8 \<equiv> wrap_s 128"
abbreviation s16 :: "int \<Rightarrow> int" where "s16 \<equiv> wrap_s 32768"
abbreviation s32 :: "int \<Rightarrow> int" where "s32 \<equiv> wrap_s 2147483648"
abbreviation s64 :: "int \<Rightarrow> int" where "s64 \<equiv> wrap_s 9223372036854775808"

definition wrap_u :: "int \<Rightarrow> int \<Rightarrow> int" where
  "wrap_u lim x = x mod lim"

abbreviation u8 :: "int \<Rightarrow> int" where "u8 \<equiv> wrap_u 256"
abbreviation u32 :: "int \<Rightarrow> int" where "u32 \<equiv> wrap_u 4294967296"
abbreviation u64 :: "int \<Rightarrow> int" where "u64 \<equiv> wrap_u 18446744073709551616"

definition in_s :: "int \<Rightarrow> int \<Rightarrow> bool" where
  "in_s half x \<longleftrightarrow> - half \<le> x \<and> x < half"

abbreviation in_s64 :: "int \<Rightarrow> bool" where "in_s64 \<equiv> in_s 9223372036854775808"

lemma wrap_s_id [wrap_id]: "- half \<le> x \<Longrightarrow> x < half \<Longrightarrow> wrap_s half x = x"
  by (simp add: wrap_s_def)

lemma wrap_u_id [wrap_id]: "0 \<le> x \<Longrightarrow> x < lim \<Longrightarrow> wrap_u lim x = x"
  by (simp add: wrap_u_def)

lemma wrap_s_range [wrap_range]:
  "0 < half \<Longrightarrow> - half \<le> wrap_s half x" "0 < half \<Longrightarrow> wrap_s half x < half"
  using pos_mod_bound [of "2 * half" "x + half"] pos_mod_sign [of "2 * half" "x + half"]
  by (simp_all add: wrap_s_def)

lemma wrap_u_range [wrap_range]: "0 < lim \<Longrightarrow> 0 \<le> wrap_u lim x" "0 < lim \<Longrightarrow> wrap_u lim x < lim"
  by (simp_all add: wrap_u_def)

lemma in_s_wrap_s: "0 < half \<Longrightarrow> in_s half (wrap_s half x)"
  by (simp add: in_s_def wrap_range)

lemma wrap_s_in_s [wrap_id]: "in_s half x \<Longrightarrow> wrap_s half x = x"
  by (simp add: in_s_def wrap_s_id)

lemma wrap_s_cong: "x mod (2 * half) = y mod (2 * half) \<Longrightarrow> wrap_s half x = wrap_s half y"
  by (simp add: wrap_s_def mod_add_cong)

lemma wrap_s_mod [simp]: "wrap_s half x mod (2 * half) = x mod (2 * half)"
  by (simp add: wrap_s_def mod_simps)

lemma wrap_s_add_left: "wrap_s half (wrap_s half x + y) = wrap_s half (x + y)"
  by (rule wrap_s_cong) (metis mod_add_left_eq wrap_s_mod)

section \<open>Errors\<close>

text \<open>
  The exceptions the modelled code throws, \<open>std::out_of_range\<close> among them, a failed \<open>CHECK\<close>, which
  aborts, and the trap of the division instruction.  \<open>rbind\<close> is the sequence of two computations that
  may fail.
\<close>

datatype cider_error =
  CiderUnsupportedException | CiderCompileException | CiderOutOfMemoryException |
  CiderOneToMoreHashException | StdOutOfRange | CheckFailed | DivisionTrap

type_synonym 'a result = "cider_error + 'a"

definition rbind :: "'a result \<Rightarrow> ('a \<Rightarrow> 'b result) \<Rightarrow> 'b result" where
  "rbind m f = (case m of Inl e \<Rightarrow> Inl e | Inr x \<Rightarrow> f x)"

lemma rbind_simps [simp]: "rbind (Inl e) f = Inl e" "rbind (Inr x) f = f x"
  by (simp_all add: rbind_def)

lemma rbind_Inr: "rbind m f = Inr y \<longleftrightarrow> (\<exists>x. m = Inr x \<and> f x = Inr y)"
  by (cases m) simp_all

section \<open>Truncating division\<close>

lemma sdiv_nonneg: "0 \<le> a \<Longrightarrow> 0 < b \<Longrightarrow> a sdiv b = a div (b::int)"
  by (cases "a = 0") (simp_all add: signed_divide_int_def)

lemma sdiv_neg: "a < 0 \<Longrightarrow> 0 < b \<Longrightarrow> a sdiv b = - ((- a) div (b::int))"
  by (simp add: signed_divide_int_def)

lemma smod_nonneg: "0 \<le> a \<Longrightarrow> 0 < b \<Longrightarrow> a smod b = a mod (b::int)"
  by (simp add: smod_mod_positive)

lemma smod_neg: "a < 0 \<Longrightarrow> 0 < b \<Longrightarrow> a smod b = - ((- a) mod (b::int))"
  by (simp add: signed_modulo_int_def)

lemma div_eqI: "b * q \<le> a \<Longrightarrow> a < b * q + b \<Longrightarrow> a div b = (q::int)"
  by (rule int_div_pos_eq [of a b q "a - b * q"]) simp_all

lemma mod_eqI: "b * q \<le> a \<Longrightarrow> a < b * q + b \<Longrightarrow> a mod b = a - b * (q::int)"
  by (rule int_mod_pos_eq [of a b q "a - b * q"]) simp_all

lemma div_scaled:
  "0 < c \<Longrightarrow> 0 \<le> s \<Longrightarrow> s < c \<Longrightarrow> 0 \<le> k \<Longrightarrow> (c * d + s) div (c * k) = d div (k::int)"
  by (simp add: zdiv_zmult2_eq)

lemma int_cases_12:
  fixes m :: int
  assumes "0 \<le> m" "m < 12"
    and "m = 0 \<Longrightarrow> P" "m = 1 \<Longrightarrow> P" "m = 2 \<Longrightarrow> P" "m = 3 \<Longrightarrow> P" "m = 4 \<Longrightarrow> P" "m = 5 \<Longrightarrow> P"
    and "m = 6 \<Longrightarrow> P" "m = 7 \<Longrightarrow> P" "m = 8 \<Longrightarrow> P" "m = 9 \<Longrightarrow> P" "m = 10 \<Longrightarrow> P" "m = 11 \<Longrightarrow> P"
  shows P
proof -
  have "m \<in> set [0..11]" using assms(1,2) by simp
  also have "[0..11] = [0, 1, 2, 3, 4, 5, 6, 7, 8, 9, 10, 11::int]" by code_simp
  finally show P using assms(3-) by auto
qed

end
