(* ===== verification/Calendar.thy ===== *)
theory Calendar
  imports Cider_Prelude
begin

text \<open>
  The abstract specification of the date functions: the proleptic Gregorian calendar.
  Days are numbered from 1 January 1970, which is day 0; \<open>civil_day y m d\<close> is the
  number of a date and \<open>valid_civil\<close> says which triples are dates.  Nothing here
  models code; the date components are proved against these definitions.
\<close>

section \<open>Years and months\<close>

definition leap_year :: "int \<Rightarrow> bool" where
  "leap_year y \<longleftrightarrow> y mod 4 = 0 \<and> (y mod 100 \<noteq> 0 \<or> y mod 400 = 0)"

definition days_before_year :: "int \<Rightarrow> int" where
  "days_before_year y = 365 * (y - 1) + (y - 1) div 4 - (y - 1) div 100 + (y - 1) div 400 - 719162"

definition days_in_month :: "int \<Rightarrow> int \<Rightarrow> int" where
  "days_in_month y m =
     (if m = 2 then (if leap_year y then 29 else 28)
      else if m = 4 \<or> m = 6 \<or> m = 9 \<or> m = 11 then 30 else 31)"

definition days_before_month :: "int \<Rightarrow> int \<Rightarrow> int" where
  "days_before_month y m = (\<Sum>k \<in> {1..<m}. days_in_month y k)"

definition civil_day :: "int \<Rightarrow> int \<Rightarrow> int \<Rightarrow> int" where
  "civil_day y m d = days_before_year y + days_before_month y m + d - 1"

definition valid_civil :: "int \<Rightarrow> int \<Rightarrow> int \<Rightarrow> bool" where
  "valid_civil y m d \<longleftrightarrow> 1 \<le> m \<and> m \<le> 12 \<and> 1 \<le> d \<and> d \<le> days_in_month y m"

text \<open>The closed form of \<^const>\<open>days_before_year\<close> counts one year at a time from 1970.\<close>

lemma days_before_year_1970: "days_before_year 1970 = 0"
  by (simp add: days_before_year_def)

lemma div_Suc_int: "0 < k \<Longrightarrow> (y::int) div k - (y - 1) div k = of_bool (y mod k = 0)"
proof -
  assume k: "0 < k"
  define q r where "q = y div k" and "r = y mod k"
  have y: "y = k * q + r" and r: "0 \<le> r" "r < k" using k by (simp_all add: q_def r_def)
  show ?thesis
  proof (cases "r = 0")
    case True
    have "(y - 1) div k = q - 1"
      by (rule div_eqI) (use k y True in \<open>simp_all add: right_diff_distrib\<close>)
    with True show ?thesis by (simp add: q_def r_def)
  next
    case False
    then have "(y - 1) div k = q"
      by (intro div_eqI) (use y r in simp_all)
    with False show ?thesis by (simp add: q_def r_def)
  qed
qed

lemma leap_year_of_bool:
  "of_bool (leap_year y) = (of_bool (y mod 4 = 0) - of_bool (y mod 100 = 0) + of_bool (y mod 400 = 0) :: int)"
proof -
  have "y mod 100 = 0" if "y mod 400 = 0"
    by (rule dvd_imp_mod_0, rule dvd_trans [OF _ mod_0_imp_dvd [OF that]]) simp
  moreover have "y mod 4 = 0" if "y mod 100 = 0"
    by (rule dvd_imp_mod_0, rule dvd_trans [OF _ mod_0_imp_dvd [OF that]]) simp
  ultimately show ?thesis
    by (cases "y mod 4 = 0"; cases "y mod 100 = 0"; cases "y mod 400 = 0") (simp_all add: leap_year_def)
qed

lemma year_step_arith:
  "a - a' = l \<Longrightarrow> b - b' = m \<Longrightarrow> c - c' = n \<Longrightarrow>
   365 * y + a - b + c - k = 365 * (y - 1) + a' - b' + c' - k + 365 + (l - m + n)" for y :: int
  by simp

lemma days_before_year_step:
  "days_before_year (y + 1) = days_before_year y + 365 + of_bool (leap_year y)"
  unfolding days_before_year_def leap_year_of_bool add_diff_cancel_right'
  by (rule year_step_arith) (simp_all only: div_Suc_int zero_less_numeral)

lemma days_before_month_1 [simp]: "days_before_month y 1 = 0"
  by (simp add: days_before_month_def)

lemma days_before_month_step:
  "1 \<le> m \<Longrightarrow> days_before_month y (m + 1) = days_before_month y m + days_in_month y m"
proof -
  assume "1 \<le> m"
  then have "{1..<m + 1} = insert m {1..<m}" by auto
  then show ?thesis by (simp add: days_before_month_def)
qed

lemma days_before_month_table:
  "days_before_month y 2 = 31"
  "days_before_month y 3 = 59 + of_bool (leap_year y)"
  "days_before_month y 4 = 90 + of_bool (leap_year y)"
  "days_before_month y 5 = 120 + of_bool (leap_year y)"
  "days_before_month y 6 = 151 + of_bool (leap_year y)"
  "days_before_month y 7 = 181 + of_bool (leap_year y)"
  "days_before_month y 8 = 212 + of_bool (leap_year y)"
  "days_before_month y 9 = 243 + of_bool (leap_year y)"
  "days_before_month y 10 = 273 + of_bool (leap_year y)"
  "days_before_month y 11 = 304 + of_bool (leap_year y)"
  "days_before_month y 12 = 334 + of_bool (leap_year y)"
  "days_before_month y 13 = 365 + of_bool (leap_year y)"
proof -
  show m2: "days_before_month y 2 = 31"
    using days_before_month_step [of 1 y] by (simp add: days_in_month_def)
  show m3: "days_before_month y 3 = 59 + of_bool (leap_year y)"
    using days_before_month_step [of 2 y] m2 by (simp add: days_in_month_def)
  show m4: "days_before_month y 4 = 90 + of_bool (leap_year y)"
    using days_before_month_step [of 3 y] m3 by (simp add: days_in_month_def)
  show m5: "days_before_month y 5 = 120 + of_bool (leap_year y)"
    using days_before_month_step [of 4 y] m4 by (simp add: days_in_month_def)
  show m6: "days_before_month y 6 = 151 + of_bool (leap_year y)"
    using days_before_month_step [of 5 y] m5 by (simp add: days_in_month_def)
  show m7: "days_before_month y 7 = 181 + of_bool (leap_year y)"
    using days_before_month_step [of 6 y] m6 by (simp add: days_in_month_def)
  show m8: "days_before_month y 8 = 212 + of_bool (leap_year y)"
    using days_before_month_step [of 7 y] m7 by (simp add: days_in_month_def)
  show m9: "days_before_month y 9 = 243 + of_bool (leap_year y)"
    using days_before_month_step [of 8 y] m8 by (simp add: days_in_month_def)
  show m10: "days_before_month y 10 = 273 + of_bool (leap_year y)"
    using days_before_month_step [of 9 y] m9 by (simp add: days_in_month_def)
  show m11: "days_before_month y 11 = 304 + of_bool (leap_year y)"
    using days_before_month_step [of 10 y] m10 by (simp add: days_in_month_def)
  show m12: "days_before_month y 12 = 334 + of_bool (leap_year y)"
    using days_before_month_step [of 11 y] m11 by (simp add: days_in_month_def)
  show "days_before_month y 13 = 365 + of_bool (leap_year y)"
    using days_before_month_step [of 12 y] m12 by (simp add: days_in_month_def)
qed

section \<open>A day has one date\<close>

lemma days_before_month_mono:
  assumes "1 \<le> m" "m < m'" shows "days_before_month y m + days_in_month y m \<le> days_before_month y m'"
proof -
  have "days_before_month y (m + 1) \<le> days_before_month y m'"
    unfolding days_before_month_def
    by (rule sum_mono2) (use assms in \<open>auto simp: days_in_month_def\<close>)
  then show ?thesis using assms by (simp add: days_before_month_step)
qed

lemma days_before_year_mono: "y < y' \<Longrightarrow> days_before_year (y + 1) \<le> days_before_year y'"
proof -
  assume "y < y'"
  then have "(y + 1 - 1) div 4 \<le> (y' - 1) div 4" "(y + 1 - 1) div 400 \<le> (y' - 1) div 400"
    by (simp_all add: zdiv_mono1)
  moreover have "(y' - 1) div 100 \<le> y div 100 + (y' - 1 - y)"
  proof -
    have "y' - 1 = y + (y' - 1 - y)" by simp
    have "(y' - 1) div 100 \<le> (y + 100 * (y' - 1 - y)) div 100"
      by (rule zdiv_mono1) (use \<open>y < y'\<close> in auto)
    then show ?thesis by simp
  qed
  ultimately show ?thesis using \<open>y < y'\<close> by (simp add: days_before_year_def)
qed

lemma civil_day_in_year:
  assumes "valid_civil y m d"
  shows "days_before_year y \<le> civil_day y m d" "civil_day y m d < days_before_year (y + 1)"
proof -
  from assms have m: "1 \<le> m" "m \<le> 12" and d: "1 \<le> d" "d \<le> days_in_month y m"
    by (simp_all add: valid_civil_def)
  have "0 \<le> days_before_month y m"
    unfolding days_before_month_def by (rule sum_nonneg) (simp add: days_in_month_def)
  then show "days_before_year y \<le> civil_day y m d" using d by (simp add: civil_day_def)
  have "days_before_month y m + days_in_month y m \<le> days_before_month y 13"
    using days_before_month_mono [of m 13 y] m by simp
  then show "civil_day y m d < days_before_year (y + 1)"
    using d by (simp add: civil_day_def days_before_year_step days_before_month_table)
qed

lemma civil_day_inject:
  assumes "valid_civil y m d" "valid_civil y' m' d'" "civil_day y m d = civil_day y' m' d'"
  shows "y = y' \<and> m = m' \<and> d = d'"
proof -
  have "\<not> y < y'" "\<not> y' < y"
    using days_before_year_mono [of y y'] days_before_year_mono [of y' y]
      civil_day_in_year [OF assms(1)] civil_day_in_year [OF assms(2)] assms(3) by linarith+
  then have y: "y = y'" by simp
  have "\<not> m < m'" "\<not> m' < m"
    using days_before_month_mono [of m m' y] days_before_month_mono [of m' m y] assms y
    by (auto simp: civil_day_def valid_civil_def)
  then have "m = m'" by simp
  with y assms(3) show ?thesis by (simp add: civil_day_def)
qed

section \<open>Counting from 1 March\<close>

text \<open>
  The code counts years from 1 March in 400-year eras that start on 1 March 2000
  (day 11017), so that the leap day is the last day of its year.
\<close>

definition march_first :: "int \<Rightarrow> int \<Rightarrow> int" where
  "march_first era yoe = 11017 + 146097 * era + 365 * yoe + yoe div 4 - yoe div 100"

lemma march_first_civil:
  assumes "0 \<le> yoe" "yoe < 400"
  shows "march_first era yoe = civil_day (2000 + 400 * era + yoe) 3 1"
proof -
  define y where "y = 2000 + 400 * era + yoe"
  have y4: "y = yoe + (500 + 100 * era) * 4" and y100: "y = yoe + (20 + 4 * era) * 100"
    and y400: "y = yoe + (5 + era) * 400" by (simp_all add: y_def)
  have "y div 4 = 500 + 100 * era + yoe div 4" unfolding y4 by (rule div_mult_self1) simp
  moreover have "y div 100 = 20 + 4 * era + yoe div 100" unfolding y100 by (rule div_mult_self1) simp
  moreover have "y div 400 = 5 + era + yoe div 400" unfolding y400 by (rule div_mult_self1) simp
  moreover have "yoe div 400 = 0" using assms by simp
  moreover have "days_before_year (y + 1) = 365 * y + y div 4 - y div 100 + y div 400 - 719162"
    by (simp add: days_before_year_def)
  ultimately have "days_before_year (y + 1) = march_first era yoe + 306"
    unfolding march_first_def using y_def by linarith
  then show ?thesis
    by (simp add: days_before_year_step civil_day_def days_before_month_table y_def [symmetric])
qed

text \<open>The date of the day \<open>doy\<close> (counted from 0) after 1 March of the year \<open>y\<close>.\<close>

definition march_month :: "int \<Rightarrow> int" where
  "march_month doy = (5 * doy + 2) div 153"

definition march_dom :: "int \<Rightarrow> int" where
  "march_dom doy = doy - (153 * march_month doy + 2) div 5"

lemma march_month_bounds:
  assumes "0 \<le> doy" "doy \<le> 365"
  shows "0 \<le> march_month doy" "march_month doy < 12"
    "(153 * march_month doy + 2) div 5 \<le> doy" "doy < (153 * march_month doy + 155) div 5"
proof -
  define m where "m = march_month doy"
  have m: "153 * m \<le> 5 * doy + 2" "5 * doy + 2 < 153 * m + 153"
    unfolding m_def march_month_def by (simp_all add: minus_mod_eq_mult_div [symmetric])
  have "(153 * m + 2) div 5 < doy + 1" using m by (simp add: div_less_iff_less_mult)
  moreover have "doy + 1 \<le> (153 * m + 155) div 5"
    using zdiv_mono1 [of "5 * (doy + 1)" "153 * m + 155" 5] m by simp
  ultimately show "0 \<le> march_month doy" "march_month doy < 12"
    "(153 * march_month doy + 2) div 5 \<le> doy" "doy < (153 * march_month doy + 155) div 5"
    using m assms by (simp_all add: m_def [symmetric])
qed

definition is_date :: "int \<Rightarrow> int \<Rightarrow> int \<Rightarrow> int \<Rightarrow> bool" where
  "is_date day y m d \<longleftrightarrow> valid_civil y m d \<and> civil_day y m d = day"

lemma is_date_unique: "is_date day y m d \<Longrightarrow> is_date day y' m' d' \<Longrightarrow> y = y' \<and> m = m' \<and> d = d'"
  unfolding is_date_def by (metis civil_day_inject)

lemma march_date:
  assumes "0 \<le> doy" "doy \<le> 365" "doy \<le> 364 \<or> leap_year (y + 1)"
  shows "is_date (civil_day y 3 1 + doy)
    (if march_month doy < 10 then y else y + 1)
    (if march_month doy < 10 then march_month doy + 3 else march_month doy - 9)
    (march_dom doy + 1)"
proof -
  define m where "m = march_month doy"
  define f where "f = (153 * m + 2) div 5"
  define g where "g = (153 * m + 155) div 5"
  have b: "0 \<le> m" "m < 12" "f \<le> doy" "doy < g"
    using march_month_bounds [OF assms(1,2)] by (simp_all add: m_def f_def g_def)
  have d: "march_dom doy = doy - f" by (simp add: march_dom_def m_def f_def)
  note defs = is_date_def valid_civil_def civil_day_def days_before_month_table days_in_month_def
    days_before_year_step
  show ?thesis
    unfolding m_def [symmetric] d
    by (rule int_cases_12 [OF b(1,2)]) (use b(3,4) assms in \<open>auto simp: defs f_def g_def\<close>)
qed

text \<open>The year and the month of a date from its distance to the start of the year.\<close>

lemma year_unique:
  assumes "is_date day y m d" "days_before_year y' \<le> day" "day < days_before_year (y' + 1)"
  shows "y' = y"
  using days_before_year_mono [of y y'] days_before_year_mono [of y' y] civil_day_in_year [of y m d] assms
  unfolding is_date_def by linarith

definition quarter_index :: "bool \<Rightarrow> int \<Rightarrow> int" where
  "quarter_index leap p =
     (if p < 90 + of_bool leap then 0 else if p < 181 + of_bool leap then 1
      else if p < 273 + of_bool leap then 2 else 3)"

lemma month_quarter_index:
  assumes "is_date day y m d"
  shows "(m - 1) div 3 = quarter_index (leap_year y) (day - days_before_year y)"
proof -
  from assms have v: "valid_civil y m d" "civil_day y m d = day" by (simp_all add: is_date_def)
  then have m: "0 \<le> m - 1" "m - 1 < 12" by (simp_all add: valid_civil_def)
  have p: "day - days_before_year y = days_before_month y m + d - 1" using v by (simp add: civil_day_def)
  show ?thesis unfolding p
    by (rule int_cases_12 [OF m])
      (use v(1) in \<open>auto simp: valid_civil_def quarter_index_def days_before_month_table
        days_in_month_def eq_diff_eq [symmetric] diff_eq_eq split: if_splits\<close>)
qed

lemma day_index_range:
  assumes "is_date day y m d"
  shows "0 \<le> day - days_before_year y" "day - days_before_year y \<le> 364 + of_bool (leap_year y)"
  using assms civil_day_in_year [of y m d] by (auto simp: is_date_def days_before_year_step)

end
