(* ===== verification/Extract_From_Time.thy ===== *)
theory Extract_From_Time
  imports Calendar
begin

text \<open>
  The SQL \<open>EXTRACT\<close> functions: \<open>function/datetime/ExtractFromTime.h\<close> (constants,
  \<open>floor_div\<close>, \<open>unsigned_mod\<close>) and \<open>ExtractFromTime.cpp\<close>.  A time is a number of seconds
  since 1970, an \<open>int64_t\<close>.  The fast paths for 1970 to 2036 compute in \<open>uint32_t\<close>, and
  so does the model.  The lemmas show that every field is the one the Gregorian calendar
  of \<open>Calendar\<close> gives.
\<close>

section \<open>Constants\<close>

definition kSecsPerMin :: int where [simp]: "kSecsPerMin = 60"
definition kSecsPerHour :: int where [simp]: "kSecsPerHour = 3600"
definition kSecsPerDay :: int where [simp]: "kSecsPerDay = 86400"
definition kSecsPerQuarterDay :: int where [simp]: "kSecsPerQuarterDay = 21600"
definition kMilliSecsPerSec :: int where [simp]: "kMilliSecsPerSec = 1000"
definition kMicroSecsPerSec :: int where [simp]: "kMicroSecsPerSec = 1000000"
definition kNanoSecsPerSec :: int where [simp]: "kNanoSecsPerSec = 1000000000"
definition kDaysPerWeek :: int where [simp]: "kDaysPerWeek = 7"
definition kEpochAdjustedDays :: int where [simp]: "kEpochAdjustedDays = 11017"
definition kDaysPer400Years :: int where [simp]: "kDaysPer400Years = 146097"
definition kSecondsPerNonLeapYear :: int where [simp]: "kSecondsPerNonLeapYear = 31536000"
definition kSecondsPer4YearCycle :: int where [simp]: "kSecondsPer4YearCycle = 126230400"
definition kUSecsPerDay :: int where [simp]: "kUSecsPerDay = 86400"
definition kEpochOffsetYear1900 :: int where [simp]: "kEpochOffsetYear1900 = 2208988800"
definition kSecsJanToMar1900 :: int where [simp]: "kSecsJanToMar1900 = 5097600"
definition UINT32_MAX :: int where [simp]: "UINT32_MAX = 4294967295"
definition MARJAN :: int where [simp]: "MARJAN = 31 + 30 + 31 + 30 + 31 + 31 + 30 + 31 + 30 + 31"
definition JANMAR :: int where [simp]: "JANMAR = 31 + 28"

datatype ExtractField =
  kYEAR | kQUARTER | kMONTH | kDAY | kHOUR | kMINUTE | kSECOND | kMILLISECOND | kMICROSECOND
  | kNANOSECOND | kDOW | kISODOW | kDOY | kEPOCH | kQUARTERDAY | kWEEK | kWEEK_SUNDAY
  | kWEEK_SATURDAY | kDATEEPOCH | kNONE

section \<open>Floor division\<close>

definition floor_div :: "int \<Rightarrow> int \<Rightarrow> int" where
  "floor_div dividend divisor =
     (if dividend < 0 then s64 (dividend - (divisor - 1)) else dividend) sdiv divisor"

definition unsigned_mod :: "int \<Rightarrow> int \<Rightarrow> int" where
  "unsigned_mod dividend divisor =
     (let md = dividend smod divisor in if md < 0 then md + divisor else md)"

section \<open>The steps shared by the calendar fields\<close>

text \<open>
  The local variables \<open>doe\<close> (day of era), \<open>yoe\<close> (year of era), \<open>doy\<close> (day of the year that
  starts in March) and \<open>moy\<close> (its month), which the source computes in the same way in
  every function; all are \<open>unsigned\<close>.
\<close>

definition day_of_era :: "int \<Rightarrow> int" where
  "day_of_era day = u32 (unsigned_mod (day - kEpochAdjustedDays) kDaysPer400Years)"

definition year_of_era :: "int \<Rightarrow> int" where
  "year_of_era doe = u32 (doe - doe div 1460 + doe div 36524 - (if doe = 146096 then 1 else 0)) div 365"

definition day_of_march_year :: "int \<Rightarrow> int \<Rightarrow> int" where
  "day_of_march_year doe yoe = u32 (doe - (365 * yoe + yoe div 4 - yoe div 100))"

definition month_of_march_year :: "int \<Rightarrow> int" where
  "month_of_march_year doy = (5 * doy + 2) div 153"

definition week_start_from_yoe :: "int \<Rightarrow> int \<Rightarrow> int" where
  "week_start_from_yoe ofs yoe =
     (let march1 = yoe * 365 + yoe div 4 - yoe div 100;
          jan4 = march1 + (MARJAN + 3);
          jan4dow = (jan4 + ofs) mod 7
      in jan4 - jan4dow)"

section \<open>The fields\<close>

definition extract_hour :: "int \<Rightarrow> int" where
  "extract_hour lcltime = unsigned_mod lcltime kSecsPerDay sdiv kSecsPerHour"

definition extract_minute :: "int \<Rightarrow> int" where
  "extract_minute lcltime = unsigned_mod lcltime kSecsPerHour sdiv kSecsPerMin"

definition extract_second :: "int \<Rightarrow> int" where
  "extract_second lcltime = unsigned_mod lcltime kSecsPerMin"

definition extract_millisecond :: "int \<Rightarrow> int" where
  "extract_millisecond lcltime = unsigned_mod lcltime (kSecsPerMin * kMilliSecsPerSec)"

definition extract_microsecond :: "int \<Rightarrow> int" where
  "extract_microsecond lcltime = unsigned_mod lcltime (kSecsPerMin * kMicroSecsPerSec)"

definition extract_nanosecond :: "int \<Rightarrow> int" where
  "extract_nanosecond lcltime = unsigned_mod lcltime (kSecsPerMin * kNanoSecsPerSec)"

definition extract_dow :: "int \<Rightarrow> bool \<Rightarrow> int" where
  "extract_dow lcltime is_null =
     (if is_null then 0
      else let days_past_epoch = floor_div lcltime kSecsPerDay
           in unsigned_mod (days_past_epoch + 4) kDaysPerWeek)"

definition extract_quarterday :: "int \<Rightarrow> int" where
  "extract_quarterday lcltime = unsigned_mod lcltime kSecsPerDay sdiv kSecsPerQuarterDay + 1"

text \<open>The tables of the fast paths, in seconds from 1 March and from 1 January.\<close>

definition cumulative_month_epoch_starts :: "int list" where
  "cumulative_month_epoch_starts =
     [0, 2678400, 5270400, 7948800, 10540800, 13219200, 15897600, 18489600,
      21168000, 23760000, 26438400, 29116800]"

definition cumulative_quarter_epoch_starts :: "int list" where
  "cumulative_quarter_epoch_starts = [0, 7776000, 15638400, 23587200]"

definition cumulative_quarter_epoch_starts_leap_year :: "int list" where
  "cumulative_quarter_epoch_starts_leap_year = [0, 7862400, 15724800, 23673600]"

definition extract_month_fast :: "int \<Rightarrow> int" where
  "extract_month_fast lcltime =
     (let seconds_march_1900 = u32 (lcltime + kEpochOffsetYear1900 - kSecsJanToMar1900);
          seconds_past_4year_period = seconds_march_1900 mod kSecondsPer4YearCycle;
          year_seconds = u32 ((seconds_past_4year_period div kSecondsPerNonLeapYear) * kSecondsPerNonLeapYear);
          year_seconds_past_4year_period =
            (if seconds_past_4year_period \<ge> kSecondsPer4YearCycle - kUSecsPerDay
             then u32 (year_seconds - kSecondsPerNonLeapYear) else year_seconds);
          seconds_past_march = u32 (seconds_past_4year_period - year_seconds_past_4year_period);
          month = seconds_past_march div (30 * kUSecsPerDay);
          month = (if month \<le> 11 then month else 11);
          month = (if cumulative_month_epoch_starts ! nat month > seconds_past_march
                   then u32 (month - 1) else month)
      in u32 (month + 2) mod 12 + 1)"

definition extract_quarter_fast :: "int \<Rightarrow> int" where
  "extract_quarter_fast lcltime =
     (let seconds_1900 = u32 (lcltime + kEpochOffsetYear1900);
          leap_years = u32 (seconds_1900 - kSecsJanToMar1900) div kSecondsPer4YearCycle;
          year = u32 ((seconds_1900 - leap_years * kSecsPerDay) sdiv kSecondsPerNonLeapYear);
          base_year_leap_years = u32 (year - 1) div 4;
          base_year_seconds =
            u32 (year * kSecondsPerNonLeapYear + base_year_leap_years * kUSecsPerDay);
          is_leap_year = (year mod 4 = 0 \<and> year \<noteq> 0);
          quarter_offsets = (if is_leap_year then cumulative_quarter_epoch_starts_leap_year
                             else cumulative_quarter_epoch_starts);
          partial_year_seconds = seconds_1900 mod base_year_seconds;
          quarter = partial_year_seconds div (90 * kUSecsPerDay);
          quarter = (if quarter \<le> 3 then quarter else 3);
          quarter = (if quarter_offsets ! nat quarter > partial_year_seconds
                     then u32 (quarter - 1) else quarter)
      in s32 (u32 (quarter + 1)))"

definition extract_year_fast :: "int \<Rightarrow> int" where
  "extract_year_fast lcltime =
     (let seconds_1900 = u32 (lcltime + kEpochOffsetYear1900);
          leap_years = u32 (seconds_1900 - kSecsJanToMar1900) div kSecondsPer4YearCycle;
          year = u32 (u32 (seconds_1900 - leap_years * kUSecsPerDay) div kSecondsPerNonLeapYear + 1900)
      in s32 year)"

definition extract_epoch :: "int \<Rightarrow> int" where
  "extract_epoch timeval = timeval"

definition extract_dateepoch :: "int \<Rightarrow> int" where
  "extract_dateepoch timeval = s64 (timeval - unsigned_mod timeval kSecsPerDay)"

definition extract_isodow :: "int \<Rightarrow> bool \<Rightarrow> int" where
  "extract_isodow timeval is_null =
     (if is_null then 0
      else let days_past_epoch = floor_div timeval kSecsPerDay
           in unsigned_mod (days_past_epoch + 3) kDaysPerWeek + 1)"

definition extract_day :: "int \<Rightarrow> bool \<Rightarrow> int" where
  "extract_day timeval is_null =
     (if is_null then 0
      else let day = floor_div timeval kSecsPerDay;
               doe = day_of_era day;
               yoe = year_of_era doe;
               doy = day_of_march_year doe yoe;
               moy = month_of_march_year doy
           in u32 (doy - (153 * moy + 2) div 5 + 1))"

definition extract_day_of_year :: "int \<Rightarrow> bool \<Rightarrow> int" where
  "extract_day_of_year timeval is_null =
     (if is_null then 0
      else let day = floor_div timeval kSecsPerDay;
               doe = day_of_era day;
               yoe = year_of_era doe;
               doy = day_of_march_year doe yoe
           in u32 (doy + (if doy < MARJAN
                          then 1 + JANMAR
                               + (if yoe mod 4 = 0 \<and> (yoe mod 100 \<noteq> 0 \<or> yoe = 0) then 1 else 0)
                          else 1 - MARJAN)))"

definition extract_week :: "int \<Rightarrow> int \<Rightarrow> int" where
  "extract_week ofs timeval =
     (let day = floor_div timeval kSecsPerDay;
          doe = day_of_era day;
          yoe = year_of_era doe;
          week_start = week_start_from_yoe ofs yoe
      in if doe < week_start
         then if yoe = 0 then (doe + ofs) div 7 + 9
              else u32 (doe - week_start_from_yoe ofs (yoe - 1)) div 7 + 1
         else u32 (doe - week_start) div 7 + 1)"

definition extract_week_monday :: "int \<Rightarrow> bool \<Rightarrow> int" where
  "extract_week_monday timeval is_null = (if is_null then 0 else extract_week 2 timeval)"

definition extract_week_sunday :: "int \<Rightarrow> bool \<Rightarrow> int" where
  "extract_week_sunday timeval is_null = (if is_null then 0 else extract_week 3 timeval)"

definition extract_week_saturday :: "int \<Rightarrow> bool \<Rightarrow> int" where
  "extract_week_saturday timeval is_null = (if is_null then 0 else extract_week 4 timeval)"

definition in_fast_range :: "int \<Rightarrow> bool" where
  "in_fast_range timeval \<longleftrightarrow> timeval \<ge> 0 \<and> timeval \<le> UINT32_MAX - kEpochOffsetYear1900"

definition extract_month :: "int \<Rightarrow> bool \<Rightarrow> int" where
  "extract_month timeval is_null =
     (if is_null then 0
      else if in_fast_range timeval then extract_month_fast timeval
      else let day = floor_div timeval kSecsPerDay;
               doe = day_of_era day;
               yoe = year_of_era doe;
               doy = day_of_march_year doe yoe;
               moy = month_of_march_year doy
           in u32 (moy + (if moy < 10 then 3 else -9)))"

definition extract_quarter :: "int \<Rightarrow> bool \<Rightarrow> int" where
  "extract_quarter timeval is_null =
     (if is_null then 0
      else if in_fast_range timeval then extract_quarter_fast timeval
      else let day = floor_div timeval kSecsPerDay;
               doe = day_of_era day;
               yoe = year_of_era doe;
               doy = day_of_march_year doe yoe;
               moy = month_of_march_year doy
           in [1, 2, 2, 2, 3, 3, 3, 4, 4, 4, 1, 1] ! nat moy)"

definition extract_year :: "int \<Rightarrow> bool \<Rightarrow> int" where
  "extract_year timeval is_null =
     (if is_null then 0
      else if in_fast_range timeval then extract_year_fast timeval
      else let day = floor_div timeval kSecsPerDay;
               era = floor_div (day - kEpochAdjustedDays) kDaysPer400Years;
               doe = u32 (day - kEpochAdjustedDays - era * kDaysPer400Years);
               yoe = year_of_era doe;
               doy = day_of_march_year doe yoe
           in 2000 + era * 400 + yoe + (if MARJAN \<le> doy then 1 else 0))"

fun ExtractFromTime :: "ExtractField \<Rightarrow> int \<Rightarrow> int result" where
  "ExtractFromTime kEPOCH timeval = Inr (extract_epoch timeval)"
| "ExtractFromTime kDATEEPOCH timeval = Inr (extract_dateepoch timeval)"
| "ExtractFromTime kQUARTERDAY timeval = Inr (extract_quarterday timeval)"
| "ExtractFromTime kHOUR timeval = Inr (extract_hour timeval)"
| "ExtractFromTime kMINUTE timeval = Inr (extract_minute timeval)"
| "ExtractFromTime kSECOND timeval = Inr (extract_second timeval)"
| "ExtractFromTime kMILLISECOND timeval = Inr (extract_millisecond timeval)"
| "ExtractFromTime kMICROSECOND timeval = Inr (extract_microsecond timeval)"
| "ExtractFromTime kNANOSECOND timeval = Inr (extract_nanosecond timeval)"
| "ExtractFromTime kDOW timeval = Inr (extract_dow timeval False)"
| "ExtractFromTime kISODOW timeval = Inr (extract_isodow timeval False)"
| "ExtractFromTime kDAY timeval = Inr (extract_day timeval False)"
| "ExtractFromTime kWEEK timeval = Inr (extract_week_monday timeval False)"
| "ExtractFromTime kWEEK_SUNDAY timeval = Inr (extract_week_sunday timeval False)"
| "ExtractFromTime kWEEK_SATURDAY timeval = Inr (extract_week_saturday timeval False)"
| "ExtractFromTime kDOY timeval = Inr (extract_day_of_year timeval False)"
| "ExtractFromTime kMONTH timeval = Inr (extract_month timeval False)"
| "ExtractFromTime kQUARTER timeval = Inr (extract_quarter timeval False)"
| "ExtractFromTime kYEAR timeval = Inr (extract_year timeval False)"
| "ExtractFromTime kNONE timeval = Inl CiderUnsupportedException"

section \<open>Floor division is Isabelle's division\<close>

lemma floor_div_eq:
  assumes "0 < b" "- 9223372036854775808 + (b - 1) \<le> a" "b \<le> 9223372036854775808"
  shows "floor_div a b = a div b"
proof (cases "a < 0")
  case True
  define q r where "q = a div b" and "r = a mod b"
  have a: "a = b * q + r" and r: "0 \<le> r" "r < b" using assms by (simp_all add: q_def r_def)
  have "s64 (a - (b - 1)) = a - (b - 1)" using assms True by (intro wrap_s_id) simp_all
  moreover have "(b - 1 - a) div b = - q" by (rule div_eqI) (use a r in \<open>simp_all\<close>)
  ultimately show ?thesis using assms True by (simp add: floor_div_def sdiv_neg q_def)
next
  case False
  then show ?thesis using assms by (simp add: floor_div_def sdiv_nonneg)
qed

lemma unsigned_mod_eq:
  assumes "0 < b" shows "unsigned_mod a b = a mod b"
proof (cases "a < 0")
  case True
  define q r where "q = (- a) div b" and "r = (- a) mod b"
  have a: "- a = b * q + r" and r: "0 \<le> r" "r < b" using assms by (simp_all add: q_def r_def)
  have "a smod b = - r" using assms True by (simp add: smod_neg r_def)
  moreover have "a mod b = (if r = 0 then 0 else b - r)"
    by (rule int_mod_pos_eq [of a b "if r = 0 then - q else - q - 1"])
      (use a r assms in \<open>auto simp: algebra_simps\<close>)
  ultimately show ?thesis using r by (simp add: unsigned_mod_def Let_def)
next
  case False
  then show ?thesis using assms by (simp add: unsigned_mod_def Let_def smod_nonneg not_less)
qed

text \<open>
  The times on which \<open>floor_div\<close> by a day does not overflow: all \<open>int64_t\<close> values but the
  lowest 86399.
\<close>

definition time_in_range :: "int \<Rightarrow> bool" where
  "time_in_range t \<longleftrightarrow> - 9223372036854689409 \<le> t \<and> t < 9223372036854775808"

lemma floor_div_day: "time_in_range t \<Longrightarrow> floor_div t 86400 = t div 86400"
  by (rule floor_div_eq) (simp_all add: time_in_range_def)

section \<open>The year of an era\<close>

lemma leap_year_era: "leap_year (2000 + 400 * era + y) = leap_year y"
proof -
  have "2000 + 400 * era + y = y + (500 + 100 * era) * 4" "2000 + 400 * era + y = y + (20 + 4 * era) * 100"
    "2000 + 400 * era + y = y + (5 + era) * 400" by simp_all
  then have "(2000 + 400 * era + y) mod 4 = y mod 4" "(2000 + 400 * era + y) mod 100 = y mod 100"
    "(2000 + 400 * era + y) mod 400 = y mod 400" by (metis mod_mult_self1)+
  then show ?thesis by (simp only: leap_year_def)
qed

lemma year_of_era_last: "year_of_era 146096 = 399"
  by (simp add: year_of_era_def wrap_u_def)

lemma year_of_era_split:
  assumes c: "0 \<le> c" "c \<le> 3" and q: "0 \<le> q" "q \<le> 24" and r: "0 \<le> r" "r \<le> 1460"
    and doe: "doe = 36524 * c + 1461 * q + r" and last: "1461 * q + r < 36524"
  shows "year_of_era doe = 100 * c + 4 * q + (if r = 1460 then 3 else r div 365)"
proof -
  define e where "e = (if 24 * c + q + r \<ge> 1460 then 1 else 0 :: int)"
  define j where "j = (if r = 1460 then 3 else r div 365)"
  have j: "0 \<le> j" "j \<le> 3" "365 * j \<le> r" "r - 365 * j \<le> 365" "r - 365 * j \<le> 364 \<or> r = 1460"
  proof -
    define k where "k = r div 365"
    have "365 * k \<le> r" "r < 365 * k + 365" unfolding k_def by simp_all
    then show "0 \<le> j" "j \<le> 3" "365 * j \<le> r" "r - 365 * j \<le> 365" "r - 365 * j \<le> 364 \<or> r = 1460"
      using r by (auto simp: j_def k_def [symmetric] split: if_splits)
  qed
  have d1: "doe div 1460 = 25 * c + q + e"
    by (rule div_eqI) (use c q r doe in \<open>auto simp: e_def\<close>)
  have d2: "doe div 36524 = c" by (rule div_eqI) (use q r doe last in simp_all)
  have ne: "doe \<noteq> 146096" using c doe last by simp
  have x: "doe - doe div 1460 + doe div 36524 - (if doe = 146096 then 1 else 0) = 36500 * c + 1460 * q + r - e"
    unfolding d1 d2 using ne doe by simp
  have e: "0 \<le> e" "e \<le> 1" "e = 0 \<or> r \<ge> 1364" using c q by (auto simp: e_def)
  have "u32 (36500 * c + 1460 * q + r - e) = 36500 * c + 1460 * q + r - e"
    by (rule wrap_u_id) (use c q r e in auto)
  then have "year_of_era doe = (36500 * c + 1460 * q + r - e) div 365"
    unfolding year_of_era_def x by simp
  also have "\<dots> = 100 * c + 4 * q + j"
    by (rule div_eqI) (use e j c q r in \<open>auto simp: e_def\<close>)
  finally show ?thesis by (simp only: j_def)
qed

lemma year_of_era_correct:
  fixes doe :: int
  defines "yoe \<equiv> year_of_era doe"
  defines "doy \<equiv> doe - (365 * yoe + yoe div 4 - yoe div 100)"
  assumes "0 \<le> doe" "doe < 146097"
  shows "0 \<le> yoe \<and> yoe < 400 \<and> 0 \<le> doy \<and> doy \<le> 365 \<and> (doy \<le> 364 \<or> leap_year (yoe + 1))"
proof (cases "doe = 146096")
  case True
  then show ?thesis by (simp add: yoe_def doy_def year_of_era_last leap_year_def)
next
  case False
  define c where "c = doe div 36524"
  define d where "d = doe mod 36524"
  define q where "q = d div 1461"
  define r where "r = d mod 1461"
  have d: "doe = 36524 * c + d" "0 \<le> d" "d < 36524" by (simp_all add: c_def d_def)
  then have c: "0 \<le> c" "c \<le> 3" using False assms(3,4) by linarith+
  have r: "d = 1461 * q + r" "0 \<le> r" "r \<le> 1460"
    using pos_mod_bound [of 1461 d] by (simp_all add: q_def r_def del: pos_mod_bound)
  then have q: "0 \<le> q" "q \<le> 24" using d by linarith+
  define j where "j = (if r = 1460 then 3 else r div 365)"
  have yoe: "yoe = 100 * c + 4 * q + j"
    unfolding yoe_def j_def by (rule year_of_era_split) (use c q r d in simp_all)
  define k where "k = r div 365"
  have "365 * k \<le> r" "r < 365 * k + 365" unfolding k_def by simp_all
  then have j: "0 \<le> j" "j \<le> 3" "365 * j \<le> r" "r - 365 * j \<le> 364 \<or> r = 1460 \<and> j = 3"
    using r by (auto simp: j_def k_def [symmetric])
  have y4: "yoe div 4 = 25 * c + q" by (rule div_eqI) (use j yoe in simp_all)
  have y100: "yoe div 100 = c" by (rule div_eqI) (use j q yoe in simp_all)
  have doy: "doy = r - 365 * j" unfolding doy_def y4 y100 using yoe d r by simp
  have "leap_year (yoe + 1)" if "r = 1460" "j = 3"
  proof -
    have q': "q \<le> 23" using that r d by simp
    have "(yoe + 1) mod 4 = 0" using yoe that by (simp add: mod_eqI [of 4 "25 * c + q + 1"])
    moreover have "(yoe + 1) mod 100 \<noteq> 0"
      using yoe that q q' by (simp add: mod_eqI [of 100 c])
    ultimately show ?thesis by (simp add: leap_year_def)
  qed
  then show ?thesis using c q j r doy yoe by auto
qed

text \<open>
  The position of a day in its era, as every calendar function computes it: the year and
  the day of the year that starts in March, with the day number they stand for.
\<close>

lemma era_position:
  fixes day :: int
  defines "era \<equiv> (day - 11017) div 146097"
  defines "doe \<equiv> day_of_era day"
  defines "yoe \<equiv> year_of_era doe"
  defines "doy \<equiv> day_of_march_year doe yoe"
  shows "doe = (day - 11017) mod 146097" "0 \<le> yoe" "yoe < 400" "0 \<le> doy" "doy \<le> 365"
    "doy \<le> 364 \<or> leap_year (2000 + 400 * era + yoe + 1)" "day = march_first era yoe + doy"
    "doe = 365 * yoe + yoe div 4 - yoe div 100 + doy"
proof -
  define m where "m = (day - 11017) mod 146097"
  have m: "0 \<le> m" "m < 146097" by (simp_all add: m_def)
  show doe: "doe = (day - 11017) mod 146097"
    unfolding doe_def day_of_era_def using m by (simp add: unsigned_mod_eq m_def wrap_u_id)
  then have dm: "doe = m" by (simp add: m_def)
  have b: "0 \<le> doe" "doe < 146097" using m dm by simp_all
  note y = year_of_era_correct [OF b, folded yoe_def]
  have doy: "doy = doe - (365 * yoe + yoe div 4 - yoe div 100)"
    unfolding doy_def day_of_march_year_def by (rule wrap_u_id) (use y in auto)
  show "0 \<le> yoe" "yoe < 400" "0 \<le> doy" "doy \<le> 365" using y by (simp_all add: doy)
  show "doy \<le> 364 \<or> leap_year (2000 + 400 * era + yoe + 1)"
    using y leap_year_era [of era "yoe + 1"] by (simp add: doy add.assoc)
  show "doe = 365 * yoe + yoe div 4 - yoe div 100 + doy" by (simp add: doy)
  have "day - 11017 = 146097 * era + m" unfolding era_def m_def by (rule mult_div_mod_eq [symmetric])
  then show "day = march_first era yoe + doy" by (simp add: march_first_def doy dm)
qed

section \<open>The calendar path\<close>

text \<open>The date that the era arithmetic of the calendar functions finds for a day.\<close>

lemma era_date:
  fixes day :: int
  defines "era \<equiv> (day - 11017) div 146097"
  defines "yoe \<equiv> year_of_era (day_of_era day)"
  defines "doy \<equiv> day_of_march_year (day_of_era day) yoe"
  defines "moy \<equiv> month_of_march_year doy"
  shows "is_date day
     (2000 + era * 400 + yoe + (if moy < 10 then 0 else 1))
     (if moy < 10 then moy + 3 else moy - 9)
     (doy - (153 * moy + 2) div 5 + 1)"
    and "0 \<le> moy" "moy < 12" "moy < 10 \<longleftrightarrow> doy < 306" "(153 * moy + 2) div 5 \<le> doy"
    "0 \<le> yoe" "yoe < 400" "0 \<le> doy" "doy \<le> 365"
proof -
  have e: "0 \<le> yoe" "yoe < 400" "0 \<le> doy" "doy \<le> 365"
    "doy \<le> 364 \<or> leap_year (2000 + 400 * era + yoe + 1)" "day = march_first era yoe + doy"
    unfolding yoe_def doy_def era_def by (rule era_position)+
  then show "0 \<le> yoe" "yoe < 400" "0 \<le> doy" "doy \<le> 365" by blast+
  have moy: "moy = march_month doy" by (simp add: moy_def month_of_march_year_def march_month_def)
  show "0 \<le> moy" "moy < 12" "(153 * moy + 2) div 5 \<le> doy"
    unfolding moy by (rule march_month_bounds [OF e(3,4)])+
  have "153 * moy \<le> 5 * doy + 2" "5 * doy + 2 < 153 * moy + 153"
    unfolding moy_def month_of_march_year_def by (simp_all add: minus_mod_eq_mult_div [symmetric])
  then show "moy < 10 \<longleftrightarrow> doy < 306" by auto
  have day: "day = civil_day (2000 + 400 * era + yoe) 3 1 + doy"
    using e(6) march_first_civil [OF e(1,2)] by simp
  have y: "2000 + era * 400 + yoe + (if moy < 10 then 0 else 1)
    = (if moy < 10 then 2000 + 400 * era + yoe else 2000 + 400 * era + yoe + 1)" by simp
  show "is_date day (2000 + era * 400 + yoe + (if moy < 10 then 0 else 1))
     (if moy < 10 then moy + 3 else moy - 9) (doy - (153 * moy + 2) div 5 + 1)"
    using march_date [OF e(3,4,5)] unfolding y day [symmetric] moy [symmetric] march_dom_def .
qed

lemma u32_index: "b \<le> a \<Longrightarrow> 0 \<le> b \<Longrightarrow> a \<le> 365 \<Longrightarrow> u32 (a - b + 1) = a - b + 1"
  by (rule wrap_u_id) simp_all

lemma extract_day_date:
  assumes "time_in_range t"
  obtains y m where "is_date (t div 86400) y m (extract_day t False)"
proof -
  note e = era_date [of "t div 86400"]
  define doy where "doy = day_of_march_year (day_of_era (t div 86400)) (year_of_era (day_of_era (t div 86400)))"
  define moy where "moy = month_of_march_year doy"
  have "0 \<le> (153 * moy + 2) div 5"
    using e(2) by (simp add: doy_def [symmetric] moy_def [symmetric] pos_imp_zdiv_nonneg_iff)
  then have "u32 (doy - (153 * moy + 2) div 5 + 1) = doy - (153 * moy + 2) div 5 + 1"
    by (rule u32_index [rotated]) (use e(5,9) in \<open>simp_all only: doy_def moy_def\<close>)
  then have "extract_day t False = doy - (153 * moy + 2) div 5 + 1"
    by (simp only: extract_day_def Let_def kSecsPerDay_def floor_div_day [OF assms] doy_def moy_def if_False)
  with e(1) that show thesis by (simp only: doy_def moy_def)
qed

section \<open>The fast path\<close>

text \<open>Days since 1 January 1900 of the times of the fast path, and the second of the day.\<close>

lemmas time_constants = kSecsPerMin_def kSecsPerHour_def kSecsPerDay_def kSecsPerQuarterDay_def
  kEpochOffsetYear1900_def kSecsJanToMar1900_def kSecondsPer4YearCycle_def kUSecsPerDay_def
  kSecondsPerNonLeapYear_def

lemma mult_numerals: "90 * 86400 = (7776000 :: int)" "30 * 86400 = (2592000 :: int)"
  "126230400 - 86400 = (126144000 :: int)"
  by simp_all

lemma fast_split:
  assumes "in_fast_range t"
  obtains D sec where "t + 2208988800 = 86400 * D + sec" "0 \<le> sec" "sec < 86400"
    "t div 86400 = D - 25567" "25567 \<le> D" "D \<le> 49710" "86400 * D + sec < 4294967296"
proof -
  define d where "d = t div 86400"
  define sec where "sec = t mod 86400"
  have t: "t = 86400 * d + sec" "0 \<le> sec" "sec < 86400" by (simp_all add: d_def sec_def)
  have lim: "0 \<le> t" "t \<le> 2085978495" using assms by (simp_all add: in_fast_range_def)
  then have "0 \<le> d" "d \<le> 24143" using t by linarith+
  then show thesis using t lim by (intro that [of "d + 25567" sec]) (simp_all add: d_def [symmetric])
qed

text \<open>The first day of a year of the twentieth century or of the next one.\<close>

lemma days_before_year_1900:
  assumes "1 \<le> n" "n \<le> 200" shows "days_before_year (1900 + n) = 365 * n + (n - 1) div 4 - 25567"
proof -
  have y4: "1899 + n = (n - 1) + 475 * 4" and y100: "1899 + n = (n - 1) + 19 * 100" by simp_all
  have "(1899 + n) div 4 = 475 + (n - 1) div 4" unfolding y4 by (rule div_mult_self1) simp
  moreover have "(1899 + n) div 100 = 19 + (n - 1) div 100" unfolding y100 by (rule div_mult_self1) simp
  moreover have "(n - 1) div 100 = (if n \<le> 100 then 0 else 1)"
    using assms by (auto intro: div_eqI)
  moreover have "(1899 + n) div 400 = (if n \<le> 100 then 4 else 5)"
    using assms by (auto intro!: div_eqI)
  ultimately show ?thesis by (simp add: days_before_year_def)
qed

lemma fast_year:
  assumes D: "25567 \<le> D" "D \<le> 49710" and date: "is_date (D - 25567) y m d"
  shows "(D - (D - 59) div 1461) div 365 = y - 1900" "70 \<le> y - 1900" "y - 1900 \<le> 136"
    "days_before_year y = 365 * (y - 1900) + (y - 1901) div 4 - 25567"
proof -
  define L where "L = (D - 59) div 1461"
  define x where "x = (D - 59) mod 1461"
  define a where "a = (59 + x) div 365"
  have x: "D - 59 = 1461 * L + x" "0 \<le> x" "x < 1461" by (simp_all add: L_def x_def)
  have a: "365 * a \<le> 59 + x" "59 + x < 365 * a + 365" unfolding a_def by simp_all
  have a4: "0 \<le> a" "a \<le> 4" using a x by linarith+
  define n where "n = 4 * L + a"
  have n: "(D - L) div 365 = n" by (rule div_eqI) (use x a in \<open>simp_all add: n_def\<close>)
  have L: "17 \<le> L" "L \<le> 33" using x D by linarith+
  then have nb: "1 \<le> n" "n + 1 \<le> 200" using a4 by (simp_all add: n_def)
  have n1: "(n - 1) div 4 = L + (if a = 0 then - 1 else 0)"
    by (rule div_eqI) (use a4 in \<open>auto simp: n_def\<close>)
  have n2: "n div 4 = L + (if a = 4 then 1 else 0)"
    by (rule div_eqI) (use a4 in \<open>auto simp: n_def\<close>)
  have s1: "days_before_year (1900 + n) = 365 * n + (L + (if a = 0 then - 1 else 0)) - 25567"
    using days_before_year_1900 [of n] nb unfolding n1 by simp
  have s2: "days_before_year (1900 + n + 1) = 365 * (n + 1) + (L + (if a = 4 then 1 else 0)) - 25567"
    using days_before_year_1900 [of "n + 1"] nb unfolding add.assoc [symmetric] add_diff_cancel_right' n2 by simp
  have y: "1900 + n = y"
    by (rule year_unique [OF date]; unfold s1 s2) (use x a a4 in \<open>auto simp: n_def split: if_splits\<close>)
  show "(D - (D - 59) div 1461) div 365 = y - 1900" using n y by (simp add: L_def)
  have dby: "days_before_year y = 365 * n + (n - 1) div 4 - 25567"
    using days_before_year_1900 [of n] nb y by simp
  moreover have "n = y - 1900" "n - 1 = y - 1901" using y by simp_all
  ultimately show "days_before_year y = 365 * (y - 1900) + (y - 1901) div 4 - 25567" by simp
  have "days_before_year 2037 = 24472" by (simp add: days_before_year_def)
  then have "\<not> y < 1970" "\<not> 2036 < y"
    using days_before_year_mono [of y 1970] days_before_year_mono [of 2036 y] date D
      civil_day_in_year [of y m d] days_before_year_1970 by (auto simp: is_date_def)
  then show "70 \<le> y - 1900" "y - 1900 \<le> 136" by simp_all
qed

lemma secs_div:
  fixes d s :: int
  assumes "0 \<le> s" "s < 86400"
  shows "(86400 * d + s) div 126230400 = d div 1461" "(86400 * d + s) div 31536000 = d div 365"
    "(86400 * d + s) div 2592000 = d div 30" "(86400 * d + s) div 7776000 = d div 90"
    "(86400 * d + s) mod 126230400 = 86400 * (d mod 1461) + s"
proof -
  have *: "(86400 * d + s) div (86400 * k) = d div k" if "0 \<le> k" for k
    using assms that by (intro div_scaled) simp_all
  show d: "(86400 * d + s) div 126230400 = d div 1461" using * [of 1461] by simp
  show "(86400 * d + s) div 31536000 = d div 365" "(86400 * d + s) div 2592000 = d div 30"
    "(86400 * d + s) div 7776000 = d div 90"
    using * [of 365] * [of 30] * [of 90] by simp_all
  have "(86400 * d + s) mod 126230400 = 86400 * d + s - 126230400 * (d div 1461)"
    unfolding d [symmetric] by (rule minus_mult_div_eq_mod [symmetric])
  also have "\<dots> = 86400 * (d - 1461 * (d div 1461)) + s" by (simp add: algebra_simps)
  also have "d - 1461 * (d div 1461) = d mod 1461" by (rule minus_mult_div_eq_mod)
  finally show "(86400 * d + s) mod 126230400 = 86400 * (d mod 1461) + s" .
qed

lemma secs_less: "0 \<le> s \<Longrightarrow> s < 86400 \<Longrightarrow> (86400 * a > 86400 * b + s) = (a > (b::int))"
  by auto

lemma fast_leap_years:
  assumes "0 \<le> sec" "sec < 86400" "25567 \<le> D" "D \<le> 49710" "86400 * D + sec < 4294967296"
  shows "u32 (86400 * D + sec - 5097600) div 126230400 = (D - 59) div 1461"
    "17 \<le> (D - 59) div 1461" "(D - 59) div 1461 \<le> 33"
proof -
  have "u32 (86400 * D + sec - 5097600) = 86400 * (D - 59) + sec"
    by (subst wrap_u_id) (use assms in simp_all)
  then show "u32 (86400 * D + sec - 5097600) div 126230400 = (D - 59) div 1461"
    by (simp only: secs_div [OF assms(1,2)])
  show "17 \<le> (D - 59) div 1461" "(D - 59) div 1461 \<le> 33"
    using zdiv_mono1 [of 25508 "D - 59" 1461] zdiv_mono1 [of "D - 59" 49651 1461] assms by simp_all
qed

lemma extract_year_fast_date:
  assumes "in_fast_range t" "is_date (t div 86400) y m d"
  shows "extract_year_fast t = y"
proof -
  obtain D sec where t: "t + 2208988800 = 86400 * D + sec" and sec: "0 \<le> sec" "sec < 86400"
    and d: "t div 86400 = D - 25567" and D: "25567 \<le> D" "D \<le> 49710" and lim: "86400 * D + sec < 4294967296"
    by (rule fast_split [OF assms(1)])
  have date: "is_date (D - 25567) y m d" using assms(2) d by simp
  define L where "L = (D - 59) div 1461"
  note L = fast_leap_years [OF sec D lim, folded L_def]
  have s: "u32 (86400 * D + sec) = 86400 * D + sec" by (rule wrap_u_id) (use D sec lim in simp_all)
  have "u32 (86400 * D + sec - L * 86400) = 86400 * (D - L) + sec"
    by (subst wrap_u_id) (use D sec L lim in simp_all)
  then have "u32 (86400 * D + sec - L * 86400) div 31536000 = (D - L) div 365"
    by (simp only: secs_div [OF sec])
  also have "\<dots> = y - 1900" using fast_year(1) [OF D date] by (simp only: L_def)
  finally have "extract_year_fast t = s32 (u32 (y - 1900 + 1900))"
    by (simp add: extract_year_fast_def t s L)
  also have "\<dots> = y" using fast_year(2,3) [OF D date] by (simp add: wrap_u_id wrap_s_id)
  finally show ?thesis .
qed

text \<open>
  The month guess of the fast path, checked for every day of a year: a thirtieth of the
  day, corrected by the table.  The tables hold whole days.
\<close>

definition month_guess :: "int \<Rightarrow> int" where
  "month_guess doy =
     (let g = (if doy div 30 \<le> 11 then doy div 30 else 11)
      in if cumulative_month_epoch_starts ! nat g > 86400 * doy then g - 1 else g)"

lemma month_guess_all: "\<forall>doy \<in> set [0..365]. month_guess doy = march_month doy"
  by code_simp

definition quarter_guess :: "bool \<Rightarrow> int \<Rightarrow> int" where
  "quarter_guess leap p =
     (let g = (if p div 90 \<le> 3 then p div 90 else 3)
      in if (if leap then cumulative_quarter_epoch_starts_leap_year
             else cumulative_quarter_epoch_starts) ! nat g > 86400 * p then g - 1 else g)"

lemma quarter_guess_all: "\<forall>leap. \<forall>p \<in> set [0..365]. quarter_guess leap p = quarter_index leap p"
  by code_simp

lemma month_table_days: "k < 12 \<Longrightarrow> 86400 dvd cumulative_month_epoch_starts ! k"
proof -
  assume "k < 12"
  then have "cumulative_month_epoch_starts ! k \<in> set cumulative_month_epoch_starts"
    by (intro nth_mem) (simp add: cumulative_month_epoch_starts_def)
  moreover have "\<forall>c \<in> set cumulative_month_epoch_starts. 86400 dvd c" by code_simp
  ultimately show ?thesis by blast
qed

lemma quarter_table_days:
  "k < 4 \<Longrightarrow> 86400 dvd (if leap then cumulative_quarter_epoch_starts_leap_year
                      else cumulative_quarter_epoch_starts) ! k"
proof -
  let ?t = "if leap then cumulative_quarter_epoch_starts_leap_year else cumulative_quarter_epoch_starts"
  assume "k < 4"
  then have "?t ! k \<in> set ?t"
    by (intro nth_mem) (simp add: cumulative_quarter_epoch_starts_def
        cumulative_quarter_epoch_starts_leap_year_def)
  moreover have "\<forall>leap. \<forall>c \<in> set (if leap then cumulative_quarter_epoch_starts_leap_year
      else cumulative_quarter_epoch_starts). 86400 dvd c" by code_simp
  ultimately show ?thesis by blast
qed

lemma secs_less_table:
  assumes "86400 dvd (c::int)" "0 \<le> s" "s < 86400"
  shows "c > 86400 * b + s \<longleftrightarrow> c > 86400 * b"
proof -
  obtain a where "c = 86400 * a" using assms(1) by (rule dvdE)
  then show ?thesis using assms by auto
qed

text \<open>The day of the year from March of the fast path.\<close>

lemma fast_march_date:
  fixes D :: int
  defines "L \<equiv> (D - 59) div 1461" and "x \<equiv> (D - 59) mod 1461"
  defines "j \<equiv> (if x \<ge> 1460 then x div 365 - 1 else x div 365)"
  assumes "25567 \<le> D" "D \<le> 49710"
  shows "0 \<le> x - 365 * j" "x - 365 * j \<le> 365" "0 \<le> j" "j \<le> 3" "0 \<le> x" "x \<le> 1460"
    "is_date (D - 25567)
      (if march_month (x - 365 * j) < 10 then 1900 + (4 * L + j) else 1900 + (4 * L + j) + 1)
      (if march_month (x - 365 * j) < 10 then march_month (x - 365 * j) + 3 else march_month (x - 365 * j) - 9)
      (march_dom (x - 365 * j) + 1)"
proof -
  define k where "k = x div 365"
  have k: "365 * k \<le> x" "x < 365 * k + 365" unfolding k_def by simp_all
  have x: "D - 59 = 1461 * L + x" by (simp add: L_def x_def)
  show x0: "0 \<le> x" by (simp add: x_def)
  show x1: "x \<le> 1460" using pos_mod_bound [of 1461 "D - 59"] by (simp add: x_def del: pos_mod_bound)
  have jk: "j = (if x \<ge> 1460 then k - 1 else k)" by (simp add: j_def k_def)
  show b: "0 \<le> x - 365 * j" "x - 365 * j \<le> 365" "0 \<le> j" "j \<le> 3"
    using k x0 x1 unfolding jk by (auto split: if_splits)
  have "17 \<le> L" "L \<le> 33"
    using x x0 x1 assms(4,5) by linarith+
  then have n: "1 \<le> 4 * L + j + 1" "4 * L + j + 1 \<le> 200" using b by simp_all
  have "(4 * L + j) div 4 = L" by (rule div_eqI) (use b in simp_all)
  then have "days_before_year (1900 + (4 * L + j) + 1) = 365 * (4 * L + j + 1) + L - 25567"
    using days_before_year_1900 [OF n] by (simp add: add.assoc)
  then have d: "D - 25567 = civil_day (1900 + (4 * L + j)) 3 1 + (x - 365 * j)"
    using x unfolding days_before_year_step by (simp add: civil_day_def days_before_month_table)
  have "x - 365 * j \<le> 364 \<or> leap_year (1900 + (4 * L + j) + 1)"
  proof (cases "x = 1460")
    case True
    then have "j = 3" using k unfolding jk by (auto split: if_splits)
    then have y: "1900 + (4 * L + j) + 1 = 4 * (L + 476)" by simp
    have "(4 * (L + 476)) mod 100 = 4 * ((L + 476) mod 25)" using mult_mod_right [of 4 "L + 476" 25] by simp
    moreover have "(L + 476) mod 25 \<noteq> 0 \<or> L = 24" using \<open>17 \<le> L\<close> \<open>L \<le> 33\<close> by presburger
    ultimately show ?thesis unfolding y leap_year_def by auto
  next
    case False
    then show ?thesis using k x1 unfolding jk by (auto split: if_splits)
  qed
  from march_date [OF b(1,2) this] show "is_date (D - 25567)
      (if march_month (x - 365 * j) < 10 then 1900 + (4 * L + j) else 1900 + (4 * L + j) + 1)
      (if march_month (x - 365 * j) < 10 then march_month (x - 365 * j) + 3 else march_month (x - 365 * j) - 9)
      (march_dom (x - 365 * j) + 1)" unfolding d .
qed

lemma fast_month_result:
  assumes "0 \<le> moy" "moy < 12"
  shows "u32 (moy + 2) mod 12 + 1 = (if moy < 10 then moy + 3 else moy - 9)"
  by (rule int_cases_12 [OF assms]) (simp_all add: wrap_u_def)

lemma wrap_u_guess:
  assumes "(if P then g - 1 else g) = r" "0 \<le> r" "r < 12"
  shows "(if P then u32 (g - 1) else g) = r"
  using assms by (cases P) (simp_all add: wrap_u_id)

text \<open>
  The local variables of the month fast path, for the functions that compute them
  (\<open>extract_month_fast\<close> and \<open>datetrunc_month_impl\<close>): the day count \<open>D\<close> and the second of the
  day, the four-year period \<open>L\<close>, the day \<open>x\<close> in it, its year \<open>j\<close> and the day since 1 March.
\<close>

lemma fast_month_steps:
  assumes "in_fast_range t"
  obtains D sec L x j doy where
    "t + 2208988800 = 86400 * D + sec" "u32 (86400 * D + sec - 5097600) = 86400 * (D - 59) + sec"
    "(86400 * (D - 59) + sec) mod 126230400 = 86400 * x + sec"
    "(86400 * (D - 59) + sec) div 126230400 = L"
    "(86400 * x + sec) div 31536000 = x div 365" "86400 * x + sec \<ge> 126144000 \<longleftrightarrow> x \<ge> 1460"
    "(if x \<ge> 1460 then u32 (u32 (x div 365 * 31536000) - 31536000) else u32 (x div 365 * 31536000))
      = 86400 * (365 * j)"
    "u32 (86400 * x + sec - 86400 * (365 * j)) = 86400 * doy + sec"
    "(86400 * doy + sec) div 2592000 = doy div 30"
    "(if cumulative_month_epoch_starts ! nat (if doy div 30 \<le> 11 then doy div 30 else 11) > 86400 * doy + sec
      then u32 ((if doy div 30 \<le> 11 then doy div 30 else 11) - 1)
      else (if doy div 30 \<le> 11 then doy div 30 else 11)) = march_month doy"
    "t div 86400 = D - 25567" "D - 59 = 1461 * L + x" "x = 365 * j + doy" "0 \<le> doy" "doy \<le> 365"
    "17 \<le> L" "L \<le> 33" "is_date (t div 86400)
      (if march_month doy < 10 then 1900 + (4 * L + j) else 1900 + (4 * L + j) + 1)
      (if march_month doy < 10 then march_month doy + 3 else march_month doy - 9) (march_dom doy + 1)"
proof -
  obtain D sec where t: "t + 2208988800 = 86400 * D + sec" and sec: "0 \<le> sec" "sec < 86400"
    and d: "t div 86400 = D - 25567" and D: "25567 \<le> D" "D \<le> 49710" and lim: "86400 * D + sec < 4294967296"
    by (rule fast_split [OF assms(1)])
  define L where "L = (D - 59) div 1461"
  define x where "x = (D - 59) mod 1461"
  define j where "j = (if x \<ge> 1460 then x div 365 - 1 else x div 365)"
  define doy where "doy = x - 365 * j"
  note f = fast_march_date [OF D, folded L_def x_def, folded j_def, folded doy_def]
  have sm: "u32 (86400 * D + sec - 5097600) = 86400 * (D - 59) + sec"
    by (subst wrap_u_id) (use D sec lim in simp_all)
  have xk: "0 \<le> x div 365" "x div 365 \<le> 4"
    using f(5,6) zdiv_mono1 [of x 1460 365] by (simp_all add: pos_imp_zdiv_nonneg_iff)
  have k1: "1 \<le> x div 365" if "x \<ge> 1460" using zdiv_mono1 [of 1460 x 365] that by simp
  have ys: "(if x \<ge> 1460 then u32 (u32 (x div 365 * 31536000) - 31536000) else u32 (x div 365 * 31536000))
    = 86400 * (365 * j)"
    using xk k1 by (auto simp: j_def wrap_u_id)
  have pm: "u32 (86400 * x + sec - 86400 * (365 * j)) = 86400 * doy + sec"
    by (subst wrap_u_id) (use f(1,2) sec in \<open>simp_all add: doy_def\<close>)
  define g where "g = (if doy div 30 \<le> 11 then doy div 30 else 11)"
  have g: "0 \<le> g" "g < 12" using f(1) by (simp_all add: g_def pos_imp_zdiv_nonneg_iff)
  have "cumulative_month_epoch_starts ! nat g > 86400 * doy + sec
      \<longleftrightarrow> cumulative_month_epoch_starts ! nat g > 86400 * doy"
    by (rule secs_less_table) (use month_table_days [of "nat g"] g sec in simp_all)
  moreover have "month_guess doy = march_month doy" using month_guess_all f(1,2) by simp
  ultimately have guess: "(if cumulative_month_epoch_starts ! nat g > 86400 * doy + sec then g - 1 else g)
    = march_month doy" unfolding month_guess_def Let_def g_def by (simp only:)
  show thesis
    by (rule that [OF t sm secs_div(5) [OF sec, of "D - 59", folded x_def]
          secs_div(1) [OF sec, of "D - 59", folded L_def] secs_div(2) [OF sec] _ ys pm secs_div(3) [OF sec]
          wrap_u_guess [OF guess march_month_bounds(1,2) [OF f(1,2)], unfolded g_def] d _ _ f(1,2)
          fast_leap_years(2,3) [OF sec D lim, folded L_def]])
      (use sec f(7) d in \<open>auto simp: L_def x_def doy_def\<close>)
qed

lemma extract_month_fast_date:
  assumes "in_fast_range t" "is_date (t div 86400) y m d"
  shows "extract_month_fast t = m"
proof (rule fast_month_steps [OF assms(1)])
  fix D sec L x j doy
  assume steps: "t + 2208988800 = 86400 * D + sec" "u32 (86400 * D + sec - 5097600) = 86400 * (D - 59) + sec"
    "(86400 * (D - 59) + sec) mod 126230400 = 86400 * x + sec"
    "(86400 * x + sec) div 31536000 = x div 365" "86400 * x + sec \<ge> 126144000 \<longleftrightarrow> x \<ge> 1460"
    "(if x \<ge> 1460 then u32 (u32 (x div 365 * 31536000) - 31536000) else u32 (x div 365 * 31536000))
      = 86400 * (365 * j)"
    "u32 (86400 * x + sec - 86400 * (365 * j)) = 86400 * doy + sec"
    "(86400 * doy + sec) div 2592000 = doy div 30"
    "(if cumulative_month_epoch_starts ! nat (if doy div 30 \<le> 11 then doy div 30 else 11) > 86400 * doy + sec
      then u32 ((if doy div 30 \<le> 11 then doy div 30 else 11) - 1)
      else (if doy div 30 \<le> 11 then doy div 30 else 11)) = march_month doy"
    and doy: "0 \<le> doy" "doy \<le> 365"
    and date: "is_date (t div 86400)
      (if march_month doy < 10 then 1900 + (4 * L + j) else 1900 + (4 * L + j) + 1)
      (if march_month doy < 10 then march_month doy + 3 else march_month doy - 9) (march_dom doy + 1)"
  have "extract_month_fast t = u32 (march_month doy + 2) mod 12 + 1"
    unfolding extract_month_fast_def Let_def time_constants mult_numerals steps ..
  also have "\<dots> = (if march_month doy < 10 then march_month doy + 3 else march_month doy - 9)"
    by (rule fast_month_result [OF march_month_bounds(1,2) [OF doy]])
  also have "\<dots> = m" using is_date_unique [OF date assms(2)] by simp
  finally show ?thesis .
qed

text \<open>
  The local variables of the quarter fast path, shared by \<open>extract_quarter_fast\<close> and
  \<open>datetrunc_quarter_impl\<close>: \<open>n\<close> is the year counted from 1900, \<open>b\<close> the leap days before it and
  \<open>p\<close> the day of the year.
\<close>

lemma leap_year_1900:
  assumes "70 \<le> n" "n \<le> 136" shows "n mod 4 = 0 \<and> n \<noteq> 0 \<longleftrightarrow> leap_year (1900 + n)"
proof -
  have y: "1900 + n = n + 475 * 4" "1900 + n = n + 19 * 100" by simp_all
  have "(1900 + n) mod 4 = n mod 4" unfolding y(1) by (rule mod_mult_self1)
  moreover have "(1900 + n) mod 100 = 0 \<longleftrightarrow> n = 100"
  proof -
    have "(1900 + n) mod 100 = n mod 100" unfolding y(2) by (rule mod_mult_self1)
    also have "\<dots> = 0 \<longleftrightarrow> n = 100" using assms by presburger
    finally show ?thesis .
  qed
  ultimately show ?thesis using assms(1) by (auto simp: leap_year_def)
qed

lemma fast_quarter_steps:
  assumes "in_fast_range t" "is_date (t div 86400) y m d"
  obtains D sec L n b p where
    "t + 2208988800 = 86400 * D + sec" "u32 (86400 * D + sec) = 86400 * D + sec"
    "u32 (86400 * D + sec - 5097600) div 126230400 = L"
    "(86400 * D + sec - L * 86400) sdiv 31536000 = n"
    "u32 (86400 * D + sec - L * 86400) div 31536000 = n" "u32 n = n" "u32 (n - 1) = n - 1"
    "(n - 1) div 4 = b" "u32 (n * 31536000 + b * 86400) = 86400 * (365 * n + b)"
    "(86400 * D + sec) mod (86400 * (365 * n + b)) = 86400 * p + sec"
    "(86400 * p + sec) div 7776000 = p div 90" "(n mod 4 = 0 \<and> n \<noteq> 0) = leap_year y"
    "(if (if leap_year y then cumulative_quarter_epoch_starts_leap_year else cumulative_quarter_epoch_starts)
          ! nat (if p div 90 \<le> 3 then p div 90 else 3) > 86400 * p + sec
      then u32 ((if p div 90 \<le> 3 then p div 90 else 3) - 1)
      else (if p div 90 \<le> 3 then p div 90 else 3)) = (m - 1) div 3"
    "days_before_year y = 365 * n + b - 25567" "0 \<le> b" "b \<le> 33" "70 \<le> n" "n \<le> 136"
proof -
  obtain D sec where t: "t + 2208988800 = 86400 * D + sec" and sec: "0 \<le> sec" "sec < 86400"
    and d: "t div 86400 = D - 25567" and D: "25567 \<le> D" "D \<le> 49710" and lim: "86400 * D + sec < 4294967296"
    by (rule fast_split [OF assms(1)])
  have date: "is_date (D - 25567) y m d" using assms(2) d by simp
  define n where "n = y - 1900"
  note fy = fast_year [OF D date, folded n_def]
  define L where "L = (D - 59) div 1461"
  note L = fast_leap_years [OF sec D lim, folded L_def]
  have s: "u32 (86400 * D + sec) = 86400 * D + sec" by (rule wrap_u_id) (use D sec lim in simp_all)
  have eq: "86400 * D + sec - L * 86400 = 86400 * (D - L) + sec" by simp
  have bd: "0 \<le> 86400 * (D - L) + sec" "86400 * (D - L) + sec < 4294967296" using D sec L(2,3) lim by simp_all
  have n: "(D - L) div 365 = n" using fy(1) by (simp only: L_def)
  have yr: "(86400 * D + sec - L * 86400) sdiv 31536000 = n"
    "u32 (86400 * D + sec - L * 86400) div 31536000 = n"
    unfolding eq wrap_u_id [OF bd] sdiv_nonneg [OF bd(1) zero_less_numeral] secs_div [OF sec] n by (rule refl)+
  have un: "u32 n = n" "u32 (n - 1) = n - 1" using fy(2,3) by (simp_all add: wrap_u_id)
  define b where "b = (n - 1) div 4"
  have b: "0 \<le> b" "b \<le> 33"
    using zdiv_mono1 [of "n - 1" 135 4] fy(2,3) by (simp_all add: b_def pos_imp_zdiv_nonneg_iff)
  define p where "p = D - 365 * n - b"
  have dby: "days_before_year y = 365 * n + b - 25567" using fy(4) by (simp add: b_def n_def)
  have p: "p = D - 25567 - days_before_year y" by (simp add: p_def dby)
  have pb: "0 \<le> p" "p \<le> 365" "p \<le> 364 \<or> leap_year y"
    using day_index_range [OF date] by (auto simp: p of_bool_def split: if_splits)
  have base: "u32 (n * 31536000 + b * 86400) = 86400 * (365 * n + b)"
    by (subst wrap_u_id) (use fy(2,3) b in simp_all)
  have rest: "(86400 * D + sec) mod (86400 * (365 * n + b)) = 86400 * p + sec"
    using mod_eqI [of "86400 * (365 * n + b)" 1 "86400 * D + sec"] pb(1,2) sec fy(2) b
    by (simp add: p_def)
  have leap: "(n mod 4 = 0 \<and> n \<noteq> 0) = leap_year y" using leap_year_1900 [OF fy(2,3)] by (simp add: n_def)
  define tab where "tab = (if leap_year y then cumulative_quarter_epoch_starts_leap_year
      else cumulative_quarter_epoch_starts)"
  define g where "g = (if p div 90 \<le> 3 then p div 90 else 3)"
  have g: "0 \<le> g" "g < 4" using pb(1) by (simp_all add: g_def pos_imp_zdiv_nonneg_iff)
  have "tab ! nat g > 86400 * p + sec \<longleftrightarrow> tab ! nat g > 86400 * p"
    by (rule secs_less_table) (use quarter_table_days [of "nat g" "leap_year y"] g sec in \<open>simp_all add: tab_def\<close>)
  moreover have "quarter_guess (leap_year y) p = quarter_index (leap_year y) p"
    using quarter_guess_all pb by (cases "leap_year y") auto
  ultimately have guess: "(if tab ! nat g > 86400 * p + sec then g - 1 else g) = (m - 1) div 3"
    unfolding month_quarter_index [OF date] p [symmetric] quarter_guess_def Let_def g_def tab_def by (simp only:)
  have qb: "0 \<le> (m - 1) div 3" "(m - 1) div 3 < 12"
    unfolding month_quarter_index [OF date] by (simp_all add: quarter_index_def)
  show thesis
    by (rule that [OF t s L(1) yr un b_def [symmetric] base rest secs_div(4) [OF sec] leap
          wrap_u_guess [OF guess qb, unfolded g_def tab_def] dby b fy(2,3)])
qed

lemma extract_quarter_fast_date:
  assumes "in_fast_range t" "is_date (t div 86400) y m d"
  shows "extract_quarter_fast t = (m - 1) div 3 + 1"
proof (rule fast_quarter_steps [OF assms])
  fix D sec L n b p
  assume steps: "t + 2208988800 = 86400 * D + sec" "u32 (86400 * D + sec) = 86400 * D + sec"
    "u32 (86400 * D + sec - 5097600) div 126230400 = L"
    "(86400 * D + sec - L * 86400) sdiv 31536000 = n" "u32 n = n" "u32 (n - 1) = n - 1"
    "(n - 1) div 4 = b" "u32 (n * 31536000 + b * 86400) = 86400 * (365 * n + b)"
    "(86400 * D + sec) mod (86400 * (365 * n + b)) = 86400 * p + sec"
    "(86400 * p + sec) div 7776000 = p div 90" "(n mod 4 = 0 \<and> n \<noteq> 0) = leap_year y"
    "(if (if leap_year y then cumulative_quarter_epoch_starts_leap_year else cumulative_quarter_epoch_starts)
          ! nat (if p div 90 \<le> 3 then p div 90 else 3) > 86400 * p + sec
      then u32 ((if p div 90 \<le> 3 then p div 90 else 3) - 1)
      else (if p div 90 \<le> 3 then p div 90 else 3)) = (m - 1) div 3"
  have "0 \<le> (m - 1) div 3" "(m - 1) div 3 \<le> 3"
    unfolding month_quarter_index [OF assms(2)] by (simp_all add: quarter_index_def)
  then have "s32 (u32 ((m - 1) div 3 + 1)) = (m - 1) div 3 + 1" by (simp only: wrap_u_id wrap_s_id)
  moreover have "extract_quarter_fast t = s32 (u32 ((m - 1) div 3 + 1))"
    unfolding extract_quarter_fast_def Let_def time_constants mult_numerals steps ..
  ultimately show ?thesis by simp
qed

end
