(* ===== verification/Extract_Correct.thy ===== *)
theory Extract_Correct
  imports Extract_From_Time
begin

text \<open>
  The fields of \<open>ExtractFromTime\<close> against the Gregorian calendar of theory \<open>Calendar\<close>: on
  both paths (the \<open>uint32_t\<close> fast path and the era path) year, month and day are the date
  of the day, quarter, day of year and week number are those of that date, and the time
  fields decompose the second of the day.
\<close>

section \<open>The week that contains 4 January\<close>

definition week_one :: "int \<Rightarrow> int \<Rightarrow> int" where
  "week_one k y = civil_day y 1 4 - (civil_day y 1 4 + k) mod 7"

definition week_of :: "int \<Rightarrow> int \<Rightarrow> int \<Rightarrow> int \<Rightarrow> bool" where
  "week_of k day y w \<longleftrightarrow>
     week_one k y \<le> day \<and> day < week_one k (y + 1) \<and> w = (day - week_one k y) div 7 + 1"

section \<open>The era path\<close>

lemma era_path:
  assumes "time_in_range t"
  obtains era yoe doy moy where
    "floor_div t 86400 = t div 86400" "year_of_era (day_of_era (t div 86400)) = yoe"
    "day_of_march_year (day_of_era (t div 86400)) yoe = doy" "month_of_march_year doy = moy"
    "is_date (t div 86400) (2000 + era * 400 + yoe + (if moy < 10 then 0 else 1))
       (if moy < 10 then moy + 3 else moy - 9) (doy - (153 * moy + 2) div 5 + 1)"
    "0 \<le> moy" "moy < 12" "moy < 10 \<longleftrightarrow> doy < 306" "0 \<le> yoe" "yoe < 400" "0 \<le> doy" "doy \<le> 365"
    "t div 86400 = civil_day (2000 + 400 * era + yoe) 3 1 + doy" "era = (t div 86400 - 11017) div 146097"
    "day_of_era (t div 86400) = 365 * yoe + yoe div 4 - yoe div 100 + doy"
proof -
  note e = era_date [of "t div 86400"] and p = era_position [of "t div 86400"]
  show thesis
    by (rule that [OF floor_div_day [OF assms] refl refl refl e(1) e(2) e(3) e(4) e(6) e(7) e(8) e(9) _ refl p(8)])
      (use p(7) march_first_civil [OF p(2,3)] in simp)
qed

lemma extract_year_date:
  assumes "time_in_range t" "is_date (t div 86400) y m d" shows "extract_year t False = y"
proof (cases "in_fast_range t")
  case True
  then show ?thesis using extract_year_fast_date assms(2) by (simp add: extract_year_def)
next
  case False
  obtain era yoe doy moy where e: "floor_div t 86400 = t div 86400"
    "year_of_era (day_of_era (t div 86400)) = yoe"
    "day_of_march_year (day_of_era (t div 86400)) yoe = doy"
    "is_date (t div 86400) (2000 + era * 400 + yoe + (if moy < 10 then 0 else 1))
       (if moy < 10 then moy + 3 else moy - 9) (doy - (153 * moy + 2) div 5 + 1)"
    "moy < 10 \<longleftrightarrow> doy < 306" "era = (t div 86400 - 11017) div 146097"
    by (rule era_path [OF assms(1)])
  define day where "day = t div 86400"
  have "t div 86400 \<le> 106751991167300" "- 106751991167300 \<le> t div 86400"
    using assms(1) zdiv_mono1 [of t 9223372036854775807 86400] zdiv_mono1 [of "-9223372036854689409" t 86400]
    by (simp_all add: time_in_range_def)
  then have day: "day \<le> 106751991167300" "- 106751991167300 \<le> day" by (simp_all only: day_def)
  have era: "floor_div (day - 11017) 146097 = era"
    unfolding e(6) day_def [symmetric] by (rule floor_div_eq) (use day in simp_all)
  have "day - 11017 - era * 146097 = (day - 11017) mod 146097"
    unfolding e(6) day_def [symmetric] by (rule minus_div_mult_eq_mod)
  then have doe: "u32 (day - 11017 - era * 146097) = day_of_era day"
    by (simp only: day_of_era_def kEpochAdjustedDays_def kDaysPer400Years_def) (simp add: unsigned_mod_eq)
  have "extract_year t False = 2000 + era * 400 + yoe + (if 306 \<le> doy then 1 else 0)"
    using False e(2,3) by (simp add: extract_year_def Let_def e(1) day_def [symmetric] era doe)
  also have "\<dots> = y" using is_date_unique [OF e(4) assms(2)] e(5) by auto
  finally show ?thesis .
qed

lemma extract_month_date:
  assumes "time_in_range t" "is_date (t div 86400) y m d" shows "extract_month t False = m"
proof (cases "in_fast_range t")
  case True
  then show ?thesis using extract_month_fast_date assms(2) by (simp add: extract_month_def)
next
  case False
  obtain era yoe doy moy where e: "floor_div t 86400 = t div 86400"
    "year_of_era (day_of_era (t div 86400)) = yoe"
    "day_of_march_year (day_of_era (t div 86400)) yoe = doy" "month_of_march_year doy = moy"
    "is_date (t div 86400) (2000 + era * 400 + yoe + (if moy < 10 then 0 else 1))
       (if moy < 10 then moy + 3 else moy - 9) (doy - (153 * moy + 2) div 5 + 1)"
    "0 \<le> moy" "moy < 12"
    by (rule era_path [OF assms(1)])
  have "extract_month t False = u32 (moy + (if moy < 10 then 3 else -9))"
    using False by (simp only: extract_month_def Let_def e(1-4) kSecsPerDay_def if_False)
  also have "\<dots> = (if moy < 10 then moy + 3 else moy - 9)" using e(6,7) by (auto simp: wrap_u_id)
  also have "\<dots> = m" using is_date_unique [OF e(5) assms(2)] by simp
  finally show ?thesis .
qed

lemma quarter_table:
  assumes "0 \<le> moy" "moy < 12"
  shows "[1, 2, 2, 2, 3, 3, 3, 4, 4, 4, 1, 1] ! nat moy = ((if moy < 10 then moy + 3 else moy - 9) - 1) div 3 + (1 :: int)"
  by (rule int_cases_12 [OF assms]) simp_all

lemma extract_quarter_date:
  assumes "time_in_range t" "is_date (t div 86400) y m d" shows "extract_quarter t False = (m - 1) div 3 + 1"
proof (cases "in_fast_range t")
  case True
  then show ?thesis using extract_quarter_fast_date assms(2) by (simp add: extract_quarter_def)
next
  case False
  obtain era yoe doy moy where e: "floor_div t 86400 = t div 86400"
    "year_of_era (day_of_era (t div 86400)) = yoe"
    "day_of_march_year (day_of_era (t div 86400)) yoe = doy" "month_of_march_year doy = moy"
    "is_date (t div 86400) (2000 + era * 400 + yoe + (if moy < 10 then 0 else 1))
       (if moy < 10 then moy + 3 else moy - 9) (doy - (153 * moy + 2) div 5 + 1)"
    "0 \<le> moy" "moy < 12"
    by (rule era_path [OF assms(1)])
  have "extract_quarter t False = [1, 2, 2, 2, 3, 3, 3, 4, 4, 4, 1, 1] ! nat moy"
    using False by (simp only: extract_quarter_def Let_def e(1-4) kSecsPerDay_def if_False)
  also have "\<dots> = ((if moy < 10 then moy + 3 else moy - 9) - 1) div 3 + 1" by (rule quarter_table [OF e(6,7)])
  also have "(if moy < 10 then moy + 3 else moy - 9) = m" using is_date_unique [OF e(5) assms(2)] by simp
  finally show ?thesis .
qed

lemma leap_year_yoe:
  assumes "0 \<le> yoe" "yoe < 400"
  shows "leap_year (2000 + 400 * era + yoe) \<longleftrightarrow> yoe mod 4 = 0 \<and> (yoe mod 100 \<noteq> 0 \<or> yoe = 0)"
  by (subst leap_year_era) (use assms in \<open>simp add: leap_year_def\<close>)

lemma extract_day_of_year_date:
  assumes "time_in_range t" "is_date (t div 86400) y m d"
  shows "extract_day_of_year t False = t div 86400 - days_before_year y + 1"
proof -
  obtain era yoe doy moy where e: "floor_div t 86400 = t div 86400"
    "year_of_era (day_of_era (t div 86400)) = yoe"
    "day_of_march_year (day_of_era (t div 86400)) yoe = doy"
    "is_date (t div 86400) (2000 + era * 400 + yoe + (if moy < 10 then 0 else 1))
       (if moy < 10 then moy + 3 else moy - 9) (doy - (153 * moy + 2) div 5 + 1)"
    "moy < 10 \<longleftrightarrow> doy < 306" "0 \<le> yoe" "yoe < 400" "0 \<le> doy" "doy \<le> 365"
    "t div 86400 = civil_day (2000 + 400 * era + yoe) 3 1 + doy"
    by (rule era_path [OF assms(1)])
  define Y where "Y = 2000 + 400 * era + yoe"
  have y: "y = (if doy < 306 then Y else Y + 1)"
    using is_date_unique [OF e(4) assms(2)] e(5) by (auto simp: Y_def)
  have day: "t div 86400 = days_before_year Y + 59 + of_bool (leap_year Y) + doy"
    unfolding e(10) by (simp add: Y_def civil_day_def days_before_month_table)
  have "extract_day_of_year t False =
    u32 (doy + (if doy < 306 then 60 + (if leap_year Y then 1 else 0) else - 305))"
    unfolding Y_def leap_year_yoe [OF e(6,7)]
    by (simp only: extract_day_of_year_def Let_def e(1-3) kSecsPerDay_def if_False MARJAN_def JANMAR_def) simp
  also have "\<dots> = doy + (if doy < 306 then 60 + (if leap_year Y then 1 else 0) else - 305)"
    using e(8,9) by (auto simp: wrap_u_id)
  also have "\<dots> = t div 86400 - days_before_year y + 1"
    unfolding day y by (simp add: days_before_year_step)
  finally show ?thesis .
qed

section \<open>Weeks\<close>

text \<open>An era is a whole number of weeks, so the week starts of the code are those of the calendar.\<close>

lemma week_start_from_yoe_eq:
  assumes "0 \<le> yoe" "yoe < 400"
  shows "11017 + 146097 * era + week_start_from_yoe ofs yoe = week_one (ofs + 1) (2000 + 400 * era + yoe + 1)"
proof -
  define j where "j = yoe * 365 + yoe div 4 - yoe div 100 + 309"
  have "civil_day (2000 + 400 * era + yoe + 1) 1 4 = civil_day (2000 + 400 * era + yoe) 3 1 + 309"
    unfolding civil_day_def days_before_year_step by (simp add: days_before_month_table)
  then have c: "civil_day (2000 + 400 * era + yoe + 1) 1 4 = 11017 + 146097 * era + j"
    unfolding march_first_civil [OF assms, symmetric] march_first_def j_def by simp
  have "11017 + 146097 * era + j + (ofs + 1) = (j + ofs) + (1574 + 20871 * era) * 7" by simp
  then have "(11017 + 146097 * era + j + (ofs + 1)) mod 7 = (j + ofs) mod 7" by (simp only: mod_mult_self1)
  moreover have "week_start_from_yoe ofs yoe = j - (j + ofs) mod 7"
    by (simp add: week_start_from_yoe_def Let_def j_def)
  ultimately show ?thesis by (simp only: week_one_def c)
qed

lemma week_one_era:
  assumes "ofs \<in> {2, 3, 4}" shows "week_one (ofs + 1) (2000 + 400 * era) = 11017 + 146097 * era - 56 - ofs"
proof -
  have "leap_year (2000 + 400 * era)" using leap_year_yoe [of 0 era] by simp
  then have "civil_day (2000 + 400 * era) 1 4 = civil_day (2000 + 400 * era) 3 1 - 57"
    by (simp add: civil_day_def days_before_month_table)
  also have "\<dots> = 11017 + 146097 * era - 57"
    using march_first_civil [of 0 era] by (simp add: march_first_def)
  finally have c: "civil_day (2000 + 400 * era) 1 4 = 11017 + 146097 * era - 57" .
  have "11017 + 146097 * era - 57 + (ofs + 1) = (ofs - 1) + (1566 + 20871 * era) * 7" by simp
  then have "(11017 + 146097 * era - 57 + (ofs + 1)) mod 7 = (ofs - 1) mod 7" by (simp only: mod_mult_self1)
  also have "\<dots> = ofs - 1" using assms by auto
  finally show ?thesis by (simp only: week_one_def c)
qed

lemma week_one_bounds:
  fixes k y :: int
  shows "- week_one k y \<le> 3 - days_before_year y" "week_one k y \<le> days_before_year y + 3"
proof -
  define r where "r = (civil_day y 1 4 + k) mod 7"
  have "0 \<le> r" "r \<le> 6" unfolding r_def by simp_all
  then show "- week_one k y \<le> 3 - days_before_year y" "week_one k y \<le> days_before_year y + 3"
    by (simp_all add: week_one_def r_def [symmetric] civil_day_def)
qed

lemma week_of_unique:
  assumes "week_of k day y w" "week_of k day y' w'" shows "y = y' \<and> w = w'"
proof -
  have less: "week_one k (a + 1) \<le> week_one k b" if "a < b" for a b
  proof (cases "b = a + 1")
    case False
    then have "a + 1 < b" using that by simp
    from days_before_year_mono [OF this] have "days_before_year (a + 1) + 365 \<le> days_before_year b"
      unfolding days_before_year_step by (cases "leap_year (a + 1)") simp_all
    then show ?thesis using week_one_bounds(2) [of k "a + 1"] week_one_bounds(1) [of k b] by simp
  qed simp
  have "\<not> y < y'" "\<not> y' < y"
    using assms less [of y y'] less [of y' y] by (auto simp: week_of_def)
  then show ?thesis using assms by (simp add: week_of_def)
qed

lemma extract_week_correct:
  assumes "time_in_range t" "ofs \<in> {2, 3, 4}"
  shows "\<exists>y. week_of (ofs + 1) (t div 86400) y (extract_week ofs t)"
proof -
  obtain era yoe doy moy where e: "floor_div t 86400 = t div 86400"
    "year_of_era (day_of_era (t div 86400)) = yoe" "0 \<le> yoe" "yoe < 400" "0 \<le> doy" "doy \<le> 365"
    "t div 86400 = civil_day (2000 + 400 * era + yoe) 3 1 + doy"
    "day_of_era (t div 86400) = 365 * yoe + yoe div 4 - yoe div 100 + doy"
    by (rule era_path [OF assms(1)])
  define day where "day = t div 86400"
  define doe where "doe = day_of_era day"
  define base where "base = 11017 + 146097 * era"
  define C where "C = 2000 + 400 * era + yoe"
  have base: "day = base + doe"
    unfolding day_def doe_def e(8) unfolding e(7) march_first_civil [OF e(3,4), symmetric] march_first_def base_def by simp
  have day: "days_before_year C + 59 \<le> day" "day \<le> days_before_year C + 425"
    using e(5,6) unfolding day_def e(7) C_def [symmetric] civil_day_def days_before_month_table
    by (simp_all add: of_bool_def)
  have ws: "base + week_start_from_yoe ofs yoe = week_one (ofs + 1) (C + 1)"
    unfolding base_def C_def by (rule week_start_from_yoe_eq [OF e(3,4)])
  have y1: "days_before_year C + 365 \<le> days_before_year (C + 1)" for C
    unfolding days_before_year_step by simp
  have y2: "days_before_year C + 730 \<le> days_before_year (C + 2)"
    using y1 [of C] y1 [of "C + 1"] by (simp add: add.assoc)
  have w1: "week_one (ofs + 1) C \<le> day" "day < week_one (ofs + 1) (C + 2)"
    using week_one_bounds [of "ofs + 1" C] week_one_bounds [of "ofs + 1" "C + 2"] day y2 by simp_all
  have code: "extract_week ofs t = (if doe < week_start_from_yoe ofs yoe
     then if yoe = 0 then (doe + ofs) div 7 + 9 else u32 (doe - week_start_from_yoe ofs (yoe - 1)) div 7 + 1
     else u32 (doe - week_start_from_yoe ofs yoe) div 7 + 1)"
    using e(2) by (simp add: extract_week_def Let_def e(1) day_def [symmetric] doe_def)
  consider (next_year) "week_start_from_yoe ofs yoe \<le> doe" | (first) "doe < week_start_from_yoe ofs yoe" "yoe = 0"
    | (same) "doe < week_start_from_yoe ofs yoe" "1 \<le> yoe" using e(3) by linarith
  then have "\<exists>y. week_of (ofs + 1) day y (extract_week ofs t)"
  proof cases
    case next_year
    have "u32 (doe - week_start_from_yoe ofs yoe) = day - week_one (ofs + 1) (C + 1)"
      by (subst wrap_u_id) (use next_year ws base day week_one_bounds(1) [of "ofs + 1" "C + 1"] y1 [of C] in simp_all)
    then have "week_of (ofs + 1) day (C + 1) (extract_week ofs t)"
      using next_year ws base w1(2) by (simp add: week_of_def code not_less [symmetric] add.assoc)
    then show ?thesis by blast
  next
    case first
    have "week_one (ofs + 1) C = base - 56 - ofs"
      using week_one_era [OF assms(2), of era] first(2) by (simp add: C_def base_def)
    then have d: "day - week_one (ofs + 1) C = (doe + ofs) + 8 * 7" using base by simp
    have "(day - week_one (ofs + 1) C) div 7 = 8 + (doe + ofs) div 7"
      unfolding d by (rule div_mult_self1) simp
    then have "week_of (ofs + 1) day C (extract_week ofs t)"
      using first ws base w1(1) by (simp add: week_of_def code)
    then show ?thesis by blast
  next
    case same
    have ws': "base + week_start_from_yoe ofs (yoe - 1) = week_one (ofs + 1) C"
      using week_start_from_yoe_eq [of "yoe - 1" era ofs] same(2) e(4)
      by (simp add: base_def C_def add.assoc)
    have "u32 (doe - week_start_from_yoe ofs (yoe - 1)) = day - week_one (ofs + 1) C"
      by (subst wrap_u_id) (use ws' base day w1 week_one_bounds(1) [of "ofs + 1" C] in simp_all)
    then have "week_of (ofs + 1) day C (extract_week ofs t)"
      using same ws base w1(1) by (simp add: week_of_def code)
    then show ?thesis by blast
  qed
  then show ?thesis by (simp only: day_def)
qed

section \<open>The time of day\<close>

lemma extract_time_eq:
  "extract_hour t = t mod 86400 div 3600" "extract_minute t = t mod 3600 div 60" "extract_second t = t mod 60"
  by (simp_all add: extract_hour_def extract_minute_def extract_second_def unsigned_mod_eq sdiv_nonneg)

lemma extract_dow_eq:
  assumes "time_in_range t"
  shows "extract_dow t False = (t div 86400 + 4) mod 7" "extract_isodow t False = (t div 86400 + 3) mod 7 + 1"
  by (simp_all add: extract_dow_def extract_isodow_def Let_def floor_div_day [OF assms] unsigned_mod_eq)

section \<open>Properties\<close>

text \<open>
  C12: for every time that \<open>floor_div\<close> handles, \<open>extract_year\<close>, \<open>extract_month\<close> and
  \<open>extract_day\<close> are together the Gregorian date of the day the time lies in, whichever of
  the fast path and the era path each of them takes.
\<close>

theorem extract_date_correct:
  assumes "time_in_range t"
  shows "is_date (t div 86400) (extract_year t False) (extract_month t False) (extract_day t False)"
proof -
  obtain y m where d: "is_date (t div 86400) y m (extract_day t False)" by (rule extract_day_date [OF assms])
  then show ?thesis using extract_year_date [OF assms d] extract_month_date [OF assms d] by simp
qed

theorem extract_date_correct_witness:
  "time_in_range (- 62135596801) \<and> is_date (- 719163) (extract_year (- 62135596801) False)
     (extract_month (- 62135596801) False) (extract_day (- 62135596801) False)"
  using extract_date_correct [of "- 62135596801"] by (simp add: time_in_range_def)

text \<open>
  C31: \<open>extract_quarter\<close> is the quarter of the month of the date and \<open>extract_day_of_year\<close>
  counts the days from 1 January of the year of the date, on both paths.
\<close>

theorem extract_quarter_doy_correct:
  assumes "time_in_range t" "is_date (t div 86400) y m d"
  shows "extract_quarter t False = (m - 1) div 3 + 1 \<and>
    extract_day_of_year t False = t div 86400 - civil_day y 1 1 + 1"
  using extract_quarter_date [OF assms] extract_day_of_year_date [OF assms] by (simp_all add: civil_day_def)

theorem extract_quarter_doy_correct_witness:
  "extract_quarter 951782400 False = 1 \<and> extract_day_of_year 951782400 False = 60"
proof -
  have t: "time_in_range 951782400" by (simp add: time_in_range_def)
  have "is_date (951782400 div 86400) 2000 2 29" by code_simp
  from extract_quarter_doy_correct [OF t this] show ?thesis
    by (simp add: civil_day_def days_before_year_def)
qed

text \<open>
  C19: the three week numbers are weeks of a year in the sense of ISO 8601, with weeks that
  start on Monday, Sunday and Saturday: week 1 is the week of 4 January, and the day lies
  in the week-numbered year whose weeks the number counts.
\<close>

theorem extract_week_iso:
  assumes "time_in_range t"
  shows "(\<exists>y. week_of 3 (t div 86400) y (extract_week_monday t False)) \<and>
    (\<exists>y. week_of 4 (t div 86400) y (extract_week_sunday t False)) \<and>
    (\<exists>y. week_of 5 (t div 86400) y (extract_week_saturday t False))"
  using extract_week_correct [OF assms, of 2] extract_week_correct [OF assms, of 3]
    extract_week_correct [OF assms, of 4]
  by (simp add: extract_week_monday_def extract_week_sunday_def extract_week_saturday_def)

theorem extract_week_iso_witness:
  "time_in_range 1609372800 \<and> extract_week_monday 1609372800 False = 53"
proof -
  have t: "time_in_range 1609372800" by (simp add: time_in_range_def)
  then obtain y where "week_of 3 18627 y (extract_week_monday 1609372800 False)"
    using extract_week_iso [OF t] by auto
  moreover have "week_of 3 18627 2020 53" by code_simp
  ultimately have "extract_week_monday 1609372800 False = 53" using week_of_unique by blast
  with t show ?thesis by simp
qed

text \<open>
  C32: hour, minute and second are the clock time of the second of the day, before and after
  1970: they lie in their ranges and rebuild the time from its day, and the day of week
  counts the days from Sunday (0) and, for \<open>ISODOW\<close>, from Monday (1) to Sunday (7).
\<close>

theorem extract_time_of_day:
  assumes "time_in_range t"
  shows "t = 86400 * (t div 86400) + 3600 * extract_hour t + 60 * extract_minute t + extract_second t \<and>
    extract_hour t \<in> {0..23} \<and> extract_minute t \<in> {0..59} \<and> extract_second t \<in> {0..59} \<and>
    extract_dow t False = (t div 86400 + 4) mod 7 \<and>
    extract_isodow t False = (if extract_dow t False = 0 then 7 else extract_dow t False)"
proof (intro conjI)
  define d r where "d = t div 86400" and "r = t mod 86400"
  define h s where "h = r div 3600" and "s = r mod 3600"
  have hs: "t mod 3600 = s" "t mod 60 = s mod 60"
    by (simp_all add: s_def r_def mod_mod_cancel)
  have t: "t = 86400 * d + r" "0 \<le> r" "r < 86400" by (simp_all add: d_def r_def)
  have r: "r = 3600 * h + s" "0 \<le> s" "s < 3600" by (simp_all add: h_def s_def)
  define m x where "m = s div 60" and "x = s mod 60"
  have s: "s = 60 * m + x" "0 \<le> x" "x < 60" by (simp_all add: m_def x_def)
  have e: "extract_hour t = h" "extract_minute t = m" "extract_second t = x"
    unfolding extract_time_eq hs by (simp_all only: h_def r_def m_def x_def)
  show "t = 86400 * (t div 86400) + 3600 * extract_hour t + 60 * extract_minute t + extract_second t"
    unfolding e d_def [symmetric] using t(1) r(1) s(1) by simp
  show "extract_hour t \<in> {0..23}" "extract_minute t \<in> {0..59}" "extract_second t \<in> {0..59}"
    unfolding e using t r s by auto
  show "extract_dow t False = (t div 86400 + 4) mod 7" by (rule extract_dow_eq [OF assms])
  define k where "k = (t div 86400 + 3) mod 7"
  have "0 \<le> k" "k < 7" unfolding k_def by simp_all
  moreover have "(t div 86400 + 4) mod 7 = (k + 1) mod 7" unfolding k_def mod_add_left_eq by (simp add: add.assoc)
  moreover have "(k + 1) mod 7 = (if k = 6 then 0 else k + 1)" using calculation(1,2) by auto
  ultimately show "extract_isodow t False = (if extract_dow t False = 0 then 7 else extract_dow t False)"
    unfolding extract_dow_eq [OF assms] k_def [symmetric] by simp
qed

theorem extract_time_of_day_witness:
  "time_in_range (- 1) \<and>
   - 1 = 86400 * (- 1 div 86400) + 3600 * extract_hour (- 1) + 60 * extract_minute (- 1) + extract_second (- 1)"
  using extract_time_of_day [of "- 1"] by (simp only: time_in_range_def) simp

end
