(* ===== verification/Date_Truncate.thy ===== *)
theory Date_Truncate
  imports Extract_Correct
begin

text \<open>
  \<open>function/datetime/DateTruncate.h\<close> and \<open>DateTruncate.cpp\<close>: the \<open>DATE_TRUNC\<close> functions with
  their \<open>uint32_t\<close> fast paths, and \<open>DATEDIFF\<close> over \<open>EraTime\<close>.  Products and sums that can
  leave \<open>int64_t\<close> are wrapped with \<open>s64\<close>.
\<close>

section \<open>Fields\<close>

datatype DatetruncField =
    dtYEAR | dtQUARTER | dtMONTH | dtDAY | dtHOUR | dtMINUTE | dtSECOND | dtMILLISECOND
  | dtMICROSECOND | dtNANOSECOND | dtMILLENNIUM | dtCENTURY | dtDECADE | dtWEEK | dtWEEK_SUNDAY
  | dtWEEK_SATURDAY | dtQUARTERDAY | dtINVALID

section \<open>Truncation\<close>

definition datetrunc_minute :: "int \<Rightarrow> int" where
  "datetrunc_minute timeval = s64 (timeval - unsigned_mod timeval kSecsPerMin)"

definition datetrunc_hour :: "int \<Rightarrow> int" where
  "datetrunc_hour timeval = s64 (timeval - unsigned_mod timeval kSecsPerHour)"

definition datetrunc_quarterday :: "int \<Rightarrow> int" where
  "datetrunc_quarterday timeval = s64 (timeval - unsigned_mod timeval kSecsPerQuarterDay)"

definition datetrunc_day :: "int \<Rightarrow> int" where
  "datetrunc_day timeval = s64 (timeval - unsigned_mod timeval kSecsPerDay)"

definition dtMONDAY :: int where [simp]: "dtMONDAY = 3"
definition dtSUNDAY :: int where [simp]: "dtSUNDAY = 4"
definition dtSATURDAY :: int where [simp]: "dtSATURDAY = 5"

definition datetrunc_week :: "int \<Rightarrow> int \<Rightarrow> int" where
  "datetrunc_week ofs timeval =
     s64 (timeval - unsigned_mod (s64 (timeval + ofs * kSecsPerDay)) (7 * kSecsPerDay))"

definition datetrunc_week_monday :: "int \<Rightarrow> int" where
  "datetrunc_week_monday timeval = datetrunc_week dtMONDAY timeval"

definition datetrunc_week_sunday :: "int \<Rightarrow> int" where
  "datetrunc_week_sunday timeval = datetrunc_week dtSUNDAY timeval"

definition datetrunc_week_saturday :: "int \<Rightarrow> int" where
  "datetrunc_week_saturday timeval = datetrunc_week dtSATURDAY timeval"

definition datetrunc_month :: "int \<Rightarrow> int" where
  "datetrunc_month timeval =
     (if in_fast_range timeval then
        let seconds_march_1900 = u32 (timeval + kEpochOffsetYear1900 - kSecsJanToMar1900);
            seconds_past_4year_period = seconds_march_1900 mod kSecondsPer4YearCycle;
            four_year_period_seconds =
              u32 ((seconds_march_1900 div kSecondsPer4YearCycle) * kSecondsPer4YearCycle);
            year_seconds = u32 ((seconds_past_4year_period div kSecondsPerNonLeapYear) * kSecondsPerNonLeapYear);
            year_seconds_past_4year_period =
              (if seconds_past_4year_period \<ge> kSecondsPer4YearCycle - kUSecsPerDay
               then u32 (year_seconds - kSecondsPerNonLeapYear) else year_seconds);
            seconds_past_march = u32 (seconds_past_4year_period - year_seconds_past_4year_period);
            month = seconds_past_march div (30 * kUSecsPerDay);
            month = (if month \<le> 11 then month else 11);
            month = (if cumulative_month_epoch_starts ! nat month > seconds_past_march
                     then u32 (month - 1) else month)
        in four_year_period_seconds + year_seconds_past_4year_period
           + cumulative_month_epoch_starts ! nat month - kEpochOffsetYear1900 + kSecsJanToMar1900
      else
        let day = floor_div timeval kSecsPerDay;
            doe = day_of_era day;
            yoe = year_of_era doe;
            doy = day_of_march_year doe yoe;
            moy = month_of_march_year doy;
            dom = u32 (doy - (153 * moy + 2) div 5)
        in s64 ((day - dom) * kSecsPerDay))"

definition datetrunc_quarter :: "int \<Rightarrow> int" where
  "datetrunc_quarter timeval =
     (if in_fast_range timeval then
        let seconds_1900 = u32 (timeval + kEpochOffsetYear1900);
            leap_years = u32 (seconds_1900 - kSecsJanToMar1900) div kSecondsPer4YearCycle;
            year = u32 (seconds_1900 - leap_years * kUSecsPerDay) div kSecondsPerNonLeapYear;
            base_year_leap_years = u32 (year - 1) div 4;
            base_year_seconds =
              u32 (year * kSecondsPerNonLeapYear + base_year_leap_years * kUSecsPerDay);
            is_leap_year = (year mod 4 = 0 \<and> year \<noteq> 0);
            quarter_offsets = (if is_leap_year then cumulative_quarter_epoch_starts_leap_year
                               else cumulative_quarter_epoch_starts);
            partial_year_seconds = seconds_1900 mod base_year_seconds;
            quarter = partial_year_seconds div (90 * kUSecsPerDay);
            quarter = (if quarter \<le> 3 then quarter else 3);
            quarter = (if quarter_offsets ! nat quarter > partial_year_seconds
                       then u32 (quarter - 1) else quarter)
        in base_year_seconds + quarter_offsets ! nat quarter - kEpochOffsetYear1900
      else
        let day = floor_div timeval kSecsPerDay;
            doe = day_of_era day;
            yoe = year_of_era doe;
            doy = day_of_march_year doe yoe;
            apr1 = 31;
            doq = (if doy < apr1
                   then u32 (JANMAR + (if yoe mod 4 = 0 \<and> (yoe mod 100 \<noteq> 0 \<or> yoe = 0) then 1 else 0) + doy)
                   else let q = (3 * (doy - apr1) + 2) div 275
                        in u32 (doy - (apr1 + q * 92 - (if q \<noteq> 0 then 1 else 0))))
        in s64 ((day - doq) * kSecsPerDay))"

definition datetrunc_year :: "int \<Rightarrow> int" where
  "datetrunc_year timeval =
     (if in_fast_range timeval then
        let seconds_1900 = u32 (u32 timeval + kEpochOffsetYear1900);
            leap_years = u32 (seconds_1900 - kSecsJanToMar1900) div kSecondsPer4YearCycle;
            year = u32 (seconds_1900 - leap_years * kUSecsPerDay) div kSecondsPerNonLeapYear;
            base_year_leap_years = u32 (year - 1) div 4
        in year * kSecondsPerNonLeapYear + u32 (base_year_leap_years * kUSecsPerDay) - kEpochOffsetYear1900
      else
        let day = floor_div timeval kSecsPerDay;
            doe = day_of_era day;
            yoe = year_of_era doe;
            doy = day_of_march_year doe yoe;
            docy = (if doy < MARJAN
                    then u32 (JANMAR + (if yoe mod 4 = 0 \<and> (yoe = 0 \<or> yoe mod 100 \<noteq> 0) then 1 else 0) + doy)
                    else doy - MARJAN)
        in s64 ((day - docy) * kSecsPerDay))"

definition datetrunc_decade :: "int \<Rightarrow> int" where
  "datetrunc_decade timeval =
     (let decmarjan = MARJAN + 9 * 365 + 2;
          day = floor_div timeval kSecsPerDay;
          doe = day_of_era day;
          yoe = year_of_era doe;
          decoe = yoe - yoe mod 10;
          days_after_decade = u32 (doe - (365 * decoe + decoe div 4 - decoe div 100));
          days_after_decade =
            (if days_after_decade < decmarjan
             then u32 (days_after_decade + JANMAR
                       + (if decoe mod 4 = 0 \<and> (decoe = 0 \<or> decoe mod 100 \<noteq> 0) then 1 else 0))
             else days_after_decade - decmarjan)
      in s64 ((day - days_after_decade) * kSecsPerDay))"

definition datetrunc_century :: "int \<Rightarrow> int" where
  "datetrunc_century timeval =
     (let day = floor_div timeval kSecsPerDay;
          doe = day_of_era day;
          doc = (if doe < MARJAN then doe + (36525 - MARJAN) else (doe - MARJAN) mod 36524)
      in s64 ((day - doc) * kSecsPerDay))"

definition datetrunc_millennium :: "int \<Rightarrow> int" where
  "datetrunc_millennium timeval =
     (let millennium2001 = 365242;
          day = floor_div timeval kSecsPerDay;
          dom = u32 (unsigned_mod (day - kEpochAdjustedDays) (5 * kDaysPer400Years));
          dom = (if dom < MARJAN then dom + (millennium2001 + 1 - MARJAN)
                 else if dom < MARJAN + millennium2001 then dom - MARJAN
                 else dom - (MARJAN + millennium2001))
      in s64 ((day - dom) * kSecsPerDay))"

fun DateTruncate :: "DatetruncField \<Rightarrow> int \<Rightarrow> int result" where
  "DateTruncate dtNANOSECOND timeval = Inr timeval"
| "DateTruncate dtMICROSECOND timeval = Inr timeval"
| "DateTruncate dtMILLISECOND timeval = Inr timeval"
| "DateTruncate dtSECOND timeval = Inr timeval"
| "DateTruncate dtMINUTE timeval = Inr (datetrunc_minute timeval)"
| "DateTruncate dtHOUR timeval = Inr (datetrunc_hour timeval)"
| "DateTruncate dtQUARTERDAY timeval = Inr (datetrunc_quarterday timeval)"
| "DateTruncate dtDAY timeval = Inr (datetrunc_day timeval)"
| "DateTruncate dtWEEK timeval = Inr (datetrunc_week dtMONDAY timeval)"
| "DateTruncate dtWEEK_SUNDAY timeval = Inr (datetrunc_week dtSUNDAY timeval)"
| "DateTruncate dtWEEK_SATURDAY timeval = Inr (datetrunc_week dtSATURDAY timeval)"
| "DateTruncate dtMONTH timeval = Inr (datetrunc_month timeval)"
| "DateTruncate dtQUARTER timeval = Inr (datetrunc_quarter timeval)"
| "DateTruncate dtYEAR timeval = Inr (datetrunc_year timeval)"
| "DateTruncate dtDECADE timeval = Inr (datetrunc_decade timeval)"
| "DateTruncate dtCENTURY timeval = Inr (datetrunc_century timeval)"
| "DateTruncate dtMILLENNIUM timeval = Inr (datetrunc_millennium timeval)"
| "DateTruncate dtINVALID timeval = Inl CiderUnsupportedException"

definition truncate_high_precision_timestamp_to_date :: "int \<Rightarrow> int \<Rightarrow> int" where
  "truncate_high_precision_timestamp_to_date timeval scale =
     s64 (floor_div timeval (s64 (scale * kSecsPerDay)) * kSecsPerDay)"

definition DateTruncateHighPrecisionToDate :: "int \<Rightarrow> int \<Rightarrow> int" where
  "DateTruncateHighPrecisionToDate timeval scale = truncate_high_precision_timestamp_to_date timeval scale"

definition DateTruncateHighPrecisionToDateNullable :: "int \<Rightarrow> int \<Rightarrow> int \<Rightarrow> int" where
  "DateTruncateHighPrecisionToDateNullable timeval scale null_val =
     (if timeval = null_val then null_val else truncate_high_precision_timestamp_to_date timeval scale)"

end
