(* ===== verification/Truncate_Correct.thy ===== *)
theory Truncate_Correct
  imports Date_Truncate
begin

text \<open>
  The truncations of \<open>DateTruncate.cpp\<close> against the calendar: each returns the first second of
  the period (month, quarter, year, decade, century, millennium, week, ...) that contains the
  time, on the fast path and on the era path.
\<close>

section \<open>Helper facts of the calendar\<close>

text \<open>The first day of the months counted from March, and their lengths.\<close>

lemma march_month_start:
  assumes "0 \<le> moy" "moy < 12"
  shows "civil_day (if moy < 10 then y else y + 1) (if moy < 10 then moy + 3 else moy - 9) 1
    = civil_day y 3 1 + (153 * moy + 2) div 5"
  by (rule int_cases_12 [OF assms])
    (simp_all add: civil_day_def days_before_month_table days_before_year_step)

lemma civil_day_first: "is_date day y m d \<Longrightarrow> day - (d - 1) = civil_day y m 1"
  by (auto simp: is_date_def civil_day_def)

lemma year_between:
  assumes "is_date day y m d" "days_before_year a \<le> day" "day < days_before_year b"
  shows "a \<le> y" "y < b"
proof -
  have y: "days_before_year y \<le> day" "day < days_before_year (y + 1)"
    using assms(1) civil_day_in_year [of y m d] by (simp_all add: is_date_def)
  have mono: "days_before_year u \<le> days_before_year v" if "u \<le> v" for u v
    using that days_before_year_mono [of u v] days_before_year_step [of u] by (cases "u = v"; cases "leap_year u") simp_all
  show "a \<le> y"
  proof (rule ccontr)
    assume "\<not> a \<le> y"
    then have "days_before_year (y + 1) \<le> days_before_year a" by (intro mono) simp
    then show False using y(2) assms(2) by simp
  qed
  show "y < b"
  proof (rule ccontr)
    assume "\<not> y < b"
    then have "days_before_year b \<le> days_before_year y" by (intro mono) simp
    then show False using y(1) assms(3) by simp
  qed
qed

lemma year_shift_arith:
  "365 * (y + 400 * e - 1) + (100 * e + a) - (4 * e + b) + (e + c) - k
    = 365 * (y - 1) + a - b + c - k + 146097 * e" for y :: int
  by simp

lemma days_before_year_shift: "days_before_year (y + 400 * e) = days_before_year y + 146097 * e"
proof -
  have e: "y + 400 * e - 1 = (y - 1) + (100 * e) * 4" "y + 400 * e - 1 = (y - 1) + (4 * e) * 100"
    "y + 400 * e - 1 = (y - 1) + e * 400" by simp_all
  have d4: "(y + 400 * e - 1) div 4 = 100 * e + (y - 1) div 4" unfolding e(1) by (rule div_mult_self1) simp
  have d100: "(y + 400 * e - 1) div 100 = 4 * e + (y - 1) div 100" unfolding e(2) by (rule div_mult_self1) simp
  have d400: "(y + 400 * e - 1) div 400 = e + (y - 1) div 400" unfolding e(3) by (rule div_mult_self1) simp
  show ?thesis unfolding days_before_year_def d4 d100 d400 by (rule year_shift_arith)
qed

section \<open>Months\<close>

lemma month_table_start:
  assumes "0 \<le> moy" "moy < 12"
  shows "cumulative_month_epoch_starts ! nat moy = 86400 * ((153 * moy + 2) div 5)"
  by (rule int_cases_12 [OF assms]) (simp_all add: cumulative_month_epoch_starts_def)

lemma datetrunc_month_fast:
  assumes "in_fast_range t" "is_date (t div 86400) y m d"
  shows "datetrunc_month t = 86400 * civil_day y m 1"
proof (rule fast_month_steps [OF assms(1)])
  fix D sec L x j doy
  assume steps: "t + 2208988800 = 86400 * D + sec" "u32 (86400 * D + sec - 5097600) = 86400 * (D - 59) + sec"
    "(86400 * (D - 59) + sec) mod 126230400 = 86400 * x + sec"
    "(86400 * (D - 59) + sec) div 126230400 = L"
    "(86400 * x + sec) div 31536000 = x div 365" "86400 * x + sec \<ge> 126144000 \<longleftrightarrow> x \<ge> 1460"
    "(if x \<ge> 1460 then u32 (u32 (x div 365 * 31536000) - 31536000) else u32 (x div 365 * 31536000))
      = 86400 * (365 * j)"
    "u32 (86400 * x + sec - 86400 * (365 * j)) = 86400 * doy + sec"
    "(86400 * doy + sec) div 2592000 = doy div 30"
    "(if cumulative_month_epoch_starts ! nat (if doy div 30 \<le> 11 then doy div 30 else 11) > 86400 * doy + sec
      then u32 ((if doy div 30 \<le> 11 then doy div 30 else 11) - 1)
      else (if doy div 30 \<le> 11 then doy div 30 else 11)) = march_month doy"
    and d: "t div 86400 = D - 25567" "D - 59 = 1461 * L + x" "x = 365 * j + doy"
    and doy: "0 \<le> doy" "doy \<le> 365" and L: "17 \<le> L" "L \<le> 33"
    and date: "is_date (t div 86400)
      (if march_month doy < 10 then 1900 + (4 * L + j) else 1900 + (4 * L + j) + 1)
      (if march_month doy < 10 then march_month doy + 3 else march_month doy - 9) (march_dom doy + 1)"
  note mb = march_month_bounds(1,2) [OF doy]
  define f where "f = (153 * march_month doy + 2) div 5"
  have L': "u32 (L * 126230400) = L * 126230400" by (rule wrap_u_id) (use L in simp_all)
  have "civil_day y m 1 = t div 86400 - (march_dom doy + 1 - 1)"
    using is_date_unique [OF date assms(2)] civil_day_first [OF date] by auto
  then have c: "civil_day y m 1 = D - 25567 - (doy - f)" using d(1) by (simp add: march_dom_def f_def)
  have "datetrunc_month t = L * 126230400 + 86400 * (365 * j) + 86400 * f - 2208988800 + 5097600"
    unfolding datetrunc_month_def Let_def time_constants mult_numerals steps L' month_table_start [OF mb] f_def
    using assms(1) by (simp only: if_True)
  also have "\<dots> = 86400 * civil_day y m 1" unfolding c using d(2,3) by simp
  finally show ?thesis .
qed

lemma fast_start_in_range:
  assumes "in_fast_range t" "t div 86400 - 400 \<le> c" "c \<le> t div 86400"
  shows "s64 (86400 * c) = 86400 * c"
proof -
  define day where "day = t div 86400"
  have "0 \<le> day" "day \<le> 24145" unfolding day_def
    using assms(1) zdiv_mono1 [of t "24145 * 86400" 86400] by (simp_all add: in_fast_range_def pos_imp_zdiv_nonneg_iff)
  then show ?thesis using assms(2,3) by (intro wrap_s_id) (simp_all add: day_def [symmetric])
qed

lemma datetrunc_month_eq:
  assumes "time_in_range t" "is_date (t div 86400) y m d"
  shows "datetrunc_month t = s64 (86400 * civil_day y m 1)"
proof (cases "in_fast_range t")
  case True
  have "d \<le> 31" "1 \<le> d" using assms(2) by (auto simp: is_date_def valid_civil_def days_in_month_def split: if_splits)
  then have "s64 (86400 * civil_day y m 1) = 86400 * civil_day y m 1"
    unfolding civil_day_first [OF assms(2), symmetric] by (intro fast_start_in_range [OF True]) simp_all
  then show ?thesis using datetrunc_month_fast [OF True assms(2)] by simp
next
  case False
  obtain era yoe doy moy where e: "floor_div t 86400 = t div 86400"
    "year_of_era (day_of_era (t div 86400)) = yoe"
    "day_of_march_year (day_of_era (t div 86400)) yoe = doy" "month_of_march_year doy = moy"
    "is_date (t div 86400) (2000 + era * 400 + yoe + (if moy < 10 then 0 else 1))
       (if moy < 10 then moy + 3 else moy - 9) (doy - (153 * moy + 2) div 5 + 1)"
    "0 \<le> moy" "doy \<le> 365" "0 \<le> doy"
    by (rule era_path [OF assms(1)])
  define f where "f = (153 * moy + 2) div 5"
  have d: "doy - f + 1 = d" using is_date_unique [OF e(5) assms(2)] by (simp add: f_def)
  have "1 \<le> d" using assms(2) by (simp add: is_date_def valid_civil_def)
  then have f: "0 \<le> f" "f \<le> doy" using e(6) d by (simp_all add: f_def pos_imp_zdiv_nonneg_iff)
  have u: "u32 (doy - f) = doy - f" by (rule wrap_u_id) (use f e(7) in simp_all)
  have "datetrunc_month t = s64 ((t div 86400 - (doy - f)) * 86400)"
    using False by (simp only: datetrunc_month_def Let_def e(1-4) kSecsPerDay_def if_False f_def [symmetric] u)
  also have "t div 86400 - (doy - f) = civil_day y m 1"
    using civil_day_first [OF assms(2)] d by simp
  finally show ?thesis by (simp only: mult.commute)
qed

section \<open>Quarters and years\<close>

lemma quarter_table_start:
  assumes "0 \<le> q" "q \<le> 3"
  shows "(if leap_year y then cumulative_quarter_epoch_starts_leap_year else cumulative_quarter_epoch_starts)
    ! nat q = 86400 * days_before_month y (3 * q + 1)"
proof -
  have "q = 0 \<or> q = 1 \<or> q = 2 \<or> q = 3" using assms by auto
  then show ?thesis
    by (auto simp: cumulative_quarter_epoch_starts_def cumulative_quarter_epoch_starts_leap_year_def
        days_before_month_table)
qed

lemma quarter_bounds:
  assumes "is_date day y m d"
  shows "0 \<le> (m - 1) div 3" "(m - 1) div 3 \<le> 3"
    "civil_day y (3 * ((m - 1) div 3) + 1) 1 \<le> day" "day - 366 \<le> civil_day y (3 * ((m - 1) div 3) + 1) 1"
proof -
  define q where "q = (m - 1) div 3"
  define p where "p = day - days_before_year y"
  have q: "q = quarter_index (leap_year y) p" unfolding q_def p_def by (rule month_quarter_index [OF assms])
  have p: "0 \<le> p" "p \<le> 365" using day_index_range [OF assms] by (auto simp: p_def of_bool_def split: if_splits)
  have q3: "q = 0 \<or> q = 1 \<or> q = 2 \<or> q = 3" unfolding q by (simp add: quarter_index_def)
  then show "0 \<le> (m - 1) div 3" "(m - 1) div 3 \<le> 3" unfolding q_def [symmetric] by auto
  have "0 \<le> days_before_month y (3 * q + 1)" "days_before_month y (3 * q + 1) \<le> p"
    using q3 p(1) q by (auto simp: days_before_month_table quarter_index_def split: if_splits)
  then show "civil_day y (3 * ((m - 1) div 3) + 1) 1 \<le> day" "day - 366 \<le> civil_day y (3 * ((m - 1) div 3) + 1) 1"
    unfolding q_def [symmetric] using p by (simp_all add: civil_day_def p_def)
qed

lemma datetrunc_quarter_fast:
  assumes "in_fast_range t" "is_date (t div 86400) y m d"
  shows "datetrunc_quarter t = 86400 * civil_day y (3 * ((m - 1) div 3) + 1) 1"
proof (rule fast_quarter_steps [OF assms])
  fix D sec L n b p
  assume steps: "t + 2208988800 = 86400 * D + sec" "u32 (86400 * D + sec) = 86400 * D + sec"
    "u32 (86400 * D + sec - 5097600) div 126230400 = L"
    "u32 (86400 * D + sec - L * 86400) div 31536000 = n" "u32 (n - 1) = n - 1"
    "(n - 1) div 4 = b" "u32 (n * 31536000 + b * 86400) = 86400 * (365 * n + b)"
    "(86400 * D + sec) mod (86400 * (365 * n + b)) = 86400 * p + sec"
    "(86400 * p + sec) div 7776000 = p div 90" "(n mod 4 = 0 \<and> n \<noteq> 0) = leap_year y"
    "(if (if leap_year y then cumulative_quarter_epoch_starts_leap_year else cumulative_quarter_epoch_starts)
          ! nat (if p div 90 \<le> 3 then p div 90 else 3) > 86400 * p + sec
      then u32 ((if p div 90 \<le> 3 then p div 90 else 3) - 1)
      else (if p div 90 \<le> 3 then p div 90 else 3)) = (m - 1) div 3"
    and dby: "days_before_year y = 365 * n + b - 25567"
  have "datetrunc_quarter t = 86400 * (365 * n + b)
      + 86400 * days_before_month y (3 * ((m - 1) div 3) + 1) - 2208988800"
    unfolding datetrunc_quarter_def Let_def time_constants mult_numerals steps
      quarter_table_start [OF quarter_bounds(1,2) [OF assms(2)]]
    using assms(1) by (simp only: if_True)
  also have "\<dots> = 86400 * civil_day y (3 * ((m - 1) div 3) + 1) 1"
    by (simp add: civil_day_def dby)
  finally show ?thesis .
qed

definition march_quarter_start :: "int \<Rightarrow> int" where
  "march_quarter_start moy = (if moy < 4 then 31 else if moy < 7 then 122 else if moy < 10 then 214 else 306)"

lemma march_quarter_all:
  "\<forall>doy \<in> set [31..365]. let q = (3 * (doy - 31) + 2) div 275 in
     31 + q * 92 - (if q \<noteq> 0 then 1 else 0) = march_quarter_start (march_month doy)"
  by code_simp

lemma march_month_first: "\<forall>doy \<in> set [0..365]. (doy < 31) = (march_month doy = 0) \<and>
    (31 \<le> doy \<longrightarrow> march_quarter_start (march_month doy) \<le> doy)"
  by code_simp

lemma march_quarter_civil:
  assumes "1 \<le> moy" "moy < 12"
  shows "civil_day y 3 1 + march_quarter_start moy =
    civil_day (if moy < 10 then y else y + 1)
      (3 * (((if moy < 10 then moy + 3 else moy - 9) - 1) div 3) + 1) 1"
proof -
  have b: "0 \<le> moy" "moy < 12" using assms by simp_all
  show ?thesis
    by (rule int_cases_12 [OF b])
      (use assms(1) in \<open>simp_all add: march_quarter_start_def civil_day_def days_before_month_table days_before_year_step\<close>)
qed

lemma datetrunc_quarter_eq:
  assumes "time_in_range t" "is_date (t div 86400) y m d"
  shows "datetrunc_quarter t = s64 (86400 * civil_day y (3 * ((m - 1) div 3) + 1) 1)"
proof (cases "in_fast_range t")
  case True
  have "s64 (86400 * civil_day y (3 * ((m - 1) div 3) + 1) 1) = 86400 * civil_day y (3 * ((m - 1) div 3) + 1) 1"
    by (rule fast_start_in_range [OF True]) (use quarter_bounds(3,4) [OF assms(2)] in simp_all)
  then show ?thesis using datetrunc_quarter_fast [OF True assms(2)] by simp
next
  case False
  obtain era yoe doy moy where e: "floor_div t 86400 = t div 86400"
    "year_of_era (day_of_era (t div 86400)) = yoe"
    "day_of_march_year (day_of_era (t div 86400)) yoe = doy" "month_of_march_year doy = moy"
    "is_date (t div 86400) (2000 + era * 400 + yoe + (if moy < 10 then 0 else 1))
       (if moy < 10 then moy + 3 else moy - 9) (doy - (153 * moy + 2) div 5 + 1)"
    "0 \<le> moy" "moy < 12" "0 \<le> yoe" "yoe < 400" "0 \<le> doy" "doy \<le> 365"
    "t div 86400 = civil_day (2000 + 400 * era + yoe) 3 1 + doy"
    by (rule era_path [OF assms(1)])
  define Y where "Y = 2000 + 400 * era + yoe"
  have mm: "march_month doy = moy" using e(4) by (simp add: month_of_march_year_def march_month_def)
  have ym: "y = (if moy < 10 then Y else Y + 1)" "m = (if moy < 10 then moy + 3 else moy - 9)"
    using is_date_unique [OF e(5) assms(2)] by (auto simp: Y_def)
  have code: "datetrunc_quarter t = s64 ((t div 86400 - (if doy < 31
       then u32 (59 + (if leap_year Y then 1 else 0) + doy)
       else let q = (3 * (doy - 31) + 2) div 275 in u32 (doy - (31 + q * 92 - (if q \<noteq> 0 then 1 else 0))))) * 86400)"
    unfolding Y_def leap_year_yoe [OF e(8,9)] using False
    by (simp only: datetrunc_quarter_def Let_def e(1-3) kSecsPerDay_def if_False JANMAR_def) simp
  have first: "doy < 31 \<longleftrightarrow> moy = 0" "31 \<le> doy \<longrightarrow> march_quarter_start moy \<le> doy"
    using march_month_first e(10,11) by (auto simp: mm [symmetric])
  show ?thesis
  proof (cases "doy < 31")
    case True
    have "u32 (59 + (if leap_year Y then 1 else 0) + doy) = 59 + of_bool (leap_year Y) + doy"
      by (subst wrap_u_id) (use e(10,11) in simp_all)
    moreover have "t div 86400 - (59 + of_bool (leap_year Y) + doy) = civil_day Y 1 1"
      unfolding e(12) Y_def [symmetric] civil_day_def by (simp add: days_before_month_table)
    moreover have "y = Y" "3 * ((m - 1) div 3) + 1 = 1" using True first(1) ym by simp_all
    ultimately show ?thesis unfolding code using True by (simp add: mult.commute)
  next
    case False
    define s where "s = march_quarter_start moy"
    have "doy \<in> set [31..365]" unfolding set_upto atLeastAtMost_iff using False e(11) by simp
    from bspec [OF march_quarter_all this]
    have q: "(let q = (3 * (doy - 31) + 2) div 275 in u32 (doy - (31 + q * 92 - (if q \<noteq> 0 then 1 else 0)))) = u32 (doy - s)"
      unfolding Let_def mm s_def by (simp only:)
    have "0 \<le> s" by (simp add: s_def march_quarter_start_def)
    then have "u32 (doy - s) = doy - s"
      by (intro wrap_u_id) (use first(2) False e(11) in \<open>simp_all add: s_def\<close>)
    moreover have "t div 86400 - (doy - s) = civil_day y (3 * ((m - 1) div 3) + 1) 1"
      unfolding e(12) Y_def [symmetric] ym s_def
      using march_quarter_civil [of moy Y] first(1) False e(6,7) by simp
    ultimately show ?thesis unfolding code q using False by (simp add: mult.commute)
  qed
qed

lemma year_start_bounds:
  assumes "is_date day y m d" shows "civil_day y 1 1 \<le> day" "day - 366 \<le> civil_day y 1 1"
  using day_index_range [OF assms] by (auto simp: civil_day_def of_bool_def split: if_splits)

lemma datetrunc_year_fast:
  assumes "in_fast_range t" "is_date (t div 86400) y m d"
  shows "datetrunc_year t = 86400 * civil_day y 1 1"
proof (rule fast_quarter_steps [OF assms])
  fix D sec L n b p
  assume steps: "t + 2208988800 = 86400 * D + sec" "u32 (86400 * D + sec) = 86400 * D + sec"
    "u32 (86400 * D + sec - 5097600) div 126230400 = L"
    "u32 (86400 * D + sec - L * 86400) div 31536000 = n" "u32 (n - 1) = n - 1" "(n - 1) div 4 = b"
    and dby: "days_before_year y = 365 * n + b - 25567" and b: "0 \<le> b" "b \<le> 33"
  have "u32 t = t" using assms(1) by (intro wrap_u_id) (simp_all add: in_fast_range_def)
  moreover have "u32 (b * 86400) = b * 86400" by (rule wrap_u_id) (use b in simp_all)
  ultimately have "datetrunc_year t = n * 31536000 + b * 86400 - 2208988800"
    unfolding datetrunc_year_def Let_def time_constants
    using assms(1) by (simp only: if_True steps)
  also have "\<dots> = 86400 * civil_day y 1 1" by (simp add: civil_day_def dby)
  finally show ?thesis .
qed

lemma datetrunc_year_eq:
  assumes "time_in_range t" "is_date (t div 86400) y m d"
  shows "datetrunc_year t = s64 (86400 * civil_day y 1 1)"
proof (cases "in_fast_range t")
  case True
  have "s64 (86400 * civil_day y 1 1) = 86400 * civil_day y 1 1"
    by (rule fast_start_in_range [OF True]) (use year_start_bounds [OF assms(2)] in simp_all)
  then show ?thesis using datetrunc_year_fast [OF True assms(2)] by simp
next
  case False
  obtain era yoe doy moy where e: "floor_div t 86400 = t div 86400"
    "year_of_era (day_of_era (t div 86400)) = yoe"
    "day_of_march_year (day_of_era (t div 86400)) yoe = doy"
    "is_date (t div 86400) (2000 + era * 400 + yoe + (if moy < 10 then 0 else 1))
       (if moy < 10 then moy + 3 else moy - 9) (doy - (153 * moy + 2) div 5 + 1)"
    "moy < 10 \<longleftrightarrow> doy < 306" "0 \<le> yoe" "yoe < 400" "0 \<le> doy" "doy \<le> 365"
    "t div 86400 = civil_day (2000 + 400 * era + yoe) 3 1 + doy"
    by (rule era_path [OF assms(1)])
  define Y where "Y = 2000 + 400 * era + yoe"
  have y: "y = (if doy < 306 then Y else Y + 1)"
    using is_date_unique [OF e(4) assms(2)] e(5) by (auto simp: Y_def)
  have code: "datetrunc_year t = s64 ((t div 86400 - (if doy < 306
      then u32 (59 + (if leap_year Y then 1 else 0) + doy) else doy - 306)) * 86400)"
    unfolding Y_def leap_year_yoe [OF e(6,7)] using False
    by (simp only: datetrunc_year_def Let_def e(1-3) kSecsPerDay_def if_False JANMAR_def MARJAN_def disj_commute) simp
  have "u32 (59 + (if leap_year Y then 1 else 0) + doy) = 59 + of_bool (leap_year Y) + doy"
    by (subst wrap_u_id) (use e(8,9) in simp_all)
  moreover have "t div 86400 - (if doy < 306 then 59 + of_bool (leap_year Y) + doy else doy - 306) = civil_day y 1 1"
    unfolding e(10) Y_def [symmetric] y civil_day_def by (simp add: days_before_month_table days_before_year_step)
  ultimately show ?thesis unfolding code by (simp only: mult.commute)
qed

section \<open>Decades, centuries and millennia\<close>

lemma decade_leap_days: "days_before_year (10 * k + 10) = days_before_year (10 * k + 1) + 3287"
proof -
  define i e where "i = k div 2" and "e = k mod 2"
  define a c where "a = k div 10" and "c = k mod 10"
  define q r where "q = k div 40" and "r = k mod 40"
  have k: "k = 2 * i + e" "e = 0 \<or> e = 1" by (auto simp: i_def e_def)
  have k10: "k = 10 * a + c" "0 \<le> c" "c \<le> 9"
    using pos_mod_bound [of 10 k] by (simp_all add: a_def c_def del: pos_mod_bound)
  have k40: "k = 40 * q + r" "0 \<le> r" "r \<le> 39"
    using pos_mod_bound [of 40 k] by (simp_all add: q_def r_def del: pos_mod_bound)
  have d4: "(10 * k + 9) div 4 = 5 * i + 2 * e + 2" "(10 * k) div 4 = 5 * i + 2 * e"
    by (rule div_eqI; use k in auto)+
  have d100: "(10 * k + 9) div 100 = a" "(10 * k) div 100 = a" by (rule div_eqI; use k10 in auto)+
  have d400: "(10 * k + 9) div 400 = q" "(10 * k) div 400 = q" by (rule div_eqI; use k40 in auto)+
  have "10 * k + 10 - 1 = 10 * k + 9" "10 * k + 1 - 1 = 10 * k" by simp_all
  then show ?thesis unfolding days_before_year_def by (simp only: d4 d100 d400) simp
qed

lemma decade_end:
  assumes "0 \<le> decoe" "decoe < 400" "10 dvd decoe"
  shows "march_first era decoe + 3593 = days_before_year (2000 + 400 * era + decoe + 10)"
proof -
  obtain c where "decoe = 10 * c" using assms(3) by (rule dvdE)
  then have y: "2000 + 400 * era + decoe = 10 * (200 + 40 * era + c)" by simp
  have "march_first era decoe = civil_day (2000 + 400 * era + decoe) 3 1"
    by (rule march_first_civil [OF assms(1,2)])
  also have "\<dots> = days_before_year (2000 + 400 * era + decoe + 1) - 306"
    unfolding days_before_year_step civil_day_def by (simp add: days_before_month_table)
  finally show ?thesis unfolding y decade_leap_days by simp
qed

lemma march_first_mono:
  assumes "a \<le> b" "0 \<le> a" "b < 400" shows "march_first era a \<le> march_first era b"
proof -
  have "a div 4 \<le> b div 4" using assms by (intro zdiv_mono1) simp_all
  moreover have "b div 100 \<le> a div 100 + (b - a)"
  proof -
    have "b div 100 \<le> (a + (b - a) * 100) div 100" using assms by (intro zdiv_mono1) simp_all
    also have "\<dots> = (b - a) + a div 100" by (rule div_mult_self1) simp
    finally show ?thesis by simp
  qed
  ultimately show ?thesis using assms(1) unfolding march_first_def
    by (simp only: algebra_simps)
qed

lemma year_start_le_iff:
  assumes "is_date day y m d" shows "day < days_before_year b \<longleftrightarrow> y < b"
proof
  have y: "days_before_year y \<le> day" "day < days_before_year (y + 1)"
    using assms civil_day_in_year [of y m d] by (simp_all add: is_date_def)
  show "y < b" if "day < days_before_year b" using year_between(2) [OF assms y(1) that] .
  show "day < days_before_year b" if "y < b" using y(2) days_before_year_mono [OF that] by simp
qed

lemma datetrunc_decade_eq:
  assumes "time_in_range t" "is_date (t div 86400) y m d"
  shows "datetrunc_decade t = s64 (86400 * civil_day (10 * (y div 10)) 1 1)"
proof -
  obtain era yoe doy moy where e: "floor_div t 86400 = t div 86400"
    "year_of_era (day_of_era (t div 86400)) = yoe"
    "is_date (t div 86400) (2000 + era * 400 + yoe + (if moy < 10 then 0 else 1))
       (if moy < 10 then moy + 3 else moy - 9) (doy - (153 * moy + 2) div 5 + 1)"
    "0 \<le> yoe" "yoe < 400" "0 \<le> doy" "doy \<le> 365"
    "t div 86400 = civil_day (2000 + 400 * era + yoe) 3 1 + doy"
    "day_of_era (t div 86400) = 365 * yoe + yoe div 4 - yoe div 100 + doy"
    by (rule era_path [OF assms(1)])
  define day where "day = t div 86400"
  define k where "k = yoe div 10"
  have k: "10 * k \<le> yoe" "yoe < 10 * k + 10" "0 \<le> k" "yoe - yoe mod 10 = 10 * k"
    using e(4) by (simp_all add: k_def minus_mod_eq_mult_div pos_imp_zdiv_nonneg_iff)
  define Y where "Y = 2000 + 400 * era + 10 * k"
  have y: "Y \<le> y" "y \<le> Y + 10" using is_date_unique [OF e(3) assms(2)] k by (auto simp: Y_def)
  define r where "r = day - march_first era (10 * k)"
  have day: "day = march_first era yoe + doy" unfolding day_def e(8) march_first_civil [OF e(4,5)] ..
  have r: "0 \<le> r" using march_first_mono [OF k(1) _ e(5), of era] k(3) e(6) by (simp add: r_def day)
  have rd: "day_of_era day - (365 * (10 * k) + 10 * k div 4 - 10 * k div 100) = r"
    unfolding day_def e(9) by (simp only: r_def day march_first_def)
  have "10 * k div 100 \<le> 10 * k div 4" using k(3) by (intro zdiv_mono2) simp_all
  then have "r \<le> day_of_era day" using rd k(3) by linarith
  moreover have "day_of_era day < 146097" unfolding era_position(1) by simp
  ultimately have ru: "r < 146097" by simp
  have "march_first era (10 * k) + 3593 = days_before_year (Y + 10)"
    using decade_end [of "10 * k" era] k e(4,5) by (simp add: Y_def)
  then have case_iff: "r < 3593 \<longleftrightarrow> y < Y + 10" and rest: "day - (r - 3593) = days_before_year (Y + 10)"
    using year_start_le_iff [OF assms(2), of "Y + 10"] by (auto simp: r_def day_def)
  have start: "march_first era (10 * k) = days_before_year Y + 59 + of_bool (leap_year Y)"
    using march_first_civil [of "10 * k" era] k e(5) by (simp add: Y_def civil_day_def days_before_month_table)
  have ly: "leap_year Y \<longleftrightarrow> 10 * k mod 4 = 0 \<and> (10 * k mod 100 \<noteq> 0 \<or> 10 * k = 0)"
    unfolding Y_def by (rule leap_year_yoe) (use k e(5) in simp_all)
  have e2: "year_of_era (day_of_era day) = yoe" using e(2) by (simp only: day_def)
  have ur: "u32 r = r" by (rule wrap_u_id) (use r ru in simp_all)
  have code: "datetrunc_decade t = s64 ((day - (if r < 3593
      then u32 (r + 59 + (if leap_year Y then 1 else 0)) else r - 3593)) * 86400)"
    unfolding datetrunc_decade_def Let_def kSecsPerDay_def e(1) day_def [symmetric] e2 k(4) rd ur ly
      MARJAN_def JANMAR_def by (simp only: disj_commute) simp
  have u: "u32 (r + 59 + (if leap_year Y then 1 else 0)) = r + 59 + of_bool (leap_year Y)"
    by (subst wrap_u_id) (use r ru in simp_all)
  have Yk: "Y = 10 * (200 + 40 * era + k)" by (simp add: Y_def)
  show ?thesis
  proof (cases "y < Y + 10")
    case True
    have "y div 10 = 200 + 40 * era + k" by (rule div_eqI) (use True y Yk in simp_all)
    then have "10 * (y div 10) = Y" by (simp only: Yk)
    moreover have "day - (r + 59 + of_bool (leap_year Y)) = days_before_year Y" using start by (simp add: r_def)
    ultimately show ?thesis unfolding code u using True case_iff by (simp add: civil_day_def mult.commute)
  next
    case False
    have "y div 10 = 200 + 40 * era + k + 1" by (rule div_eqI) (use False y Yk in simp_all)
    then have "10 * (y div 10) = Y + 10" by (simp only: Yk) simp
    then show ?thesis unfolding code using False case_iff rest by (simp add: civil_day_def mult.commute)
  qed
qed

lemma year_group:
  assumes "is_date day y m d" "days_before_year (k * q + 1) \<le> day" "day < days_before_year (k * q + k + 1)"
  shows "(y - 1) div k = q"
proof -
  have "k * q + 1 \<le> y" "y < k * q + k + 1" using year_between [OF assms] .
  then show ?thesis by (intro div_eqI) simp_all
qed

lemma era_year_starts:
  shows "days_before_year (1901 + 400 * e) = 11323 + 146097 * e - 36525"
    "days_before_year (2001 + 400 * e) = 11323 + 146097 * e"
    "days_before_year (2101 + 400 * e) = 11323 + 146097 * e + 36524"
    "days_before_year (2201 + 400 * e) = 11323 + 146097 * e + 73048"
    "days_before_year (2301 + 400 * e) = 11323 + 146097 * e + 109572"
    "days_before_year (2401 + 400 * e) = 11323 + 146097 * e + 146097"
    "days_before_year (1001 + 2000 * e) = 11323 + 730485 * e - 365243"
    "days_before_year (2001 + 2000 * e) = 11323 + 730485 * e"
    "days_before_year (3001 + 2000 * e) = 11323 + 730485 * e + 365242"
    "days_before_year (4001 + 2000 * e) = 11323 + 730485 * e + 730485"
proof -
  note shift = days_before_year_shift [of _ "5 * e", simplified]
  show "days_before_year (1001 + 2000 * e) = 11323 + 730485 * e - 365243"
    "days_before_year (2001 + 2000 * e) = 11323 + 730485 * e"
    "days_before_year (3001 + 2000 * e) = 11323 + 730485 * e + 365242"
    "days_before_year (4001 + 2000 * e) = 11323 + 730485 * e + 730485"
    unfolding shift by (simp_all add: days_before_year_def)
qed (unfold days_before_year_shift, simp_all add: days_before_year_def)

lemma datetrunc_century_eq:
  assumes "time_in_range t" "is_date (t div 86400) y m d"
  shows "datetrunc_century t = s64 (86400 * civil_day (100 * ((y - 1) div 100) + 1) 1 1)"
proof -
  define day era doe where "day = t div 86400" and "era = (day - 11017) div 146097" and "doe = day_of_era day"
  have doe: "doe = (day - 11017) mod 146097" unfolding doe_def by (rule era_position)
  have b: "0 \<le> doe" "doe < 146097" by (simp_all add: doe)
  have "day - 11017 = 146097 * era + doe" by (simp add: era_def doe)
  then have day: "day = 11017 + 146097 * era + doe" by simp
  have date: "is_date day y m d" using assms(2) by (simp add: day_def)
  have code: "datetrunc_century t = s64 ((day - (if doe < 306 then doe + 36219 else (doe - 306) mod 36524)) * 86400)"
    by (simp add: datetrunc_century_def Let_def floor_div_day [OF assms(1)] day_def [symmetric] doe_def [symmetric])
  define c where "c = (if doe < 306 then - 1 else (doe - 306) div 36524)"
  define r where "r = (doe - 306) mod 36524"
  have c: "c = - 1 \<and> doe < 306 \<or> c \<in> {0, 1, 2, 3} \<and> doe - 306 = 36524 * c + r \<and> 306 \<le> doe" and rb: "0 \<le> r" "r < 36524"
  proof -
    have "doe - 306 = 36524 * ((doe - 306) div 36524) + r" unfolding r_def by simp
    moreover show "0 \<le> r" "r < 36524" unfolding r_def by simp_all
    ultimately show "c = - 1 \<and> doe < 306 \<or> c \<in> {0, 1, 2, 3} \<and> doe - 306 = 36524 * c + r \<and> 306 \<le> doe"
      using b unfolding c_def by (cases "doe < 306") auto
  qed
  have "(y - 1) div 100 = 20 + 4 * era + c"
    by (rule year_group [OF date]) (use c rb day b era_year_starts [of era] in \<open>auto simp: algebra_simps\<close>)
  moreover have "days_before_year (100 * (20 + 4 * era + c) + 1) =
      day - (if doe < 306 then doe + 36219 else (doe - 306) mod 36524)"
    unfolding r_def [symmetric] using c day era_year_starts [of era] by (auto simp: algebra_simps)
  ultimately show ?thesis unfolding code by (simp only: civil_day_def) (simp add: mult.commute)
qed

lemma datetrunc_millennium_eq:
  assumes "time_in_range t" "is_date (t div 86400) y m d"
  shows "datetrunc_millennium t = s64 (86400 * civil_day (1000 * ((y - 1) div 1000) + 1) 1 1)"
proof -
  define day e dom where "day = t div 86400" and "e = (day - 11017) div 730485" and "dom = (day - 11017) mod 730485"
  have b: "0 \<le> dom" "dom < 730485" by (simp_all add: dom_def)
  have "day - 11017 = 730485 * e + dom" by (simp add: e_def dom_def)
  then have day: "day = 11017 + 730485 * e + dom" by simp
  have date: "is_date day y m d" using assms(2) by (simp add: day_def)
  have "u32 (unsigned_mod (day - 11017) (5 * 146097)) = dom"
    using b by (simp add: unsigned_mod_eq dom_def [symmetric] wrap_u_id)
  then have code: "datetrunc_millennium t = s64 ((day - (if dom < 306 then dom + 364937
      else if dom < 365548 then dom - 306 else dom - 365548)) * 86400)"
    by (simp add: datetrunc_millennium_def Let_def floor_div_day [OF assms(1)] day_def [symmetric])
  define q where "q = (if dom < 306 then 1 else if dom < 365548 then 2 else 3 :: int)"
  have q: "q = 1 \<and> dom < 306 \<or> q = 2 \<and> 306 \<le> dom \<and> dom < 365548 \<or> q = 3 \<and> 365548 \<le> dom"
    by (auto simp: q_def)
  have "(y - 1) div 1000 = q + 2 * e"
    by (rule year_group [OF date]) (use q day b era_year_starts [of e] in \<open>auto simp: algebra_simps\<close>)
  moreover have "days_before_year (1000 * (q + 2 * e) + 1) = day - (if dom < 306 then dom + 364937
      else if dom < 365548 then dom - 306 else dom - 365548)"
    using q day era_year_starts [of e] by (auto simp: algebra_simps)
  ultimately show ?thesis unfolding code by (simp only: civil_day_def) (simp add: mult.commute)
qed

section \<open>Weeks and clock periods\<close>

lemma datetrunc_week_eq:
  assumes "- 9223372036854775808 \<le> t" "0 \<le> ofs" "t + ofs * 86400 < 9223372036854775808"
  shows "datetrunc_week ofs t = s64 (86400 * (t div 86400 - (t div 86400 + ofs) mod 7))"
proof -
  have "s64 (t + ofs * 86400) = t + ofs * 86400" by (rule wrap_s_id) (use assms in simp_all)
  then have code: "datetrunc_week ofs t = s64 (t - (t + ofs * 86400) mod (86400 * 7))"
    by (simp add: datetrunc_week_def unsigned_mod_eq)
  have md: "(t + ofs * 86400) mod (86400 * 7) = 86400 * ((t div 86400 + ofs) mod 7) + t mod 86400"
  proof -
    have "(t + ofs * 86400) mod (86400 * 7) = 86400 * ((t + ofs * 86400) div 86400 mod 7) + (t + ofs * 86400) mod 86400"
      by (rule zmod_zmult2_eq) simp
    also have "(t + ofs * 86400) div 86400 = ofs + t div 86400" by (rule div_mult_self1) simp
    also have "(t + ofs * 86400) mod 86400 = t mod 86400" by (rule mod_mult_self1)
    finally show ?thesis by (simp only: add.commute)
  qed
  have "t - (86400 * x + t mod 86400) = 86400 * (t div 86400 - x)" for x
    unfolding minus_div_mult_eq_mod [symmetric] by (simp add: algebra_simps)
  then show ?thesis unfolding code md by (simp only:)
qed

section \<open>The start of a period\<close>

text \<open>
  The specification of \<open>DATE_TRUNC\<close>: the first second of the period that contains the time
  \<open>t\<close>, whose day has the year \<open>y\<close> and the month \<open>m\<close>.
\<close>

fun period_start :: "DatetruncField \<Rightarrow> int \<Rightarrow> int \<Rightarrow> int \<Rightarrow> int" where
  "period_start dtYEAR y m t = 86400 * civil_day y 1 1"
| "period_start dtQUARTER y m t = 86400 * civil_day y (3 * ((m - 1) div 3) + 1) 1"
| "period_start dtMONTH y m t = 86400 * civil_day y m 1"
| "period_start dtDAY y m t = t - t mod 86400"
| "period_start dtHOUR y m t = t - t mod 3600"
| "period_start dtMINUTE y m t = t - t mod 60"
| "period_start dtQUARTERDAY y m t = t - t mod 21600"
| "period_start dtMILLENNIUM y m t = 86400 * civil_day (1000 * ((y - 1) div 1000) + 1) 1 1"
| "period_start dtCENTURY y m t = 86400 * civil_day (100 * ((y - 1) div 100) + 1) 1 1"
| "period_start dtDECADE y m t = 86400 * civil_day (10 * (y div 10)) 1 1"
| "period_start dtWEEK y m t = 86400 * (t div 86400 - (t div 86400 + 3) mod 7)"
| "period_start dtWEEK_SUNDAY y m t = 86400 * (t div 86400 - (t div 86400 + 4) mod 7)"
| "period_start dtWEEK_SATURDAY y m t = 86400 * (t div 86400 - (t div 86400 + 5) mod 7)"
| "period_start _ y m t = t"

definition trunc_in_range :: "int \<Rightarrow> bool" where
  "trunc_in_range t \<longleftrightarrow> - 9223372036854689409 \<le> t \<and> t + 432000 < 9223372036854775808"

lemmas datetrunc_eqs = datetrunc_month_eq datetrunc_quarter_eq datetrunc_year_eq datetrunc_decade_eq
  datetrunc_century_eq datetrunc_millennium_eq

lemma DateTruncate_eq:
  assumes "trunc_in_range t" "is_date (t div 86400) y m d" "f \<noteq> dtINVALID"
  shows "DateTruncate f t = Inr (s64 (period_start f y m t))"
proof -
  have t: "time_in_range t" using assms(1) by (simp add: trunc_in_range_def time_in_range_def)
  have id: "s64 t = t" using t by (intro wrap_s_id) (simp_all add: time_in_range_def)
  have w: "datetrunc_week ofs t = s64 (86400 * (t div 86400 - (t div 86400 + ofs) mod 7))"
    if "0 \<le> ofs" "ofs \<le> 5" for ofs
    by (rule datetrunc_week_eq) (use assms(1) that in \<open>simp_all add: trunc_in_range_def\<close>)
  show ?thesis using assms(3)
    by (cases f) (simp_all only: DateTruncate.simps period_start.simps datetrunc_eqs [OF t assms(2)] id
        datetrunc_minute_def datetrunc_hour_def datetrunc_day_def datetrunc_quarterday_def time_constants
        unsigned_mod_eq zero_less_numeral w dtMONDAY_def dtSUNDAY_def dtSATURDAY_def, simp_all add: w)
qed

lemma is_date_first: "1 \<le> m \<Longrightarrow> m \<le> 12 \<Longrightarrow> is_date (civil_day y m 1) y m 1"
  by (auto simp: is_date_def valid_civil_def days_in_month_def)

lemma civil_day_le:
  assumes "is_date day y m d" "y' \<le> y" shows "civil_day y' 1 1 \<le> day"
proof -
  have "\<not> day < days_before_year y'" using year_start_le_iff [OF assms(1), of y'] assms(2) by simp
  then show ?thesis by (simp add: civil_day_def)
qed

lemma period_start_le:
  assumes "is_date (t div 86400) y m d" shows "period_start f y m t \<le> t"
proof -
  have day: "86400 * c \<le> t" if "c \<le> t div 86400" for c
  proof -
    define q where "q = t div 86400"
    have "86400 * q \<le> t" unfolding q_def by simp
    then show ?thesis using that by (simp add: q_def [symmetric])
  qed
  have d1: "civil_day y m 1 \<le> t div 86400"
    using civil_day_first [OF assms] assms by (simp add: is_date_def valid_civil_def)
  have g: "k * ((y - 1) div k) + 1 \<le> y" "k * (y div k) \<le> y" if "0 < k" for k
    using that mult_div_mod_eq [of k "y - 1"] pos_mod_sign [of k "y - 1"] mult_div_mod_eq [of k y] pos_mod_sign [of k y]
    by linarith+
  show ?thesis
    by (cases f) (use day d1 quarter_bounds(3) [OF assms] civil_day_le [OF assms] g in \<open>auto intro!: day\<close>)
qed

lemma week_start_again: "(x - (x + k) mod 7 + k) mod 7 = (0 :: int)"
proof -
  have "x - (x + k) mod 7 + k = (x + k) - (x + k) mod 7" by simp
  also have "\<dots> = 7 * ((x + k) div 7)" by (rule minus_mod_eq_mult_div)
  finally show ?thesis by simp
qed

lemma period_start_again:
  assumes "is_date (t div 86400) y m d" "s = period_start f y m t"
  obtains y' m' d' where "is_date (s div 86400) y' m' d'" "period_start f y' m' s = s"
proof -
  have m: "1 \<le> m" "m \<le> 12" using assms(1) by (simp_all add: is_date_def valid_civil_def)
  have day: "86400 * c div 86400 = c" for c :: int by simp
  have q: "3 * ((m - 1) div 3) + 1 - 1 = (m - 1) div 3 * 3" by simp
  have qm: "1 \<le> 3 * ((m - 1) div 3) + 1" "3 * ((m - 1) div 3) + 1 \<le> 12"
    using quarter_bounds(1,2) [OF assms(1)] by simp_all
  have clock: "(t - t mod k) mod k = 0" for k by (simp add: minus_mod_eq_mult_div)
  have ex: "\<exists>y m d. is_date (s div 86400) y m d"
    using era_date(1) [of "s div 86400"] by blast
  have "\<exists>y' m' d'. is_date (s div 86400) y' m' d' \<and> period_start f y' m' s = s"
  proof (cases f)
    case dtYEAR
    then show ?thesis using is_date_first [of 1 y] assms(2) by (auto simp: day)
  next
    case dtQUARTER
    then show ?thesis using is_date_first [OF qm, of y] assms(2)
      by (intro exI [of _ y] exI [of _ "3 * ((m - 1) div 3) + 1"] exI [of _ 1]) (simp add: day q)
  next
    case dtMONTH
    then show ?thesis using is_date_first [OF m, of y] assms(2) by (auto simp: day)
  next
    case dtMILLENNIUM
    then show ?thesis using is_date_first [of 1 "1000 * ((y - 1) div 1000) + 1"] assms(2)
      by (intro exI [of _ "1000 * ((y - 1) div 1000) + 1"] exI [of _ 1]) (simp add: day)
  next
    case dtCENTURY
    then show ?thesis using is_date_first [of 1 "100 * ((y - 1) div 100) + 1"] assms(2)
      by (intro exI [of _ "100 * ((y - 1) div 100) + 1"] exI [of _ 1]) (simp add: day)
  next
    case dtDECADE
    then show ?thesis using is_date_first [of 1 "10 * (y div 10)"] assms(2)
      by (intro exI [of _ "10 * (y div 10)"] exI [of _ 1]) (simp add: day)
  qed (use ex assms(2) in \<open>simp_all only: period_start.simps day week_start_again clock diff_zero simp_thms\<close>)
  then show thesis using that by blast
qed

text \<open>A period is at most a millennium long.\<close>

lemma days_before_year_diff:
  assumes "a \<le> b" shows "days_before_year b - days_before_year a \<le> 366 * (b - a)"
  using assms
proof (induction b rule: int_ge_induct)
  case (step i)
  then show ?case unfolding days_before_year_step by (simp add: of_bool_def)
qed simp

lemma day_bound_arith: "q - 366 \<le> x \<Longrightarrow> x - 366000 \<le> z \<Longrightarrow> q - 400000 \<le> z" for q :: int
  by simp

lemma period_start_ge:
  assumes "is_date (t div 86400) y m d" shows "t - 40000000000 \<le> period_start f y m t"
proof -
  have day: "t - 40000000000 \<le> 86400 * c" if "t div 86400 - 400000 \<le> c" for c
  proof -
    define q where "q = t div 86400"
    have "t < 86400 * q + 86400" unfolding q_def by simp
    then show ?thesis using that by (simp add: q_def [symmetric])
  qed
  have y: "t div 86400 - 366 \<le> days_before_year y" using year_start_bounds(2) [OF assms] by (simp add: civil_day_def)
  have g: "t div 86400 - 400000 \<le> days_before_year c" if "c \<le> y" "y \<le> c + 1000" for c
  proof -
    have "366 * (y - c) \<le> 366 * 1000" using that(2) by simp
    then have "days_before_year y - 366000 \<le> days_before_year c" using days_before_year_diff [OF that(1)] by simp
    with y show ?thesis by (rule day_bound_arith)
  qed
  have k: "k * ((y - 1) div k) + 1 \<le> y \<and> y \<le> k * ((y - 1) div k) + 1 + k"
    "k * (y div k) \<le> y \<and> y \<le> k * (y div k) + k" if "0 < k" for k
    using that mult_div_mod_eq [of k "y - 1"] pos_mod_sign [of k "y - 1"] mult_div_mod_eq [of k y]
      pos_mod_sign [of k y] pos_mod_bound [of k "y - 1"] pos_mod_bound [of k y] by linarith+
  have m: "t div 86400 - 400000 \<le> civil_day y m 1"
    using civil_day_first [OF assms] assms by (auto simp: is_date_def valid_civil_def days_in_month_def split: if_splits)
  have clock: "t - 40000000000 \<le> t - t mod k" if "0 < k" "k \<le> 86400" for k
    using pos_mod_bound [of k t] that by linarith
  have week: "t div 86400 - 400000 \<le> t div 86400 - (t div 86400 + k) mod 7" for k
    using pos_mod_bound [of 7 "t div 86400 + k"] by simp
  have q: "t div 86400 - 400000 \<le> civil_day y (3 * ((m - 1) div 3) + 1) 1"
    by (rule day_bound_arith [OF quarter_bounds(4) [OF assms]]) simp
  have self: "t - 40000000000 \<le> t" by simp
  have first: "civil_day c 1 1 = days_before_year c" for c by (simp add: civil_day_def)
  show ?thesis
    by (cases f; hypsubst; unfold period_start.simps first; (rule self day g clock week m q)+)
      (use k [of 1000] k [of 100] k [of 10] in simp_all)
qed

definition trunc_safe :: "int \<Rightarrow> bool" where
  "trunc_safe t \<longleftrightarrow> - 9223371900000000000 \<le> t \<and> t + 432000 < 9223372036854775808"

lemma DateTruncate_safe:
  assumes "trunc_safe t" "is_date (t div 86400) y m d" "f \<noteq> dtINVALID"
  shows "DateTruncate f t = Inr (period_start f y m t)"
proof -
  have "s64 (period_start f y m t) = period_start f y m t"
    using period_start_ge [OF assms(2), of f] period_start_le [OF assms(2), of f] assms(1)
    by (intro wrap_s_id) (simp_all add: trunc_safe_def)
  moreover have "trunc_in_range t" using assms(1) by (simp add: trunc_safe_def trunc_in_range_def)
  ultimately show ?thesis using DateTruncate_eq [OF _ assms(2,3)] by simp
qed

section \<open>Properties\<close>

text \<open>
  C3: \<open>DateTruncate\<close> returns, for every field but \<open>dtINVALID\<close>, the first second of the period of
  that kind (millennium, century, decade, year, quarter, month, week from Monday, Sunday or
  Saturday, day, quarter of a day, hour, minute) that contains the time, on the fast path and
  on the era path, and the time itself for the sub-minute fields.
\<close>

theorem DateTruncate_period_start:
  assumes "trunc_safe t" "is_date (t div 86400) y m d" "f \<noteq> dtINVALID"
  shows "DateTruncate f t = Inr (period_start f y m t) \<and> period_start f y m t \<le> t"
  using DateTruncate_safe [OF assms] period_start_le [OF assms(2)] by simp

theorem DateTruncate_period_start_witness:
  "DateTruncate dtQUARTER (- 1) = Inr (86400 * civil_day 1969 10 1) \<and> DateTruncate dtDECADE 1668000000 = Inr 1577836800"
proof -
  have d: "is_date (- 1 div 86400) 1969 12 31" "is_date (1668000000 div 86400) 2022 11 9" by code_simp+
  have "trunc_safe (- 1)" "trunc_safe 1668000000" by (simp_all add: trunc_safe_def)
  then show ?thesis
    using DateTruncate_period_start [OF _ d(1), of dtQUARTER] DateTruncate_period_start [OF _ d(2), of dtDECADE]
    by (simp add: civil_day_def days_before_year_def days_before_month_table)
qed

text \<open>
  C33: truncation to a field is idempotent: the result is itself the start of its period and
  truncating it again changes nothing; only \<open>dtINVALID\<close> is an error.
\<close>

theorem DateTruncate_idempotent:
  assumes "trunc_safe t"
  shows "if f = dtINVALID then DateTruncate f t = Inl CiderUnsupportedException
    else \<exists>s \<le> t. DateTruncate f t = Inr s \<and> DateTruncate f s = Inr s"
proof (cases "f = dtINVALID")
  case False
  obtain y m d where date: "is_date (t div 86400) y m d" using era_date(1) [of "t div 86400"] by blast
  define s where "s = period_start f y m t"
  have le: "s \<le> t" "t - 40000000000 \<le> s"
    using period_start_le [OF date] period_start_ge [OF date] by (simp_all add: s_def)
  obtain y' m' d' where again: "is_date (s div 86400) y' m' d'" "period_start f y' m' s = s"
    using period_start_again [OF date s_def] .
  have "trunc_in_range s" and id: "s64 s = s"
    using le assms by (auto simp: trunc_safe_def trunc_in_range_def intro!: wrap_s_id)
  then have "DateTruncate f s = Inr s" using DateTruncate_eq [OF _ again(1) False] again(2) by simp
  moreover have "DateTruncate f t = Inr s" using DateTruncate_safe [OF assms date False] by (simp add: s_def)
  ultimately show ?thesis using le False by auto
qed simp

theorem DateTruncate_idempotent_witness:
  "trunc_safe 951868799 \<and> (\<exists>s \<le> 951868799. DateTruncate dtCENTURY 951868799 = Inr s \<and> DateTruncate dtCENTURY s = Inr s)"
  using DateTruncate_idempotent [of 951868799 dtCENTURY] by (simp add: trunc_safe_def)

end
