(* ===== verification/Date_Diff.thy ===== *)
theory Date_Diff
  imports Truncate_Correct
begin

text \<open>
  The \<open>DATEDIFF\<close> part of \<open>function/datetime/DateTruncate.cpp\<close>: \<open>EraTime\<close>, its field-wise
  difference, \<open>sign\<close> and \<open>count\<close>, and \<open>DateDiff\<close> with its high-precision and nullable variants.
  The correctness lemmas say that the calendar fields count the whole months between the two
  times, and the larger units those months divided by their length.
\<close>

section \<open>EraTime\<close>

record EraTime =
  et_era :: int
  et_yoe :: int
  et_moy :: int
  et_dom :: int
  et_sod :: int

definition EraTime_make :: "int \<Rightarrow> EraTime" where
  "EraTime_make time =
     (let day = floor_div time kSecsPerDay;
          era = floor_div (day - kEpochAdjustedDays) kDaysPer400Years;
          sod = s32 (time - day * kSecsPerDay);
          doe = s32 (day - kEpochAdjustedDays - era * kDaysPer400Years);
          yoe = (doe - doe sdiv 1460 + doe sdiv 36524 - doe sdiv 146096) sdiv 365;
          doy = doe - (365 * yoe + yoe sdiv 4 - yoe sdiv 100);
          moy = (5 * doy + 2) sdiv 153;
          dom = doy - (153 * moy + 2) sdiv 5
      in \<lparr>et_era = era, et_yoe = yoe, et_moy = moy, et_dom = dom, et_sod = sod\<rparr>)"

definition EraTime_uminus :: "EraTime \<Rightarrow> EraTime" where
  "EraTime_uminus t = \<lparr>et_era = - et_era t, et_yoe = - et_yoe t, et_moy = - et_moy t,
     et_dom = - et_dom t, et_sod = - et_sod t\<rparr>"

definition EraTime_minus :: "EraTime \<Rightarrow> EraTime \<Rightarrow> EraTime" where
  "EraTime_minus t rhs = \<lparr>et_era = et_era t - et_era rhs, et_yoe = et_yoe t - et_yoe rhs,
     et_moy = et_moy t - et_moy rhs, et_dom = et_dom t - et_dom rhs, et_sod = et_sod t - et_sod rhs\<rparr>"

datatype EraField = ERA | YOE | MOY | DOM | SOD

text \<open>A case of \<open>sign\<close> that finds a zero falls through to the next one.\<close>

definition EraTime_sign :: "EraTime \<Rightarrow> EraField \<Rightarrow> int" where
  "EraTime_sign t field =
     (let sod = (if et_sod t \<noteq> 0 then if et_sod t < 0 then -1 else 1 else 0);
          dom = (if et_dom t \<noteq> 0 then if et_dom t < 0 then -1 else 1 else sod);
          moy = (if et_moy t \<noteq> 0 then if et_moy t < 0 then -1 else 1 else dom);
          yoe = (if et_yoe t \<noteq> 0 then if et_yoe t < 0 then -1 else 1 else moy);
          era = (if et_era t \<noteq> 0 then if et_era t < 0 then -1 else 1 else yoe)
      in case field of ERA \<Rightarrow> era | YOE \<Rightarrow> yoe | MOY \<Rightarrow> moy | DOM \<Rightarrow> dom | SOD \<Rightarrow> sod)"

definition EraTime_count :: "EraTime \<Rightarrow> DatetruncField \<Rightarrow> int result" where
  "EraTime_count t field =
     (let sgn = EraTime_sign t ERA;
          ut = (if sgn = -1 then EraTime_uminus t else t);
          years = 400 * et_era ut + et_yoe ut
      in case field of
           dtMONTH \<Rightarrow> Inr (sgn * (12 * years + et_moy ut - of_bool (EraTime_sign ut DOM = -1)))
         | dtQUARTER \<Rightarrow>
             (let quarters = et_moy ut sdiv 3; rem = et_moy ut smod 3
              in Inr (sgn * (4 * years + quarters
                       - of_bool (rem < 0 \<or> (rem = 0 \<and> EraTime_sign ut DOM = -1)))))
         | dtYEAR \<Rightarrow> Inr (sgn * (years - of_bool (EraTime_sign ut MOY = -1)))
         | dtDECADE \<Rightarrow>
             (let decades = u64 (years sdiv 10); rem = u32 (years smod 10)
              in Inr (s64 (sgn * u64 (decades - of_bool (rem = 0 \<and> EraTime_sign ut MOY = -1)))))
         | dtCENTURY \<Rightarrow>
             (let centuries = u64 (years sdiv 100); rem = u32 (years smod 100)
              in Inr (s64 (sgn * u64 (centuries - of_bool (rem = 0 \<and> EraTime_sign ut MOY = -1)))))
         | dtMILLENNIUM \<Rightarrow>
             (let millennia = u64 (years sdiv 1000); rem = u32 (years smod 1000)
              in Inr (s64 (sgn * u64 (millennia - of_bool (rem = 0 \<and> EraTime_sign ut MOY = -1)))))
         | _ \<Rightarrow> Inl CiderUnsupportedException)"

section \<open>DateDiff\<close>

definition DateDiff :: "DatetruncField \<Rightarrow> int \<Rightarrow> int \<Rightarrow> int result" where
  "DateDiff datepart startdate enddate =
     (let diff = s64 (enddate - startdate)
      in case datepart of
           dtNANOSECOND \<Rightarrow> Inr (s64 (diff * kNanoSecsPerSec))
         | dtMICROSECOND \<Rightarrow> Inr (s64 (diff * kMicroSecsPerSec))
         | dtMILLISECOND \<Rightarrow> Inr (s64 (diff * kMilliSecsPerSec))
         | dtSECOND \<Rightarrow> Inr diff
         | dtMINUTE \<Rightarrow> Inr (diff sdiv kSecsPerMin)
         | dtHOUR \<Rightarrow> Inr (diff sdiv kSecsPerHour)
         | dtQUARTERDAY \<Rightarrow> Inr (diff sdiv (kSecsPerDay div 4))
         | dtDAY \<Rightarrow> Inr (diff sdiv kSecsPerDay)
         | dtWEEK \<Rightarrow> Inr (diff sdiv (7 * kSecsPerDay))
         | dtWEEK_SUNDAY \<Rightarrow> Inr (diff sdiv (7 * kSecsPerDay))
         | dtWEEK_SATURDAY \<Rightarrow> Inr (diff sdiv (7 * kSecsPerDay))
         | _ \<Rightarrow> EraTime_count (EraTime_minus (EraTime_make enddate) (EraTime_make startdate)) datepart)"

text \<open>The table \<open>pow10\<close>, which is only valid (and only read) at 0, 3, 6 and 9.\<close>

definition pow10 :: "int \<Rightarrow> int" where
  "pow10 i = [1, 0, 0, 1000, 0, 0, 1000 * 1000, 0, 0, 1000 * 1000 * 1000] ! nat i"

definition DateDiffHighPrecision :: "DatetruncField \<Rightarrow> int \<Rightarrow> int \<Rightarrow> int \<Rightarrow> int \<Rightarrow> int result" where
  "DateDiffHighPrecision datepart startdate enddate start_dim end_dim =
     (if datepart \<in> {dtNANOSECOND, dtMICROSECOND, dtMILLISECOND} then
        let target_dim = (if datepart = dtMILLISECOND then 3 else if datepart = dtMICROSECOND then 6 else 9);
            delta_dim = end_dim - start_dim;
            adj_dim = target_dim - (if delta_dim < 0 then start_dim else end_dim);
            numerator = (if delta_dim < 0 then s64 (s64 (enddate * pow10 (- delta_dim)) - startdate)
                         else s64 (enddate - s64 (startdate * pow10 delta_dim)))
        in Inr (if adj_dim < 0 then numerator sdiv pow10 (- adj_dim) else s64 (numerator * pow10 adj_dim))
      else
        let end_seconds = floor_div enddate (pow10 end_dim);
            delta_ns = s32 ((enddate - end_seconds * pow10 end_dim) * pow10 (9 - end_dim));
            start_seconds = floor_div startdate (pow10 start_dim);
            delta_ns = s32 (delta_ns - (startdate - start_seconds * pow10 start_dim) * pow10 (9 - start_dim));
            delta_s = s64 (end_seconds - start_seconds);
            adj_sec = (if 0 < delta_s \<and> delta_ns < 0 then - 1 else if delta_s < 0 \<and> 0 < delta_ns then 1 else 0)
        in DateDiff datepart start_seconds (end_seconds + adj_sec))"

definition DateDiffNullable :: "DatetruncField \<Rightarrow> int \<Rightarrow> int \<Rightarrow> int \<Rightarrow> int result" where
  "DateDiffNullable datepart startdate enddate null_val =
     (if startdate = null_val \<or> enddate = null_val then Inr null_val
      else DateDiff datepart startdate enddate)"

definition DateDiffHighPrecisionNullable ::
  "DatetruncField \<Rightarrow> int \<Rightarrow> int \<Rightarrow> int \<Rightarrow> int \<Rightarrow> int \<Rightarrow> int result" where
  "DateDiffHighPrecisionNullable datepart startdate enddate start_dim end_dim null_val =
     (if startdate = null_val \<or> enddate = null_val then Inr null_val
      else DateDiffHighPrecision datepart startdate enddate start_dim end_dim)"

section \<open>Differences of months\<close>

text \<open>The months of a difference, and the bounds of the difference of two times.\<close>

definition et_months :: "EraTime \<Rightarrow> int" where
  "et_months t = 12 * (400 * et_era t + et_yoe t) + et_moy t"

definition et_bounded :: "EraTime \<Rightarrow> bool" where
  "et_bounded t \<longleftrightarrow> \<bar>et_era t\<bar> \<le> 1600000000 \<and> \<bar>et_yoe t\<bar> < 400 \<and> \<bar>et_moy t\<bar> < 12"

lemma sign_uminus: "EraTime_sign (EraTime_uminus t) f = - EraTime_sign t f"
  by (cases f) (auto simp: EraTime_sign_def EraTime_uminus_def Let_def)

lemma sign_cases: "EraTime_sign t f = -1 \<or> EraTime_sign t f = 0 \<or> EraTime_sign t f = 1"
  by (cases f) (auto simp: EraTime_sign_def Let_def)

lemma sign_months:
  assumes "et_bounded t"
  shows "EraTime_sign t ERA = (if et_months t < 0 then -1 else if 0 < et_months t then 1 else EraTime_sign t DOM)"
  using assms by (auto simp: EraTime_sign_def Let_def et_bounded_def et_months_def abs_less_iff)

lemma sign_moy: "EraTime_sign t MOY = (if et_moy t < 0 then -1 else if 0 < et_moy t then 1 else EraTime_sign t DOM)"
  by (auto simp: EraTime_sign_def Let_def)

lemma et_uminus: "et_bounded t \<Longrightarrow> et_bounded (EraTime_uminus t)" "et_months (EraTime_uminus t) = - et_months t"
  by (simp_all add: et_bounded_def EraTime_uminus_def et_months_def)

text \<open>The whole months of an unsigned difference.\<close>

definition whole_months :: "EraTime \<Rightarrow> int" where
  "whole_months u = et_months u - of_bool (EraTime_sign u DOM = -1)"

definition et_unsigned :: "EraTime \<Rightarrow> EraTime" where
  "et_unsigned t = (if EraTime_sign t ERA = -1 then EraTime_uminus t else t)"

lemma et_unsigned:
  assumes "et_bounded t"
  shows "et_bounded (et_unsigned t)" "0 \<le> whole_months (et_unsigned t)" "0 \<le> et_months (et_unsigned t)"
proof -
  define u where "u = et_unsigned t"
  show b: "et_bounded (et_unsigned t)" using assms by (simp add: et_unsigned_def et_uminus)
  have "EraTime_sign u ERA \<noteq> -1"
    using sign_cases [of t ERA] sign_uminus [of t ERA] by (auto simp: u_def et_unsigned_def)
  then have "0 < et_months u \<or> et_months u = 0 \<and> EraTime_sign u DOM \<noteq> -1"
    using sign_months [OF b [folded u_def]] by (auto split: if_splits)
  then show "0 \<le> whole_months (et_unsigned t)" "0 \<le> et_months (et_unsigned t)"
    unfolding u_def [symmetric] by (auto simp: whole_months_def)
qed

lemma quarter_arith:
  "\<forall>neg. \<forall>moy \<in> set [-11..11]. moy sdiv 3 - of_bool (moy smod 3 < 0 \<or> moy smod 3 = 0 \<and> neg)
     = (moy - of_bool neg) div (3 :: int)"
  by code_simp

lemma year_count:
  assumes "et_bounded u"
  shows "400 * et_era u + et_yoe u - of_bool (EraTime_sign u MOY = -1) = whole_months u div 12"
proof -
  define Y where "Y = 400 * et_era u + et_yoe u"
  define x where "x = et_moy u - of_bool (EraTime_sign u DOM = -1)"
  have "whole_months u = x + Y * 12" by (simp add: whole_months_def et_months_def x_def Y_def)
  then have "whole_months u div 12 = Y + x div 12" using div_mult_self1 [of 12 x Y] by simp
  moreover have "x div 12 = - of_bool (EraTime_sign u MOY = -1)"
    by (rule div_eqI) (use assms in \<open>auto simp: x_def sign_moy et_bounded_def\<close>)
  ultimately show ?thesis by (simp add: Y_def)
qed

lemma quarter_count:
  assumes "et_bounded u"
  shows "4 * (400 * et_era u + et_yoe u) + et_moy u sdiv 3
    - of_bool (et_moy u smod 3 < 0 \<or> et_moy u smod 3 = 0 \<and> EraTime_sign u DOM = -1) = whole_months u div 3"
proof -
  define Y where "Y = 400 * et_era u + et_yoe u"
  define x where "x = et_moy u - of_bool (EraTime_sign u DOM = -1)"
  have "whole_months u = x + (4 * Y) * 3" by (simp add: whole_months_def et_months_def x_def Y_def)
  then have "whole_months u div 3 = 4 * Y + x div 3" using div_mult_self1 [of 3 x "4 * Y"] by simp
  moreover have "et_moy u \<in> set [-11..11]"
    unfolding set_upto atLeastAtMost_iff using assms by (auto simp: et_bounded_def)
  then have "x div 3 = et_moy u sdiv 3
      - of_bool (et_moy u smod 3 < 0 \<or> et_moy u smod 3 = 0 \<and> EraTime_sign u DOM = -1)"
    unfolding x_def by (rule bspec [OF spec [OF quarter_arith], symmetric])
  ultimately show ?thesis by (simp add: Y_def)
qed

lemma long_count:
  assumes "0 \<le> Y" "Y \<le> 700000000000" "1 < k" "k \<le> 1000" "of_bool b \<le> Y" "sg \<in> {-1, 0, 1}"
  shows "s64 (sg * u64 (u64 (Y sdiv k) - of_bool (u32 (Y smod k) = 0 \<and> b))) = sg * ((Y - of_bool b) div k)"
proof -
  define q where "q = (Y - of_bool b) div k"
  have "Y div k \<le> Y div 1" using assms by (intro zdiv_mono2) simp_all
  then have d: "0 \<le> Y div k" "Y div k \<le> 700000000000" using assms by (simp_all add: pos_imp_zdiv_nonneg_iff)
  have "0 \<le> Y mod k" "Y mod k < k" using assms(3) by simp_all
  then have m: "u32 (Y mod k) = Y mod k" using assms(4) by (intro wrap_u_id) simp_all
  have u: "u64 (Y div k) = Y div k" using d by (intro wrap_u_id) simp_all
  have q: "Y div k - of_bool (Y mod k = 0 \<and> b) = q"
    using div_Suc_int [of k Y] assms(3) by (cases b) (simp_all add: q_def)
  have "0 \<le> q" using assms by (simp add: q_def pos_imp_zdiv_nonneg_iff)
  moreover have "q \<le> Y div k" using q by (cases "Y mod k = 0 \<and> b") auto
  ultimately have "u64 q = q" "s64 (sg * q) = sg * q"
    using d assms(6) by (auto intro!: wrap_u_id wrap_s_id)
  then show ?thesis using assms(1,3) by (simp add: sdiv_nonneg smod_nonneg m u q q_def [symmetric])
qed

text \<open>The units of \<open>count\<close> in months.\<close>

fun unit_months :: "DatetruncField \<Rightarrow> int" where
  "unit_months dtMONTH = 1" | "unit_months dtQUARTER = 3" | "unit_months dtYEAR = 12"
| "unit_months dtDECADE = 120" | "unit_months dtCENTURY = 1200" | "unit_months dtMILLENNIUM = 12000"
| "unit_months _ = 0"

lemma count_units:
  assumes "et_bounded t" "0 < unit_months f"
  shows "EraTime_count t f = Inr (EraTime_sign t ERA * (whole_months (et_unsigned t) div unit_months f))"
proof -
  define u where "u = et_unsigned t"
  define sg where "sg = EraTime_sign t ERA"
  define Y where "Y = 400 * et_era u + et_yoe u"
  define b where "b \<longleftrightarrow> EraTime_sign u MOY = -1"
  define N where "N = whole_months u"
  note un = et_unsigned [OF assms(1), folded u_def]
  have u: "(if sg = -1 then EraTime_uminus t else t) = u" by (simp add: sg_def u_def et_unsigned_def)
  have sg: "sg \<in> {-1, 0, 1}" using sign_cases [of t ERA] by (auto simp: sg_def)
  have yc: "Y - of_bool b = N div 12" unfolding Y_def b_def N_def by (rule year_count [OF un(1)])
  have "0 \<le> N div 12" using un(2) by (simp add: N_def pos_imp_zdiv_nonneg_iff)
  then have Y: "of_bool b \<le> Y" "0 \<le> Y" using yc by (cases b; simp)+
  have Y2: "Y \<le> 700000000000" using un(1) by (auto simp: Y_def et_bounded_def)
  have long: "s64 (sg * u64 (u64 (Y sdiv k) - of_bool (u32 (Y smod k) = 0 \<and> b))) = sg * (N div (12 * k))"
    if "1 < k" "k \<le> 1000" for k
    using long_count [OF Y(2) Y2 that Y(1) sg] that unfolding yc by (simp add: zdiv_zmult2_eq)
  have month: "12 * Y + et_moy u - of_bool (EraTime_sign u DOM = -1) = N"
    by (simp add: N_def whole_months_def et_months_def Y_def)
  have code: "EraTime_count t f = (case f of
           dtMONTH \<Rightarrow> Inr (sg * (12 * Y + et_moy u - of_bool (EraTime_sign u DOM = -1)))
         | dtQUARTER \<Rightarrow> Inr (sg * (4 * Y + et_moy u sdiv 3
                       - of_bool (et_moy u smod 3 < 0 \<or> et_moy u smod 3 = 0 \<and> EraTime_sign u DOM = -1)))
         | dtYEAR \<Rightarrow> Inr (sg * (Y - of_bool b))
         | dtDECADE \<Rightarrow> Inr (s64 (sg * u64 (u64 (Y sdiv 10) - of_bool (u32 (Y smod 10) = 0 \<and> b))))
         | dtCENTURY \<Rightarrow> Inr (s64 (sg * u64 (u64 (Y sdiv 100) - of_bool (u32 (Y smod 100) = 0 \<and> b))))
         | dtMILLENNIUM \<Rightarrow> Inr (s64 (sg * u64 (u64 (Y sdiv 1000) - of_bool (u32 (Y smod 1000) = 0 \<and> b))))
         | _ \<Rightarrow> Inl CiderUnsupportedException)"
    unfolding EraTime_count_def Let_def sg_def [symmetric] u Y_def b_def ..
  show ?thesis unfolding code sg_def [symmetric] u_def [symmetric] N_def [symmetric] month yc
    using assms(2) quarter_count [OF un(1), folded Y_def N_def] long [of 10] long [of 100] long [of 1000]
    by (cases f) simp_all
qed

section \<open>EraTime of a date\<close>

lemma year_of_era_signed:
  assumes "0 \<le> doe" "doe < 146097"
  shows "(doe - doe sdiv 1460 + doe sdiv 36524 - doe sdiv 146096) sdiv 365 = year_of_era doe"
proof -
  define a b where "a = doe div 1460" and "b = doe div 36524"
  have c: "doe div 146096 = (if doe = 146096 then 1 else 0)" by (rule div_eqI) (use assms in auto)
  have "1460 * a \<le> doe" "0 \<le> a" "0 \<le> b" "b \<le> 4" unfolding a_def b_def
    using assms zdiv_mono1 [of doe 146096 36524] by (simp_all add: pos_imp_zdiv_nonneg_iff)
  define x where "x = doe - a + b - (if doe = 146096 then 1 else 0)"
  have x: "0 \<le> x" "x < 4294967296"
    unfolding x_def using assms \<open>1460 * a \<le> doe\<close> \<open>0 \<le> a\<close> \<open>0 \<le> b\<close> \<open>b \<le> 4\<close> by auto
  have "doe - doe sdiv 1460 + doe sdiv 36524 - doe sdiv 146096 = x"
    using assms(1) by (simp add: sdiv_nonneg c x_def a_def b_def)
  then show ?thesis
    unfolding year_of_era_def a_def [symmetric] b_def [symmetric] x_def [symmetric] wrap_u_id [OF x]
    by (simp only: sdiv_nonneg [OF x(1)] zero_less_numeral)
qed

lemma EraTime_make_date:
  assumes "time_in_range t" "is_date (t div 86400) y m d"
  shows "et_months (EraTime_make t) = 12 * y + m - 24003" "et_dom (EraTime_make t) = d - 1"
    "et_sod (EraTime_make t) = t mod 86400" "\<bar>et_era (EraTime_make t)\<bar> \<le> 800000000"
    "0 \<le> et_yoe (EraTime_make t)" "et_yoe (EraTime_make t) < 400"
    "0 \<le> et_moy (EraTime_make t)" "et_moy (EraTime_make t) < 12"
proof -
  obtain era yoe doy moy where e: "floor_div t 86400 = t div 86400"
    "year_of_era (day_of_era (t div 86400)) = yoe"
    "day_of_march_year (day_of_era (t div 86400)) yoe = doy" "month_of_march_year doy = moy"
    "is_date (t div 86400) (2000 + era * 400 + yoe + (if moy < 10 then 0 else 1))
       (if moy < 10 then moy + 3 else moy - 9) (doy - (153 * moy + 2) div 5 + 1)"
    "0 \<le> moy" "moy < 12" "0 \<le> yoe" "yoe < 400" "0 \<le> doy" "doy \<le> 365"
    "era = (t div 86400 - 11017) div 146097"
    "day_of_era (t div 86400) = 365 * yoe + yoe div 4 - yoe div 100 + doy"
    by (rule era_path [OF assms(1)])
  define day doe where "day = t div 86400" and "doe = day_of_era day"
  have doe: "doe = (day - 11017) mod 146097" unfolding doe_def by (rule era_position)
  have db: "0 \<le> doe" "doe < 146097" by (simp_all add: doe)
  have "day \<le> 106751991167300" "- 106751991167300 \<le> day" unfolding day_def
    using assms(1) zdiv_mono1 [of t 9223372036854775807 86400] zdiv_mono1 [of "-9223372036854689409" t 86400]
    by (simp_all add: time_in_range_def)
  then have db': "day - 11017 \<le> 106751991167300" "- 106751991178317 \<le> day - 11017" by simp_all
  have er: "floor_div (day - 11017) 146097 = era"
    unfolding e(12) day_def [symmetric] by (rule floor_div_eq) (use db' in simp_all)
  have "era \<le> 106751991167300 div 146097" "(- 106751991178317) div 146097 \<le> era"
    unfolding e(12) day_def [symmetric] using db' by (simp_all only: zdiv_mono1 zero_less_numeral)
  then have eb: "\<bar>era\<bar> \<le> 800000000" by simp
  have "day - 11017 - era * 146097 = doe"
    unfolding e(12) day_def [symmetric] doe by (rule minus_div_mult_eq_mod)
  then have d32: "s32 (day - 11017 - era * 146097) = doe" using db by (simp add: wrap_s_id)
  have "0 \<le> t mod 86400" "t mod 86400 < 86400" by simp_all
  then have s32: "s32 (t - day * 86400) = t mod 86400"
    unfolding day_def minus_div_mult_eq_mod by (intro wrap_s_id) simp_all
  have yy: "(doe - doe sdiv 1460 + doe sdiv 36524 - doe sdiv 146096) sdiv 365 = yoe"
    unfolding year_of_era_signed [OF db] using e(2) by (simp add: doe_def day_def)
  have sd: "yoe sdiv k = yoe div k" "(5 * doy + 2) sdiv k = (5 * doy + 2) div k" "(153 * moy + 2) sdiv k = (153 * moy + 2) div k"
    if "0 < k" for k by (rule sdiv_nonneg [OF _ that]; use e(6,8,10) in simp)+
  have dd: "doe - (365 * yoe + yoe sdiv 4 - yoe sdiv 100) = doy"
    unfolding doe_def day_def e(13) sd [OF zero_less_numeral] by (simp only: add_diff_cancel_left')
  have mm: "(5 * doy + 2) sdiv 153 = moy" using e(4) by (simp add: sd month_of_march_year_def)
  define f where "f = (153 * moy + 2) div 5"
  have mk: "EraTime_make t = \<lparr>et_era = era, et_yoe = yoe, et_moy = moy, et_dom = doy - f, et_sod = t mod 86400\<rparr>"
    unfolding f_def EraTime_make_def Let_def kSecsPerDay_def kEpochAdjustedDays_def kDaysPer400Years_def e(1)
      day_def [symmetric] er s32 d32 yy dd mm by (simp only: sd zero_less_numeral)
  show "et_months (EraTime_make t) = 12 * y + m - 24003" "et_dom (EraTime_make t) = d - 1"
    using is_date_unique [OF e(5) [folded f_def] assms(2)] by (auto simp: mk et_months_def split: if_splits)
  show "et_sod (EraTime_make t) = t mod 86400" "\<bar>et_era (EraTime_make t)\<bar> \<le> 800000000"
    "0 \<le> et_yoe (EraTime_make t)" "et_yoe (EraTime_make t) < 400"
    "0 \<le> et_moy (EraTime_make t)" "et_moy (EraTime_make t) < 12"
    unfolding mk using e(6-9) eb by simp_all
qed

section \<open>Whole months between two times\<close>

definition earlier_in_month :: "int \<Rightarrow> int \<Rightarrow> int \<Rightarrow> int \<Rightarrow> bool" where
  "earlier_in_month d s d' s' \<longleftrightarrow> d < d' \<or> d = d' \<and> s < s'"

text \<open>
  The specification: from the month \<open>M\<close> (counted from any origin), day \<open>d\<close> and second \<open>s\<close> to the
  later \<open>M'\<close>, \<open>d'\<close>, \<open>s'\<close>, the last month counts only when it is complete; the difference to an
  earlier time is the negated difference back.
\<close>

definition months_from :: "int \<Rightarrow> int \<Rightarrow> int \<Rightarrow> int \<Rightarrow> int \<Rightarrow> int \<Rightarrow> int" where
  "months_from M d s M' d' s' = M' - M - of_bool (earlier_in_month d' s' d s)"

definition months_between :: "int \<Rightarrow> int \<Rightarrow> int \<Rightarrow> int \<Rightarrow> int \<Rightarrow> int \<Rightarrow> int" where
  "months_between M d s M' d' s' =
     (if M < M' \<or> M = M' \<and> \<not> earlier_in_month d' s' d s then months_from M d s M' d' s'
      else - months_from M' d' s' M d s)"

lemma sdiv_sign: "0 \<le> n \<Longrightarrow> 0 < k \<Longrightarrow> (- n) sdiv k = - (n div k)" for n k :: int
  using sdiv_neg [of "- n" k] by (cases "n = 0") simp_all

lemma DateDiff_calendar:
  assumes "time_in_range a" "time_in_range b" "is_date (a div 86400) y m d" "is_date (b div 86400) y' m' d'"
    "0 < unit_months f"
  shows "DateDiff f a b = Inr (months_between (12 * y + m) d (a mod 86400) (12 * y' + m') d' (b mod 86400) sdiv unit_months f)"
proof -
  note A = EraTime_make_date [OF assms(1,3)] and B = EraTime_make_date [OF assms(2,4)]
  define D where "D = EraTime_minus (EraTime_make b) (EraTime_make a)"
  define M where "M = 12 * y' + m' - (12 * y + m)"
  have bd: "et_bounded D" using A(4-8) B(4-8) by (auto simp: et_bounded_def D_def EraTime_minus_def)
  have mo: "et_months D = M" using A(1) B(1) by (simp add: D_def et_months_def EraTime_minus_def M_def)
  define sa sb where "sa = a mod 86400" and "sb = b mod 86400"
  define e e' where "e \<longleftrightarrow> earlier_in_month d' sb d sa" and "e' \<longleftrightarrow> earlier_in_month d sa d' sb"
  have dom: "et_dom D = d' - d" "et_sod D = sb - sa"
    using A(2,3) B(2,3) by (simp_all add: D_def EraTime_minus_def sa_def sb_def)
  have sd: "EraTime_sign D DOM = (if e then -1 else if e' then 1 else 0)" "\<not> (e \<and> e')"
    by (auto simp: EraTime_sign_def Let_def dom e_def e'_def earlier_in_month_def)
  have code: "DateDiff f a b = EraTime_count D f"
    using assms(5) by (cases f) (simp_all add: DateDiff_def Let_def D_def)
  have sign: "EraTime_sign D ERA = (if M < 0 then -1 else if 0 < M then 1 else if e then -1 else if e' then 1 else 0)"
    using sign_months [OF bd] sd(1) by (simp add: mo)
  have wm: "whole_months (et_unsigned D) = (if M < 0 \<or> M = 0 \<and> e then - M - of_bool e' else M - of_bool e)"
    using sign sd by (auto simp: et_unsigned_def whole_months_def et_uminus mo sign_uminus)
  have nn: "0 \<le> whole_months (et_unsigned D)" by (rule et_unsigned [OF bd])
  have mb: "months_between (12 * y + m) d sa (12 * y' + m') d' sb =
      (if M < 0 \<or> M = 0 \<and> e then - (- M - of_bool e') else M - of_bool e)"
    by (auto simp: months_between_def months_from_def M_def e_def [symmetric] e'_def [symmetric])
  have "EraTime_sign D ERA * (whole_months (et_unsigned D) div unit_months f) =
      (if M < 0 \<or> M = 0 \<and> e then - (- M - of_bool e') else M - of_bool e) sdiv unit_months f"
  proof (cases "M < 0 \<or> M = 0 \<and> e")
    case True
    have "0 \<le> - M - of_bool e'" using nn True by (simp only: wm if_True)
    from sdiv_sign [OF this assms(5)] True show ?thesis unfolding wm sign by (simp only: if_True) auto
  next
    case False
    have "0 \<le> M - of_bool e" using nn False by (simp only: wm if_False)
    from sdiv_nonneg [OF this assms(5)] False sd(2) show ?thesis unfolding wm sign by (simp only: if_False) auto
  qed
  then show ?thesis unfolding code sa_def [symmetric] sb_def [symmetric] mb count_units [OF bd assms(5)]
    by (simp only:)
qed

lemma months_between_swap: "months_between M' d' s' M d s = - months_between M d s M' d' s'"
  by (auto simp: months_between_def months_from_def earlier_in_month_def)

section \<open>Sub-second times\<close>

fun clock_unit :: "DatetruncField \<Rightarrow> int" where
  "clock_unit dtSECOND = 1" | "clock_unit dtMINUTE = 60" | "clock_unit dtHOUR = 3600"
| "clock_unit dtQUARTERDAY = 21600" | "clock_unit dtDAY = 86400" | "clock_unit dtWEEK = 604800"
| "clock_unit dtWEEK_SUNDAY = 604800" | "clock_unit dtWEEK_SATURDAY = 604800" | "clock_unit _ = 0"

lemma DateDiff_clock:
  assumes "0 < clock_unit f" "- 9223372036854775808 \<le> b - a" "b - a < 9223372036854775808"
  shows "DateDiff f a b = Inr ((b - a) sdiv clock_unit f)"
proof -
  have "s64 (b - a) = b - a" by (rule wrap_s_id) (use assms in simp_all)
  then show ?thesis using assms(1) by (cases f) (simp_all add: DateDiff_def)
qed

lemma sdiv_sdiv: "0 < k \<Longrightarrow> 0 < l \<Longrightarrow> x sdiv (k * l) = (x sdiv k) sdiv l" for x :: int
proof -
  assume k: "0 < k" "0 < l"
  have pos: "y sdiv (k * l) = (y sdiv k) sdiv l" if "0 \<le> y" for y
    using k that by (simp add: sdiv_nonneg pos_imp_zdiv_nonneg_iff zdiv_zmult2_eq)
  show ?thesis
  proof (cases "x < 0")
    case True
    have "- ((- x) sdiv (k * l)) = - (((- x) sdiv k) sdiv l)" using pos [of "- x"] True by simp
    then show ?thesis by (simp add: minus_sdiv_eq)
  next
    case False
    then show ?thesis using pos by simp
  qed
qed

lemma sdiv_carry:
  fixes n k s :: int
  assumes "\<bar>n\<bar> < k" "0 < k"
  shows "(k * s + n) sdiv k = s + (if 0 < s \<and> n < 0 then - 1 else if s < 0 \<and> 0 < n then 1 else 0)"
proof -
  have neg: "k * s \<le> - k" if "s < 0" using mult_left_mono [of s "- 1" k] that assms(2) by simp
  have pos: "k \<le> k * s" if "0 < s" using mult_left_mono [of 1 s k] that assms(2) by simp
  show ?thesis
  proof (cases "0 \<le> k * s + n")
    case True
    then have "(k * s + n) sdiv k = (n + s * k) div k" using assms(2) by (simp add: sdiv_nonneg mult.commute add.commute)
    also have "\<dots> = s + n div k" using assms(2) by (intro div_mult_self1) simp
    also have "n div k = (if n < 0 then - 1 else 0)" by (rule div_eqI) (use assms in auto)
    finally show ?thesis using True assms neg by (cases "s = 0"; cases "s < 0") auto
  next
    case False
    then have "(k * s + n) sdiv k = - ((- n + (- s) * k) div k)" using assms(2) sdiv_neg [of "k * s + n" k]
      by (simp add: algebra_simps)
    also have "(- n + (- s) * k) div k = - s + (- n) div k" using assms(2) by (intro div_mult_self1) simp
    also have "(- n) div k = (if 0 < n then - 1 else 0)" by (rule div_eqI) (use assms in auto)
    finally have "(k * s + n) sdiv k = - (- s + (if 0 < n then - 1 else 0))" .
    moreover have "\<not> 0 < s"
    proof
      assume "0 < s"
      from pos [OF this] show False using False assms(1) by linarith
    qed
    ultimately show ?thesis using False by (cases "s = 0") auto
  qed
qed

lemma pow10_split:
  assumes "dim \<in> {0, 3, 6, 9}" "\<bar>x\<bar> \<le> 4611686018427387903"
  defines "sec \<equiv> floor_div x (pow10 dim)"
  defines "ns \<equiv> (x - sec * pow10 dim) * pow10 (9 - dim)"
  shows "x * pow10 (9 - dim) = 1000000000 * sec + ns" "0 \<le> ns" "ns < 1000000000" "\<bar>sec\<bar> \<le> 4611686018427387903"
proof -
  define p where "p = pow10 dim"
  define q where "q = pow10 (9 - dim)"
  have pq: "p * q = 1000000000" "0 < p" "0 < q" "p \<le> 1000000000"
    using assms(1) by (auto simp: p_def q_def pow10_def numeral_nat)
  have sec: "sec = x div p"
    unfolding sec_def p_def [symmetric] by (rule floor_div_eq) (use pq assms(2) in auto)
  have r: "x - sec * p = x mod p" unfolding sec by (rule minus_div_mult_eq_mod)
  have rb: "0 \<le> x mod p" "x mod p \<le> p - 1" using pq(2) pos_mod_bound [of p x] by simp_all
  show "x * pow10 (9 - dim) = 1000000000 * sec + ns"
    unfolding ns_def p_def [symmetric] q_def [symmetric] pq(1) [symmetric] by (simp add: algebra_simps)
  show "0 \<le> ns" unfolding ns_def p_def [symmetric] q_def [symmetric] r using rb pq by simp
  have "x mod p * q \<le> (p - 1) * q" using rb(2) pq(3) by (intro mult_right_mono) simp_all
  also have "\<dots> < 1000000000" using pq by (simp add: algebra_simps)
  finally show "ns < 1000000000" unfolding ns_def p_def [symmetric] q_def [symmetric] r .
  have "x div p \<le> 4611686018427387903 div 1"
    using zdiv_mono1 [of x 4611686018427387903 p] zdiv_mono2 [of 4611686018427387903 1 p] assms(2) pq(2)
    by (simp add: abs_le_iff)
  moreover have "- 4611686018427387903 \<le> x div p"
    using zdiv_mono1 [of "- 4611686018427387903" x p] zdiv_mono2_neg [of "- 4611686018427387903" 1 p] assms(2) pq(2)
    by (simp add: abs_le_iff)
  ultimately show "\<bar>sec\<bar> \<le> 4611686018427387903" by (simp add: sec abs_le_iff)
qed

lemma DateDiffHighPrecision_seconds:
  assumes "start_dim \<in> {0, 3, 6, 9}" "end_dim \<in> {0, 3, 6, 9}" "\<bar>a\<bar> \<le> 4611686018427387903"
    "\<bar>b\<bar> \<le> 4611686018427387903" "f \<notin> {dtNANOSECOND, dtMICROSECOND, dtMILLISECOND}"
  defines "sec \<equiv> (b * pow10 (9 - end_dim) - a * pow10 (9 - start_dim)) sdiv 1000000000"
  defines "s \<equiv> floor_div a (pow10 start_dim)"
  shows "DateDiffHighPrecision f a b start_dim end_dim = DateDiff f s (s + sec)"
    "- 9223372036854775808 \<le> sec" "sec < 9223372036854775808"
proof -
  define e where "e = floor_div b (pow10 end_dim)"
  define ns ne where "ns = (a - s * pow10 start_dim) * pow10 (9 - start_dim)"
    and "ne = (b - e * pow10 end_dim) * pow10 (9 - end_dim)"
  note A = pow10_split [OF assms(1,3), folded s_def, folded ns_def]
  note B = pow10_split [OF assms(2,4), folded e_def, folded ne_def]
  have w: "s32 ne = ne" "s32 (ne - ns) = ne - ns" using A B by (auto intro!: wrap_s_id)
  have w2: "s64 (e - s) = e - s" using A(4) B(4) by (intro wrap_s_id) linarith+
  define adj where "adj = (if 0 < e - s \<and> ne - ns < 0 then - 1 else if e - s < 0 \<and> 0 < ne - ns then 1 else 0 :: int)"
  have "b * pow10 (9 - end_dim) - a * pow10 (9 - start_dim) = 1000000000 * (e - s) + (ne - ns)"
    using A(1) B(1) by simp
  then have sec: "sec = e - s + adj"
    unfolding sec_def adj_def by (simp only:) (rule sdiv_carry, use A(2,3) B(2,3) in auto)
  show "DateDiffHighPrecision f a b start_dim end_dim = DateDiff f s (s + sec)"
    using assms(5) unfolding DateDiffHighPrecision_def Let_def s_def [symmetric] e_def [symmetric]
      ns_def [symmetric] ne_def [symmetric] w w2 adj_def [symmetric] sec by (simp add: add.commute)
  have adj: "- 1 \<le> adj" "adj \<le> 1" by (simp_all add: adj_def)
  show "- 9223372036854775808 \<le> sec" "sec < 9223372036854775808"
    unfolding sec using A(4) B(4) adj by simp_all
qed

section \<open>Properties\<close>

text \<open>
  C14: \<open>DateDiff\<close> for months, quarters, years, decades, centuries and millennia counts whole
  units: the complete months between the two times (the last one only when the day of the
  month and the second of the day have been reached), divided by the months of the unit and
  truncated towards zero; swapping the two times negates the count.
\<close>

theorem DateDiff_whole_units:
  assumes "time_in_range a" "time_in_range b" "is_date (a div 86400) y m d" "is_date (b div 86400) y' m' d'"
    "0 < unit_months f"
  defines "n \<equiv> months_between (12 * y + m) d (a mod 86400) (12 * y' + m') d' (b mod 86400)"
  shows "DateDiff f a b = Inr (n sdiv unit_months f) \<and> DateDiff f b a = Inr (- (n sdiv unit_months f))"
  using DateDiff_calendar [OF assms(1-5)] DateDiff_calendar [OF assms(2,1,4,3,5)]
  unfolding n_def [symmetric] months_between_swap [of _ _ _ "12 * y + m"] by (simp add: n_def minus_sdiv_eq)

theorem DateDiff_whole_units_witness:
  "DateDiff dtMONTH 950572800 953078399 = Inr 0 \<and> DateDiff dtMONTH 953078400 950572800 = Inr (- 1)"
proof -
  have t: "time_in_range 950572800" "time_in_range 953078399" "time_in_range 953078400" "0 < unit_months dtMONTH"
    by (simp_all add: time_in_range_def)
  have d: "is_date (950572800 div 86400) 2000 2 15" "is_date (953078399 div 86400) 2000 3 14"
    "is_date (953078400 div 86400) 2000 3 15" by code_simp+
  show ?thesis
    using DateDiff_whole_units [OF t(1,2) d(1,2) t(4)] DateDiff_whole_units [OF t(1,3) d(1,3) t(4)]
    by (simp add: months_between_def months_from_def earlier_in_month_def)
qed

text \<open>
  C21: for seconds and larger clock units \<open>DateDiffHighPrecision\<close> returns the exact
  difference of the two sub-second times, whatever their precisions, in whole units truncated
  towards zero.
\<close>

theorem DateDiffHighPrecision_exact:
  assumes "start_dim \<in> {0, 3, 6, 9}" "end_dim \<in> {0, 3, 6, 9}" "\<bar>a\<bar> \<le> 4611686018427387903"
    "\<bar>b\<bar> \<le> 4611686018427387903" "0 < clock_unit f"
  shows "DateDiffHighPrecision f a b start_dim end_dim =
    Inr ((b * pow10 (9 - end_dim) - a * pow10 (9 - start_dim)) sdiv (1000000000 * clock_unit f))"
proof -
  have f: "f \<notin> {dtNANOSECOND, dtMICROSECOND, dtMILLISECOND}" using assms(5) by auto
  note h = DateDiffHighPrecision_seconds [OF assms(1-4) f]
  have "x sdiv (1000000000 * clock_unit f) = x sdiv 1000000000 sdiv clock_unit f" for x
    by (rule sdiv_sdiv) (use assms(5) in simp_all)
  then show ?thesis unfolding h(1) using DateDiff_clock [OF assms(5)] h(2,3) by simp
qed

theorem DateDiffHighPrecision_exact_witness:
  "DateDiffHighPrecision dtSECOND 1006 1000001005999 3 6 = Inr 999999"
  using DateDiffHighPrecision_exact [of 3 6 1006 1000001005999 dtSECOND]
  by (simp add: pow10_def sdiv_nonneg)

end
