(* ===== verification/Date_Add.thy ===== *)
theory Date_Add
  imports Date_Diff
begin

text \<open>
  \<open>function/datetime/DateAdd.h\<close> and \<open>DateAdd.cpp\<close>: \<open>MonthDaySecond\<close> and the \<open>DATEADD\<close>
  functions.  Adding months is shown to be calendar arithmetic with the day of the month
  clamped to the length of the target month.
\<close>

datatype DateaddField =
    daYEAR | daQUARTER | daMONTH | daDAY | daHOUR | daMINUTE | daSECOND | daMILLENNIUM | daCENTURY
  | daDECADE | daMILLISECOND | daMICROSECOND | daNANOSECOND | daWEEK | daQUARTERDAY | daWEEKDAY
  | daDAYOFYEAR | daINVALID

section \<open>MonthDaySecond\<close>

record MonthDaySecond =
  md_months :: int
  md_dom :: int
  md_sod :: int

definition clampDom :: "int \<Rightarrow> int \<Rightarrow> int \<Rightarrow> int" where
  "clampDom yoe moy dm =
     (if dm < 28 then dm
      else let max_day =
             (if moy = 11
              then let yoe = yoe + 1
                   in 27 + of_bool (yoe mod 4 = 0 \<and> (yoe mod 100 \<noteq> 0 \<or> yoe = 400))
              else [30, 29, 30, 29, 30, 30, 29, 30, 29, 30, 30] ! nat moy)
           in if dm < max_day then dm else max_day)"

definition MonthDaySecond_make :: "int \<Rightarrow> MonthDaySecond" where
  "MonthDaySecond_make timeval =
     (let day = floor_div timeval kSecsPerDay;
          era = floor_div (day - kEpochAdjustedDays) kDaysPer400Years;
          sod = u32 (timeval - day * kSecsPerDay);
          doe = u32 (day - kEpochAdjustedDays - era * kDaysPer400Years);
          yoe = u32 (doe - doe div 1460 + doe div 36524 - doe div 146096) div 365;
          doy = u32 (doe - (365 * yoe + yoe div 4 - yoe div 100));
          moy = (5 * doy + 2) div 153;
          dom = u32 (doy - (153 * moy + 2) div 5)
      in \<lparr>md_months = (era * 400 + yoe) * 12 + moy, md_dom = dom, md_sod = sod\<rparr>)"

definition addMonths :: "int \<Rightarrow> MonthDaySecond \<Rightarrow> MonthDaySecond" where
  "addMonths n mds = mds\<lparr>md_months := s64 (md_months mds + n)\<rparr>"

definition unixtime :: "MonthDaySecond \<Rightarrow> int" where
  "unixtime mds =
     (let era = floor_div (md_months mds) (12 * 400);
          moe = u32 (md_months mds - era * (12 * 400));
          yoe = moe div 12;
          moy = moe mod 12;
          doy = (153 * moy + 2) div 5 + clampDom yoe moy (md_dom mds);
          doe = yoe * 365 + yoe div 4 - yoe div 100 + doy
      in s64 ((kEpochAdjustedDays + era * kDaysPer400Years + doe) * kSecsPerDay + md_sod mds))"

section \<open>DateAdd\<close>

fun DateAdd :: "DateaddField \<Rightarrow> int \<Rightarrow> int \<Rightarrow> int result" where
  "DateAdd daSECOND number timeval = Inr (s64 (timeval + number))"
| "DateAdd daMINUTE number timeval = Inr (s64 (timeval + s64 (number * kSecsPerMin)))"
| "DateAdd daHOUR number timeval = Inr (s64 (timeval + s64 (number * kSecsPerHour)))"
| "DateAdd daWEEKDAY number timeval = Inr (s64 (timeval + s64 (number * kSecsPerDay)))"
| "DateAdd daDAYOFYEAR number timeval = Inr (s64 (timeval + s64 (number * kSecsPerDay)))"
| "DateAdd daDAY number timeval = Inr (s64 (timeval + s64 (number * kSecsPerDay)))"
| "DateAdd daWEEK number timeval = Inr (s64 (timeval + s64 (number * (7 * kSecsPerDay))))"
| "DateAdd daMONTH number timeval = Inr (unixtime (addMonths number (MonthDaySecond_make timeval)))"
| "DateAdd daQUARTER number timeval = Inr (unixtime (addMonths (s64 (number * 3)) (MonthDaySecond_make timeval)))"
| "DateAdd daYEAR number timeval = Inr (unixtime (addMonths (s64 (number * 12)) (MonthDaySecond_make timeval)))"
| "DateAdd daDECADE number timeval = Inr (unixtime (addMonths (s64 (number * 120)) (MonthDaySecond_make timeval)))"
| "DateAdd daCENTURY number timeval = Inr (unixtime (addMonths (s64 (number * 1200)) (MonthDaySecond_make timeval)))"
| "DateAdd daMILLENNIUM number timeval = Inr (unixtime (addMonths (s64 (number * 12000)) (MonthDaySecond_make timeval)))"
| "DateAdd daMILLISECOND number timeval = Inl CiderUnsupportedException"
| "DateAdd daMICROSECOND number timeval = Inl CiderUnsupportedException"
| "DateAdd daNANOSECOND number timeval = Inl CiderUnsupportedException"
| "DateAdd daQUARTERDAY number timeval = Inl CiderUnsupportedException"
| "DateAdd daINVALID number timeval = Inl CiderUnsupportedException"

definition DateAddHighPrecision :: "DateaddField \<Rightarrow> int \<Rightarrow> int \<Rightarrow> int \<Rightarrow> int result" where
  "DateAddHighPrecision field number timeval dim =
     (if field \<in> {daNANOSECOND, daMICROSECOND, daMILLISECOND} then
        let field_dim = (if field = daMILLISECOND then 3 else if field = daMICROSECOND then 6 else 9);
            adj_dim = dim - field_dim
        in if adj_dim < 0 then Inr (s64 (timeval + floor_div number (pow10 (- adj_dim))))
           else Inr (s64 (timeval + s64 (number * pow10 adj_dim)))
      else
        let scale = pow10 dim
        in case DateAdd field number (floor_div timeval scale) of
             Inl e \<Rightarrow> Inl e
           | Inr t \<Rightarrow> Inr (s64 (s64 (t * scale) + unsigned_mod timeval scale)))"

definition DateAddNullable :: "DateaddField \<Rightarrow> int \<Rightarrow> int \<Rightarrow> int \<Rightarrow> int result" where
  "DateAddNullable field number timeval null_val =
     (if timeval = null_val then Inr null_val else DateAdd field number timeval)"

definition DateAddHighPrecisionNullable :: "DateaddField \<Rightarrow> int \<Rightarrow> int \<Rightarrow> int \<Rightarrow> int \<Rightarrow> int result" where
  "DateAddHighPrecisionNullable field number timeval dim null_val =
     (if timeval = null_val then Inr null_val else DateAddHighPrecision field number timeval dim)"

section \<open>Clamping\<close>

text \<open>The days of the months counted from March of a year of the era.\<close>

lemma march_month_days:
  assumes "0 \<le> moy" "moy < 12" "0 \<le> yoe" "yoe < 400"
  shows "days_in_month (2000 + 400 * era + yoe + (if moy < 10 then 0 else 1)) (if moy < 10 then moy + 3 else moy - 9) - 1
    = (if moy = 11 then 27 + of_bool ((yoe + 1) mod 4 = 0 \<and> ((yoe + 1) mod 100 \<noteq> 0 \<or> yoe + 1 = 400))
       else [30, 29, 30, 29, 30, 30, 29, 30, 29, 30, 30] ! nat moy)"
proof (cases "moy = 11")
  case True
  have "leap_year (2000 + 400 * era + (yoe + 1)) \<longleftrightarrow> leap_year (yoe + 1)" by (rule leap_year_era)
  also have "\<dots> \<longleftrightarrow> (yoe + 1) mod 4 = 0 \<and> ((yoe + 1) mod 100 \<noteq> 0 \<or> yoe + 1 = 400)"
  proof -
    have "(yoe + 1) mod 400 = 0 \<longleftrightarrow> yoe + 1 = 400" using assms(3,4) by (cases "yoe = 399") auto
    then show ?thesis by (simp only: leap_year_def)
  qed
  finally show ?thesis using True by (simp add: days_in_month_def add.assoc)
next
  case False
  show ?thesis by (rule int_cases_12 [OF assms(1,2)]) (use False in \<open>simp_all add: days_in_month_def\<close>)
qed

lemma clampDom_min:
  assumes "0 \<le> moy" "moy < 12" "0 \<le> yoe" "yoe < 400"
  shows "clampDom yoe moy dm = min dm
    (days_in_month (2000 + 400 * era + yoe + (if moy < 10 then 0 else 1)) (if moy < 10 then moy + 3 else moy - 9) - 1)"
proof -
  define k where "k = days_in_month (2000 + 400 * era + yoe + (if moy < 10 then 0 else 1)) (if moy < 10 then moy + 3 else moy - 9) - 1"
  have "27 \<le> k" by (auto simp: k_def days_in_month_def)
  then show ?thesis
    unfolding clampDom_def Let_def march_month_days [OF assms, of era, folded k_def, symmetric] k_def [symmetric]
    by auto
qed

section \<open>Months of a date\<close>

lemma year_of_era_quot:
  assumes "0 \<le> doe" "doe < 146097"
  shows "u32 (doe - doe div 1460 + doe div 36524 - doe div 146096) div 365 = year_of_era doe"
proof -
  have "doe div 146096 = (if doe = 146096 then 1 else 0)" by (rule div_eqI) (use assms in auto)
  then show ?thesis by (simp only: year_of_era_def)
qed

lemma MonthDaySecond_make_date:
  assumes "time_in_range t" "is_date (t div 86400) y m d"
  shows "MonthDaySecond_make t = \<lparr>md_months = 12 * y + m - 24003, md_dom = d - 1, md_sod = t mod 86400\<rparr>"
proof -
  obtain era yoe doy moy where e: "floor_div t 86400 = t div 86400"
    "year_of_era (day_of_era (t div 86400)) = yoe"
    "day_of_march_year (day_of_era (t div 86400)) yoe = doy" "month_of_march_year doy = moy"
    "is_date (t div 86400) (2000 + era * 400 + yoe + (if moy < 10 then 0 else 1))
       (if moy < 10 then moy + 3 else moy - 9) (doy - (153 * moy + 2) div 5 + 1)"
    "0 \<le> moy" "moy < 12" "0 \<le> yoe" "yoe < 400" "0 \<le> doy" "doy \<le> 365"
    "era = (t div 86400 - 11017) div 146097"
    by (rule era_path [OF assms(1)])
  define day doe where "day = t div 86400" and "doe = day_of_era day"
  have doe: "doe = (day - 11017) mod 146097" unfolding doe_def by (rule era_position)
  have db: "0 \<le> doe" "doe < 146097" by (simp_all add: doe)
  have "day \<le> 106751991167300" "- 106751991167300 \<le> day" unfolding day_def
    using assms(1) zdiv_mono1 [of t 9223372036854775807 86400] zdiv_mono1 [of "-9223372036854689409" t 86400]
    by (simp_all add: time_in_range_def)
  then have er: "floor_div (day - 11017) 146097 = era"
    unfolding e(12) day_def [symmetric] by (intro floor_div_eq) simp_all
  have "day - 11017 - era * 146097 = doe"
    unfolding e(12) day_def [symmetric] doe by (rule minus_div_mult_eq_mod)
  then have d32: "u32 (day - 11017 - era * 146097) = doe" using db by (simp add: wrap_u_id)
  have "0 \<le> t mod 86400" "t mod 86400 < 86400" by simp_all
  then have s32: "u32 (t - day * 86400) = t mod 86400"
    unfolding day_def minus_div_mult_eq_mod by (intro wrap_u_id) simp_all
  have yy: "u32 (doe - doe div 1460 + doe div 36524 - doe div 146096) div 365 = yoe"
    unfolding year_of_era_quot [OF db] using e(2) by (simp only: doe_def day_def)
  have dd: "u32 (doe - (365 * yoe + yoe div 4 - yoe div 100)) = doy"
    using e(3) by (simp only: doe_def day_def day_of_march_year_def)
  have mm: "(5 * doy + 2) div 153 = moy" using e(4) by (simp only: month_of_march_year_def)
  define f where "f = (153 * moy + 2) div 5"
  have date: "2000 + era * 400 + yoe + (if moy < 10 then 0 else 1) = y" "(if moy < 10 then moy + 3 else moy - 9) = m" "doy - f + 1 = d"
    using is_date_unique [OF e(5) [folded f_def] assms(2)] by simp_all
  have "1 \<le> d" "d \<le> 31" using assms(2) by (auto simp: is_date_def valid_civil_def days_in_month_def split: if_splits)
  then have dom: "u32 (doy - f) = d - 1" using date(3) by (simp add: wrap_u_id)
  have mo: "(era * 400 + yoe) * 12 + moy = 12 * y + m - 24003" using date(1,2) by (auto split: if_splits)
  show ?thesis
    unfolding MonthDaySecond_make_def Let_def kSecsPerDay_def kEpochAdjustedDays_def kDaysPer400Years_def e(1)
      day_def [symmetric] er s32 d32 yy dd mm f_def [symmetric] dom mo ..
qed

lemma unixtime_date:
  assumes "\<bar>M\<bar> \<le> 9000000000000000000"
  defines "y \<equiv> (M + 24002) div 12" and "m \<equiv> (M + 24002) mod 12 + 1"
  shows "unixtime \<lparr>md_months = M, md_dom = d - 1, md_sod = s\<rparr>
    = s64 (86400 * civil_day y m (min d (days_in_month y m)) + s)"
proof -
  define era moe where "era = M div 4800" and "moe = M mod 4800"
  define yoe moy where "yoe = moe div 12" and "moy = moe mod 12"
  have M: "M = 4800 * era + moe" "0 \<le> moe" "moe < 4800" by (simp_all add: era_def moe_def)
  have moe: "moe = 12 * yoe + moy" "0 \<le> moy" "moy < 12" by (simp_all add: yoe_def moy_def)
  then have yoe: "0 \<le> yoe" "yoe < 400" using M by linarith+
  define Y where "Y = 2000 + 400 * era + yoe"
  have "M + 24002 = 12 * Y + (moy + 2)" using M moe by (simp add: Y_def)
  then have y: "y = Y + (if moy < 10 then 0 else 1)"
    unfolding y_def by (intro div_eqI) (use moe in auto)
  have "m = M + 24002 - 12 * y + 1" unfolding m_def y_def by (simp add: minus_mult_div_eq_mod)
  then have m: "m = (if moy < 10 then moy + 3 else moy - 9)"
    using y M moe by (simp add: Y_def split: if_splits)
  have fd: "floor_div M (12 * 400) = era"
    using floor_div_eq [of 4800 M] assms(1) by (auto simp: era_def abs_le_iff)
  have "M - era * 4800 = moe" using M by simp
  then have md: "u32 (M - era * (12 * 400)) = moe" using M by (simp add: wrap_u_id)
  have cl: "clampDom yoe moy (d - 1) = min d (days_in_month y m) - 1"
    unfolding clampDom_min [OF moe(2,3) yoe, of _ era] y m Y_def by simp
  have start: "civil_day y m 1 = march_first era yoe + (153 * moy + 2) div 5"
    unfolding march_first_civil [OF yoe] Y_def [symmetric] m
    using march_month_start [OF moe(2,3), of Y] by (simp add: y split: if_splits)
  define x where "x = min d (days_in_month y m)"
  have "civil_day y m x = civil_day y m 1 + (x - 1)" by (simp add: civil_day_def)
  also have "\<dots> = 11017 + era * 146097 + (yoe * 365 + yoe div 4 - yoe div 100 + ((153 * moy + 2) div 5 + (x - 1)))"
    unfolding start march_first_def by (simp only: algebra_simps)
  finally have cd: "11017 + era * 146097 + (yoe * 365 + yoe div 4 - yoe div 100 + ((153 * moy + 2) div 5 + (x - 1)))
    = civil_day y m x" ..
  show ?thesis unfolding unixtime_def Let_def MonthDaySecond.select_convs fd md yoe_def [symmetric] moy_def [symmetric]
      kEpochAdjustedDays_def kDaysPer400Years_def kSecsPerDay_def cl x_def [symmetric] cd
    by (simp only: mult.commute)
qed

section \<open>Adding months\<close>

fun add_unit :: "DateaddField \<Rightarrow> int" where
  "add_unit daMONTH = 1" | "add_unit daQUARTER = 3" | "add_unit daYEAR = 12" | "add_unit daDECADE = 120"
| "add_unit daCENTURY = 1200" | "add_unit daMILLENNIUM = 12000" | "add_unit _ = 0"

lemma date_months_bound:
  assumes "time_in_range t" "is_date (t div 86400) y m d" shows "\<bar>12 * y + m - 24003\<bar> \<le> 4000000000000"
proof -
  note e = EraTime_make_date [OF assms]
  have "\<bar>et_months (EraTime_make t)\<bar> \<le> 4000000000000" using e(4-8) by (simp add: et_months_def abs_le_iff)
  then show ?thesis by (simp only: e(1))
qed

lemma DateAdd_month_units:
  assumes "time_in_range t" "is_date (t div 86400) y m d" "0 < add_unit f" "\<bar>n\<bar> \<le> 281474976710656"
  defines "M \<equiv> 12 * y + (m - 1) + n * add_unit f"
  shows "DateAdd f n t = Inr (s64 (86400 * civil_day (M div 12) (M mod 12 + 1)
    (min d (days_in_month (M div 12) (M mod 12 + 1))) + t mod 86400))"
proof -
  define N where "N = 12 * y + m - 24003 + n * add_unit f"
  have u: "add_unit f \<le> 12000" by (cases f) simp_all
  have "\<bar>n * add_unit f\<bar> \<le> 281474976710656 * 12000"
    unfolding abs_mult using assms(3,4) u by (intro mult_mono) simp_all
  then have nb: "\<bar>n * add_unit f\<bar> \<le> 3377699720527872000" by simp
  have Nb: "\<bar>N\<bar> \<le> 9000000000000000000"
    using nb date_months_bound [OF assms(1,2)] unfolding N_def by linarith
  have s1: "s64 (n * add_unit f) = n * add_unit f" using nb by (intro wrap_s_id) simp_all
  have s2: "s64 N = N" using Nb by (intro wrap_s_id) simp_all
  have "DateAdd f n t = Inr (unixtime (addMonths (n * add_unit f) (MonthDaySecond_make t)))"
    using assms(3) s1 by (cases f) simp_all
  also have "addMonths (n * add_unit f) (MonthDaySecond_make t) =
      \<lparr>md_months = N, md_dom = d - 1, md_sod = t mod 86400\<rparr>"
    unfolding MonthDaySecond_make_date [OF assms(1,2)] addMonths_def using s2 by (simp add: N_def)
  also have "unixtime \<dots> = s64 (86400 * civil_day ((N + 24002) div 12) ((N + 24002) mod 12 + 1)
      (min d (days_in_month ((N + 24002) div 12) ((N + 24002) mod 12 + 1))) + t mod 86400)"
    by (rule unixtime_date [OF Nb])
  also have "N + 24002 = M" by (simp add: N_def M_def)
  finally show ?thesis .
qed

lemma days_in_month_ge: "28 \<le> days_in_month y m"
  by (simp add: days_in_month_def)

text \<open>The date of the result when the day of the month exists in every month.\<close>

lemma DateAdd_date:
  assumes "t' = 86400 * c + t mod 86400" "c = civil_day (M div 12) (M mod 12 + 1) d" "1 \<le> d" "d \<le> 28"
  shows "is_date (t' div 86400) (M div 12) (M mod 12 + 1) d" "t' mod 86400 = t mod 86400"
proof -
  define s where "s = t mod 86400"
  have s: "0 \<le> s" "s < 86400" by (simp_all add: s_def)
  have t': "t' = 86400 * c + s" using assms(1) by (simp add: s_def)
  have "t' div 86400 = c" by (rule div_eqI) (use s t' in simp_all)
  moreover have "t' mod 86400 = s" using mod_eqI [of 86400 c t'] s t' by simp
  moreover have "0 \<le> M mod 12" "M mod 12 < 12" by simp_all
  then have "is_date c (M div 12) (M mod 12 + 1) d"
    using assms(2-4) days_in_month_ge [of "M div 12" "M mod 12 + 1"] by (auto simp: is_date_def valid_civil_def)
  ultimately show "is_date (t' div 86400) (M div 12) (M mod 12 + 1) d" "t' mod 86400 = t mod 86400"
    by (simp_all add: s_def)
qed

lemma civil_day_diff:
  assumes "valid_civil y m d" "valid_civil y' m' d'" "\<bar>y' - y\<bar> \<le> k"
  shows "\<bar>civil_day y' m' d' - civil_day y m d\<bar> \<le> 366 * (k + 2)"
proof -
  have a: "\<bar>days_before_year y' - days_before_year y\<bar> \<le> 366 * k"
    using days_before_year_diff [of y y'] days_before_year_diff [of y' y]
      days_before_year_mono [of y y'] days_before_year_mono [of y' y]
      days_before_year_step [of y] days_before_year_step [of y'] assms(3) mult_left_mono [of "y' - y" k 366]
      mult_left_mono [of "y - y'" k 366]
    by (cases "y < y'"; cases "y' < y") (auto simp: of_bool_def split: if_splits)
  have b: "0 \<le> civil_day y m d - days_before_year y" "civil_day y m d - days_before_year y \<le> 366"
    "0 \<le> civil_day y' m' d' - days_before_year y'" "civil_day y' m' d' - days_before_year y' \<le> 366"
    using civil_day_in_year [OF assms(1)] civil_day_in_year [OF assms(2)]
    by (auto simp: days_before_year_step of_bool_def split: if_splits)
  show ?thesis using a b by (simp add: abs_le_iff)
qed

lemma DateAdd_safe:
  assumes "\<bar>t\<bar> \<le> 9000000000000000000" "is_date (t div 86400) y m d" "\<bar>n\<bar> \<le> 1000000000" "d \<le> 28"
  defines "M \<equiv> 12 * y + (m - 1) + n"
  defines "c \<equiv> civil_day (M div 12) (M mod 12 + 1) d"
  shows "DateAdd daMONTH n t = Inr (86400 * c + t mod 86400)" "time_in_range (86400 * c + t mod 86400)"
proof -
  have t: "time_in_range t" using assms(1) by (simp add: time_in_range_def abs_le_iff)
  define s q where "s = t mod 86400" and "q = t div 86400"
  have s: "0 \<le> s" "s < 86400" "t = 86400 * q + s" by (simp_all add: s_def q_def)
  define y' m' where "y' = M div 12" and "m' = M mod 12"
  have M: "M = 12 * y' + m'" "0 \<le> m'" "m' < 12" by (simp_all add: y'_def m'_def)
  have v: "valid_civil y m d" "civil_day y m d = q" using assms(2) by (simp_all add: is_date_def q_def)
  have v': "valid_civil y' (m' + 1) d"
    using v(1) M assms(4) days_in_month_ge [of y' "m' + 1"] by (simp add: valid_civil_def)
  have "\<bar>y' - y\<bar> \<le> 100000000" using M v(1) assms(3) by (simp add: M_def valid_civil_def abs_le_iff)
  from civil_day_diff [OF v(1) v' this] have "\<bar>c - q\<bar> \<le> 36600000732"
    by (simp add: c_def y'_def m'_def v(2))
  then have r: "\<bar>86400 * c + s\<bar> \<le> 9100000000000000000" using s assms(1) by (simp add: abs_le_iff)
  then show "time_in_range (86400 * c + t mod 86400)" by (simp add: time_in_range_def s_def abs_le_iff)
  have "s64 (86400 * c + s) = 86400 * c + s" using r by (intro wrap_s_id) simp_all
  moreover have "min d (days_in_month (M div 12) (M mod 12 + 1)) = d"
    using assms(4) days_in_month_ge [of "M div 12" "M mod 12 + 1"] by simp
  ultimately show "DateAdd daMONTH n t = Inr (86400 * c + t mod 86400)"
    using DateAdd_month_units [OF t assms(2), of daMONTH n] assms(3) by (simp add: M_def c_def s_def)
qed

section \<open>Properties\<close>

text \<open>
  C4: adding months, quarters, years, decades, centuries or millennia moves the date by that
  many months of the calendar, clamps the day to the last day of the target month and keeps
  the time of day.
\<close>

theorem DateAdd_calendar:
  assumes "time_in_range t" "is_date (t div 86400) y m d" "0 < add_unit f" "\<bar>n\<bar> \<le> 281474976710656"
  defines "M \<equiv> 12 * y + (m - 1) + n * add_unit f"
  defines "y' \<equiv> M div 12" and "m' \<equiv> M mod 12 + 1"
  shows "DateAdd f n t = Inr (s64 (86400 * civil_day y' m' (min d (days_in_month y' m')) + t mod 86400))"
  unfolding y'_def m'_def M_def by (rule DateAdd_month_units [OF assms(1-4)])

theorem DateAdd_calendar_witness: "DateAdd daMONTH 1 949276800 = Inr (86400 * civil_day 2000 2 29)"
proof -
  have "time_in_range 949276800" "is_date (949276800 div 86400) 2000 1 31"
    by (simp add: time_in_range_def) code_simp
  then show ?thesis using DateAdd_calendar [of 949276800 2000 1 31 daMONTH 1]
    by (simp add: days_in_month_def leap_year_def civil_day_def days_before_year_def days_before_month_table wrap_s_id)
qed

text \<open>
  C20: \<open>DateDiff\<close> inverts \<open>DateAdd\<close>: when the day of the month is at most 28, the time that is
  \<open>n\<close> months later (or earlier) is \<open>n\<close> months away.
\<close>

theorem DateDiff_DateAdd:
  assumes "\<bar>t\<bar> \<le> 9000000000000000000" "is_date (t div 86400) y m d" "d \<le> 28" "\<bar>n\<bar> \<le> 1000000000"
  shows "\<exists>t'. DateAdd daMONTH n t = Inr t' \<and> DateDiff dtMONTH t t' = Inr n \<and> DateDiff dtMONTH t' t = Inr (- n)"
proof -
  define M where "M = 12 * y + (m - 1) + n"
  define t' where "t' = 86400 * civil_day (M div 12) (M mod 12 + 1) d + t mod 86400"
  note a = DateAdd_safe [OF assms(1,2,4,3), folded M_def, folded t'_def]
  have t: "time_in_range t" using assms(1) by (simp add: time_in_range_def abs_le_iff)
  have d: "1 \<le> d" using assms(2) by (simp add: is_date_def valid_civil_def)
  note b = DateAdd_date [OF t'_def refl d assms(3)]
  define Y where "Y = 12 * (M div 12) + (M mod 12 + 1)"
  have Y: "Y = 12 * y + m + n" unfolding Y_def M_def by simp
  have "months_between (12 * y + m) d (t mod 86400) Y d (t' mod 86400) = n"
    unfolding b(2) Y by (simp add: months_between_def months_from_def earlier_in_month_def)
  then have "DateDiff dtMONTH t t' = Inr n" "DateDiff dtMONTH t' t = Inr (- n)"
    using DateDiff_calendar [OF t a(2) assms(2) b(1), of dtMONTH]
      DateDiff_calendar [OF a(2) t b(1) assms(2), of dtMONTH]
      months_between_swap [of Y d "t' mod 86400" "12 * y + m" d "t mod 86400"]
    by (simp_all add: Y_def [symmetric])
  with a(1) show ?thesis by blast
qed

theorem DateDiff_DateAdd_witness:
  "\<exists>t'. DateAdd daMONTH (- 14) 951782399 = Inr t' \<and> DateDiff dtMONTH 951782399 t' = Inr (- 14) \<and>
     DateDiff dtMONTH t' 951782399 = Inr 14"
proof -
  have "is_date (951782399 div 86400) 2000 2 28" by code_simp
  from DateDiff_DateAdd [OF _ this, of "- 14"] show ?thesis by simp
qed

end
