(* ===== verification/Bit_Utils.thy ===== *)
theory Bit_Utils
  imports Cider_Prelude "HOL-Library.Word"
begin

unbundle bit_operations_syntax

text \<open>
  \<open>util/CiderBitUtils.h\<close>: bit vectors over byte arrays.  A \<open>uint8_t*\<close> is a list of 8-bit words;
  reading or writing past its end is undefined in the source, so the lemmas ask for indices
  within the list.  A \<open>size_t\<close> is a natural number, with the wrap-around of \<open>alignBitsNum\<close>
  written out.
\<close>

type_synonym bit_vector = "8 word list"

section \<open>CiderBitVector\<close>

fun kAlignmentOffset :: "nat \<Rightarrow> nat" where
  "kAlignmentOffset num = (if num div 2 = 0 then 0 else Suc (kAlignmentOffset (num div 2)))"

declare kAlignmentOffset.simps [simp del]

abbreviation size_t :: "nat \<Rightarrow> nat" where
  "size_t n \<equiv> n mod 2 ^ 64"

definition alignBitsNum :: "nat \<Rightarrow> nat \<Rightarrow> nat" where
  "alignBitsNum factor expect_bits =
     (let expect_bits = size_t (expect_bits + 7);
          expect_bits = expect_bits div 2 ^ 3;
          expect_bits = size_t (expect_bits + (factor - 1));
          expect_bits = expect_bits div 2 ^ kAlignmentOffset factor;
          expect_bits = size_t (expect_bits * 2 ^ kAlignmentOffset factor)
      in size_t (expect_bits * 2 ^ 3))"

record CiderBitVector =
  bits_num :: nat
  bv_data :: bit_vector

definition resetBits :: "8 word \<Rightarrow> CiderBitVector \<Rightarrow> CiderBitVector" where
  "resetBits val bv = bv\<lparr>bv_data := replicate (bits_num bv div 2 ^ 3) val\<rparr>"

text \<open>
  The constructor: the allocator supplies uninitialised bytes (\<open>raw\<close>), which \<open>resetBits\<close>
  overwrites.
\<close>

definition CiderBitVector_make :: "nat \<Rightarrow> bit_vector \<Rightarrow> nat \<Rightarrow> 8 word \<Rightarrow> CiderBitVector" where
  "CiderBitVector_make factor raw n init_val =
     resetBits init_val \<lparr>bits_num = alignBitsNum factor n, bv_data = raw\<rparr>"

definition CiderBitVector_copy :: "CiderBitVector \<Rightarrow> CiderBitVector" where
  "CiderBitVector_copy rh =
     \<lparr>bits_num = bits_num rh, bv_data = map (\<lambda>i. bv_data rh ! i) [0..<bits_num rh div 2 ^ 3]\<rparr>"

text \<open>The move constructor returns the new vector and what is left of the moved one.\<close>

definition CiderBitVector_move :: "CiderBitVector \<Rightarrow> CiderBitVector \<times> CiderBitVector" where
  "CiderBitVector_move rh = (rh, \<lparr>bits_num = 0, bv_data = []\<rparr>)"

definition getBitsNum :: "CiderBitVector \<Rightarrow> nat" where
  "getBitsNum bv = bits_num bv"

section \<open>Bits\<close>

definition kCiderBitMask :: "8 word list" where
  "kCiderBitMask = [1, 2, 4, 8, 16, 32, 64, 128]"

definition kCiderBitReverseMask :: "8 word list" where
  "kCiderBitReverseMask = [NOT 1, NOT 2, NOT 4, NOT 8, NOT 16, NOT 32, NOT 64, NOT 128]"

definition isBitSetAt :: "bit_vector \<Rightarrow> nat \<Rightarrow> bool" where
  "isBitSetAt bit_vector index \<longleftrightarrow> bit_vector ! (index div 8) AND kCiderBitMask ! (index mod 8) \<noteq> 0"

definition setBitAt :: "bit_vector \<Rightarrow> nat \<Rightarrow> bit_vector" where
  "setBitAt bit_vector index =
     bit_vector[index div 8 := bit_vector ! (index div 8) OR kCiderBitMask ! (index mod 8)]"

definition clearBitAt :: "bit_vector \<Rightarrow> nat \<Rightarrow> bit_vector" where
  "clearBitAt bit_vector index =
     bit_vector[index div 8 := bit_vector ! (index div 8) AND kCiderBitReverseMask ! (index mod 8)]"

definition isBitClearAt :: "bit_vector \<Rightarrow> nat \<Rightarrow> bool" where
  "isBitClearAt bit_vector index \<longleftrightarrow> bit_vector ! (index div 8) XOR push_bit (index mod 8) 1 \<noteq> 0"

text \<open>The byte index of \<open>setBitAtUnified\<close> is held in a \<open>uint8_t\<close>.\<close>

definition setBitAtUnified :: "bit_vector \<Rightarrow> nat \<Rightarrow> bool \<Rightarrow> bit_vector" where
  "setBitAtUnified bit_vector index is_null =
     (let idx = (index div 8) mod 2 ^ 8;
          mask = push_bit (index mod 8) 1
      in bit_vector[idx := (bit_vector ! idx AND NOT mask) OR ((if is_null then - 1 else 0) AND mask)])"

section \<open>Counting\<close>

definition load_uint64 :: "bit_vector \<Rightarrow> nat \<Rightarrow> 64 word" where
  "load_uint64 bit_vector k =
     foldr (OR) (map (\<lambda>j. push_bit (8 * j) (ucast (bit_vector ! (8 * k + j)))) [0..<8]) 0"

definition popcountl :: "64 word \<Rightarrow> nat" where
  "popcountl w = length (filter (bit w) [0..<64])"

function countSetBits_words :: "bit_vector \<Rightarrow> nat \<Rightarrow> nat \<Rightarrow> nat \<Rightarrow> nat \<times> nat" where
  "countSetBits_words bit_vector n_end i ans =
     (if i + 64 \<le> n_end
      then countSetBits_words bit_vector n_end (i + 64) (ans + popcountl (load_uint64 bit_vector (i div 64)))
      else (i, ans))"
  by pat_completeness auto

termination by (relation "measure (\<lambda>(bv, e, i, ans). e - i)") auto

function countSetBits_bits :: "bit_vector \<Rightarrow> nat \<Rightarrow> nat \<Rightarrow> nat \<Rightarrow> nat" where
  "countSetBits_bits bit_vector n_end i ans =
     (if i < n_end then countSetBits_bits bit_vector n_end (i + 1) (ans + of_bool (isBitSetAt bit_vector i)) else ans)"
  by pat_completeness auto

termination by (relation "measure (\<lambda>(bv, e, i, ans). e - i)") auto

declare countSetBits_words.simps [simp del] countSetBits_bits.simps [simp del]

definition countSetBits :: "bit_vector \<Rightarrow> nat \<Rightarrow> nat" where
  "countSetBits bit_vector n_end =
     (let (i, ans) = countSetBits_words bit_vector n_end 0 0 in countSetBits_bits bit_vector n_end i ans)"

definition countUnsetBits :: "bit_vector \<Rightarrow> nat \<Rightarrow> nat" where
  "countUnsetBits bit_vector n_end = n_end - countSetBits bit_vector n_end"

function CheckBitVectorEq_bits :: "bit_vector \<Rightarrow> bit_vector \<Rightarrow> nat \<Rightarrow> nat \<Rightarrow> bool" where
  "CheckBitVectorEq_bits vec1 vec2 n_end i =
     (if i < n_end
      then if (isBitSetAt vec1 i \<and> \<not> isBitSetAt vec2 i) \<or> (\<not> isBitSetAt vec1 i \<and> isBitSetAt vec2 i)
           then False else CheckBitVectorEq_bits vec1 vec2 n_end (i + 1)
      else True)"
  by pat_completeness auto

termination by (relation "measure (\<lambda>(v1, v2, e, i). e - i)") auto

declare CheckBitVectorEq_bits.simps [simp del]

text \<open>\<open>memcmp\<close> returns 0 exactly on equal bytes.\<close>

definition CheckBitVectorEq :: "bit_vector \<Rightarrow> bit_vector \<Rightarrow> nat \<Rightarrow> bool" where
  "CheckBitVectorEq vec1 vec2 n_end =
     (let bytes = n_end div 8
      in if \<exists>k \<in> set [0..<bytes]. vec1 ! k \<noteq> vec2 ! k then False
         else CheckBitVectorEq_bits vec1 vec2 n_end (bytes * 8))"

definition bitwiseAnd :: "bit_vector \<Rightarrow> bit_vector \<Rightarrow> bit_vector \<Rightarrow> nat \<Rightarrow> bit_vector" where
  "bitwiseAnd output a b bit_num =
     fold (\<lambda>i out. out[i := a ! i AND b ! i]) [0..<(bit_num + 7) div 8] output"

section \<open>Reading and writing bits\<close>

lemma nat_cases_8:
  assumes "n < (8 :: nat)"
    and "P 0" "P 1" "P 2" "P 3" "P 4" "P 5" "P 6" "P 7"
  shows "P n"
proof -
  have "n = 0 \<or> n = 1 \<or> n = 2 \<or> n = 3 \<or> n = 4 \<or> n = 5 \<or> n = 6 \<or> n = 7" using assms(1) by linarith
  then show ?thesis using assms(2-) by blast
qed

lemma mask_bit: "n < 8 \<Longrightarrow> kCiderBitMask ! n = push_bit n 1"
  by (erule nat_cases_8) (simp_all add: kCiderBitMask_def)

lemma reverse_mask_bit: "n < 8 \<Longrightarrow> kCiderBitReverseMask ! n = NOT (push_bit n 1)"
  by (erule nat_cases_8) (simp_all add: kCiderBitReverseMask_def)

lemma isBitSetAt_bit: "isBitSetAt bv i = bit (bv ! (i div 8)) (i mod 8)"
proof -
  have "i mod 8 < 8" by simp
  then show ?thesis
    unfolding isBitSetAt_def mask_bit [OF \<open>i mod 8 < 8\<close>]
    by (simp add: bit_iff_and_push_bit_not_eq_0)
qed

lemma index_split: "(i :: nat) = j \<longleftrightarrow> i div 8 = j div 8 \<and> i mod 8 = j mod 8"
  by (metis div_mult_mod_eq)

lemma isBitSetAt_update:
  assumes "i div 8 < length bv"
  shows "isBitSetAt (bv[i div 8 := w]) j = (if j div 8 = i div 8 then bit w (j mod 8) else isBitSetAt bv j)"
  using assms by (simp add: isBitSetAt_bit nth_list_update)

lemma setBitAt_get:
  assumes "i < 8 * length bv" shows "isBitSetAt (setBitAt bv i) j = (i = j \<or> isBitSetAt bv j)"
proof -
  have m: "i mod 8 < 8" "j mod 8 < 8" by simp_all
  show ?thesis
    unfolding setBitAt_def mask_bit [OF m(1)] using assms m
    by (subst isBitSetAt_update)
      (auto simp: bit_or_iff bit_push_bit_iff bit_1_iff bit_exp_iff isBitSetAt_bit index_split [of i j] less_mult_imp_div_less)
qed

lemma clearBitAt_get:
  assumes "i < 8 * length bv" shows "isBitSetAt (clearBitAt bv i) j = (i \<noteq> j \<and> isBitSetAt bv j)"
proof -
  have m: "i mod 8 < 8" "j mod 8 < 8" by simp_all
  show ?thesis
    unfolding clearBitAt_def reverse_mask_bit [OF m(1)] using assms m
    by (subst isBitSetAt_update)
      (auto simp: bit_and_iff bit_not_iff bit_push_bit_iff bit_1_iff bit_exp_iff isBitSetAt_bit index_split [of i j] less_mult_imp_div_less)
qed

lemma setBitAt_length [simp]: "length (setBitAt bv i) = length bv" "length (clearBitAt bv i) = length bv"
  by (simp_all add: setBitAt_def clearBitAt_def)

text \<open>
  The interface that clients of a bit vector rely on: reading returns the last value written
  at the index and a write changes no other index.
\<close>

locale bit_store =
  fixes bits :: "'s \<Rightarrow> nat" and get_bit :: "'s \<Rightarrow> nat \<Rightarrow> bool" and put_bit :: "'s \<Rightarrow> nat \<Rightarrow> bool \<Rightarrow> 's"
  assumes get_put: "i < bits s \<Longrightarrow> get_bit (put_bit s i v) j = (if i = j then v else get_bit s j)"
    and bits_put: "bits (put_bit s i v) = bits s"
begin

lemma get_put_same: "i < bits s \<Longrightarrow> get_bit (put_bit s i v) i = v"
  by (simp add: get_put)

lemma put_put_get: "i < bits s \<Longrightarrow> get_bit (put_bit (put_bit s i v) i w) j = get_bit (put_bit s i w) j"
  by (simp add: get_put bits_put)

lemma put_commute_get:
  "i < bits s \<Longrightarrow> k < bits s \<Longrightarrow> i \<noteq> k \<Longrightarrow>
   get_bit (put_bit (put_bit s i v) k w) j = get_bit (put_bit (put_bit s k w) i v) j"
  by (simp add: get_put bits_put)

lemma fold_put_get:
  "\<forall>i \<in> set is. i < bits s \<Longrightarrow>
   get_bit (fold (\<lambda>i s. put_bit s i (f i)) is s) j = (if j \<in> set is then f j else get_bit s j)"
  by (induction "is" arbitrary: s) (auto simp: get_put bits_put)

end

definition putBitAt :: "bit_vector \<Rightarrow> nat \<Rightarrow> bool \<Rightarrow> bit_vector" where
  "putBitAt bv i v = (if v then setBitAt bv i else clearBitAt bv i)"

interpretation bv: bit_store "\<lambda>bv. 8 * length bv" isBitSetAt putBitAt
  by unfold_locales (simp_all add: putBitAt_def setBitAt_get clearBitAt_get)

section \<open>Counting is exact\<close>

lemma bit_foldr_or: "bit (foldr (OR) ws (0 :: 'a :: len word)) n = (\<exists>w \<in> set ws. bit w n)"
  by (induction ws) (auto simp: bit_or_iff)

lemma load_uint64_bit:
  assumes "q < 8" "r < 8"
  shows "bit (load_uint64 bv k) (8 * q + r) = bit (bv ! (8 * k + q)) r"
proof -
  have b: "bit (push_bit (8 * j) (ucast w :: 64 word)) (8 * q + r) \<longleftrightarrow> j = q \<and> bit w r" if "j < 8" for j and w :: "8 word"
  proof (cases "j = q")
    case True
    then show ?thesis using assms by (simp add: bit_push_bit_iff bit_ucast_iff)
  next
    case False
    then have "8 * q + r < 8 * j \<or> 8 \<le> 8 * q + r - 8 * j" using assms that by linarith
    then have "\<not> bit w (8 * q + r - 8 * j) \<or> 8 * q + r < 8 * j" using bit_imp_le_length [of w] by fastforce
    then show ?thesis using False by (auto simp: bit_push_bit_iff bit_ucast_iff)
  qed
  have "bit (load_uint64 bv k) (8 * q + r) \<longleftrightarrow>
      (\<exists>j \<in> {0..<8}. bit (push_bit (8 * j) (ucast (bv ! (8 * k + j)) :: 64 word)) (8 * q + r))"
    by (simp add: load_uint64_def bit_foldr_or)
  also have "\<dots> \<longleftrightarrow> bit (bv ! (8 * k + q)) r" using assms(1) b by auto
  finally show ?thesis .
qed

text \<open>Both loops count the set bits of an interval of indices.\<close>

definition set_bits :: "bit_vector \<Rightarrow> nat \<Rightarrow> nat \<Rightarrow> nat" where
  "set_bits bv a b = card {i. a \<le> i \<and> i < b \<and> isBitSetAt bv i}"

lemma set_bits_split: "a \<le> b \<Longrightarrow> b \<le> c \<Longrightarrow> set_bits bv a c = set_bits bv a b + set_bits bv b c"
proof -
  assume "a \<le> b" "b \<le> c"
  then have "{i. a \<le> i \<and> i < c \<and> isBitSetAt bv i} =
    {i. a \<le> i \<and> i < b \<and> isBitSetAt bv i} \<union> {i. b \<le> i \<and> i < c \<and> isBitSetAt bv i}" by auto
  moreover have "{i. a \<le> i \<and> i < b \<and> isBitSetAt bv i} \<inter> {i. b \<le> i \<and> i < c \<and> isBitSetAt bv i} = {}" by auto
  ultimately show ?thesis unfolding set_bits_def by (simp add: card_Un_disjoint)
qed

lemma set_bits_empty [simp]: "set_bits bv a a = 0"
  by (simp add: set_bits_def)

lemma set_bits_Suc: "set_bits bv i (Suc i) = of_bool (isBitSetAt bv i)"
proof -
  have "{k. i \<le> k \<and> k < Suc i \<and> isBitSetAt bv k} = (if isBitSetAt bv i then {i} else {})"
    by (auto simp: le_antisym less_Suc_eq_le)
  then show ?thesis by (simp add: set_bits_def)
qed

lemma popcountl_load: "popcountl (load_uint64 bv k) = set_bits bv (64 * k) (64 * k + 64)"
proof -
  have bit: "bit (load_uint64 bv k) n = isBitSetAt bv (64 * k + n)" if "n < 64" for n
  proof -
    have n: "8 * (n div 8) + n mod 8 = n" by simp
    have d: "(64 * k + n) div 8 = 8 * k + n div 8" "(64 * k + n) mod 8 = n mod 8"
      using div_mult_self1 [of 8 n "8 * k"] mod_mult_self1 [of n "8 * k" 8] by (simp_all add: add.commute mult.commute)
    have "n div 8 < 8" "n mod 8 < 8" using that by simp_all
    from load_uint64_bit [OF this, of bv k] show ?thesis unfolding n isBitSetAt_bit d .
  qed
  have "popcountl (load_uint64 bv k) = card {n. n < 64 \<and> isBitSetAt bv (64 * k + n)}"
    unfolding popcountl_def length_filter_conv_card using bit by (intro arg_cong [of _ _ card]) auto
  also have "\<dots> = card ((\<lambda>n. 64 * k + n) ` {n. n < 64 \<and> isBitSetAt bv (64 * k + n)})"
    by (rule card_image [symmetric]) (simp add: inj_on_def)
  also have "(\<lambda>n. 64 * k + n) ` {n. n < 64 \<and> isBitSetAt bv (64 * k + n)} =
      {i. 64 * k \<le> i \<and> i < 64 * k + 64 \<and> isBitSetAt bv i}"
  proof (rule set_eqI, rule iffI)
    fix i assume "i \<in> {i. 64 * k \<le> i \<and> i < 64 * k + 64 \<and> isBitSetAt bv i}"
    then show "i \<in> (\<lambda>n. 64 * k + n) ` {n. n < 64 \<and> isBitSetAt bv (64 * k + n)}"
      by (intro image_eqI [of _ _ "i - 64 * k"]) auto
  qed auto
  finally show ?thesis by (simp only: set_bits_def)
qed

lemma countSetBits_words_eq:
  assumes "i mod 64 = 0" "i \<le> n_end"
  obtains j where "countSetBits_words bv n_end i ans = (j, ans + set_bits bv i j)" "i \<le> j" "j \<le> n_end"
  using assms
proof (induction bv n_end i ans arbitrary: thesis rule: countSetBits_words.induct)
  case (1 bv n_end i ans)
  show ?case
  proof (cases "i + 64 \<le> n_end")
    case True
    have i: "64 * (i div 64) = i" using 1(3) by auto
    obtain j where j: "countSetBits_words bv n_end (i + 64) (ans + popcountl (load_uint64 bv (i div 64))) =
        (j, ans + popcountl (load_uint64 bv (i div 64)) + set_bits bv (i + 64) j)" "i + 64 \<le> j" "j \<le> n_end"
      using 1(1) [OF True] 1(3) True by auto
    show ?thesis
      by (rule 1(2) [of j], subst countSetBits_words.simps)
        (use True j set_bits_split [of i "i + 64" j bv] in \<open>simp_all add: popcountl_load i\<close>)
  next
    case False
    then show ?thesis by (intro 1(2) [of i], subst countSetBits_words.simps) (use 1(4) in simp_all)
  qed
qed

lemma countSetBits_bits_eq: "i \<le> n_end \<Longrightarrow> countSetBits_bits bv n_end i ans = ans + set_bits bv i n_end"
proof (induction bv n_end i ans rule: countSetBits_bits.induct)
  case (1 bv n_end i ans)
  then show ?case
    by (subst countSetBits_bits.simps)
      (cases "i = n_end", simp_all add: set_bits_split [of i "Suc i" n_end] set_bits_Suc)
qed

lemma countSetBits_eq: "countSetBits bv n = set_bits bv 0 n"
proof -
  obtain j where j: "countSetBits_words bv n 0 0 = (j, 0 + set_bits bv 0 j)" "0 \<le> j" "j \<le> n"
    by (rule countSetBits_words_eq [of 0 n bv 0]) simp_all
  then show ?thesis by (simp add: countSetBits_def countSetBits_bits_eq set_bits_split [of 0 j n])
qed

section \<open>Comparison and conjunction\<close>

lemma CheckBitVectorEq_bits_iff:
  "CheckBitVectorEq_bits v1 v2 n i \<longleftrightarrow> (\<forall>k. i \<le> k \<and> k < n \<longrightarrow> isBitSetAt v1 k = isBitSetAt v2 k)"
proof (induction v1 v2 n i rule: CheckBitVectorEq_bits.induct)
  case (1 v1 v2 n i)
  show ?case
  proof (cases "i < n \<and> isBitSetAt v1 i = isBitSetAt v2 i")
    case True
    then have "CheckBitVectorEq_bits v1 v2 n i = CheckBitVectorEq_bits v1 v2 n (i + 1)"
      by (subst CheckBitVectorEq_bits.simps) auto
    also have "\<dots> \<longleftrightarrow> (\<forall>k. i + 1 \<le> k \<and> k < n \<longrightarrow> isBitSetAt v1 k = isBitSetAt v2 k)" using 1 True by blast
    also have "\<dots> \<longleftrightarrow> (\<forall>k. i \<le> k \<and> k < n \<longrightarrow> isBitSetAt v1 k = isBitSetAt v2 k)"
      using True by (metis Suc_eq_plus1 le_eq_less_or_eq less_eq_Suc_le)
    finally show ?thesis .
  next
    case False
    then show ?thesis by (subst CheckBitVectorEq_bits.simps) auto
  qed
qed

lemma byte_eq_iff: "v1 ! k = v2 ! k \<longleftrightarrow> (\<forall>i. i div 8 = k \<longrightarrow> isBitSetAt v1 i = isBitSetAt v2 i)" for v1 v2 :: bit_vector
proof
  assume all: "\<forall>i. i div 8 = k \<longrightarrow> isBitSetAt v1 i = isBitSetAt v2 i"
  show "v1 ! k = v2 ! k"
  proof (rule bit_word_eqI)
    fix r assume "r < LENGTH(8)"
    then have d: "(8 * k + r) div 8 = k" "(8 * k + r) mod 8 = r" by simp_all
    then show "bit (v1 ! k) r = bit (v2 ! k) r" using all isBitSetAt_bit by metis
  qed
qed (auto simp: isBitSetAt_bit)

lemma fold_and_nth:
  "m \<le> length out \<Longrightarrow> length (fold (\<lambda>i out. out[i := a ! i AND b ! i]) [0..<m] out) = length out \<and>
   (\<forall>k. fold (\<lambda>i out. out[i := a ! i AND b ! i]) [0..<m] out ! k = (if k < m then a ! k AND b ! k else out ! k))"
  for a b out :: bit_vector
  by (induction m) (auto simp: nth_list_update)

section \<open>Alignment\<close>

lemma kAlignmentOffset_power: "kAlignmentOffset (2 ^ k) = k"
  by (induction k) (subst kAlignmentOffset.simps, simp)+

lemma ceil_div_bounds:
  fixes b p :: nat
  assumes "0 < p" shows "b \<le> p * ((b + (p - 1)) div p)" "p * ((b + (p - 1)) div p) \<le> b + (p - 1)"
proof -
  define d where "d = (b + (p - 1)) div p"
  have "b + (p - 1) < p + p * d" unfolding d_def by (rule dividend_less_times_div [OF assms])
  then show "b \<le> p * ((b + (p - 1)) div p)" by (simp add: d_def)
  show "p * ((b + (p - 1)) div p) \<le> b + (p - 1)" by simp
qed

lemma alignBitsNum_eq:
  assumes "n \<le> 2 ^ 62" "k \<le> 20"
  shows "alignBitsNum (2 ^ k) n = 8 * (2 ^ k * (((n + 7) div 8 + (2 ^ k - 1)) div 2 ^ k))"
proof -
  have k: "(2 :: nat) ^ k \<le> 2 ^ 20" using assms(2) by (intro power_increasing) simp_all
  define p :: nat where "p = 2 ^ k"
  have p: "p \<le> 1048576" "0 < p" using k by (simp_all add: p_def)
  define b where "b = (n + 7) div 8"
  define d where "d = (b + (p - 1)) div p"
  have b: "8 * b \<le> n + 7" by (simp add: b_def)
  have d: "p * d \<le> b + (p - 1)" unfolding d_def by (rule ceil_div_bounds [OF p(2)])
  have n: "n \<le> 4611686018427387904" using assms(1) by simp
  have s1: "size_t (n + 7) div 2 ^ 3 = b" using n by (simp add: b_def)
  have s2: "size_t (b + (p - 1)) div p = d" unfolding d_def using b p n by (subst mod_less) simp_all
  have s3: "size_t (d * p) = d * p" by (rule mod_less) (use d b p n in \<open>simp add: mult.commute\<close>)
  have s4: "size_t (d * p * 2 ^ 3) = d * p * 8" using d b p n by (subst mod_less) (simp_all add: mult.commute)
  show ?thesis
    unfolding alignBitsNum_def Let_def kAlignmentOffset_power
    unfolding p_def [symmetric] s1 s2 s3 s4 b_def [symmetric] d_def [symmetric] by (simp add: mult.commute)
qed

section \<open>Properties\<close>

text \<open>
  A bit vector behaves as an array of bits: \<open>setBitAt\<close> and \<open>clearBitAt\<close> change exactly the
  addressed bit, as \<open>isBitSetAt\<close> reads it, and keep the length of the vector.
\<close>

theorem bit_vector_read_write:
  assumes "i < 8 * length bv"
  shows "isBitSetAt (setBitAt bv i) j = (i = j \<or> isBitSetAt bv j) \<and>
    isBitSetAt (clearBitAt bv i) j = (i \<noteq> j \<and> isBitSetAt bv j) \<and>
    length (setBitAt bv i) = length bv \<and> length (clearBitAt bv i) = length bv"
  using bv.get_put [OF assms, of True j] bv.get_put [OF assms, of False j] by (auto simp: putBitAt_def)

theorem bit_vector_read_write_witness:
  "isBitSetAt (setBitAt [0, 5] 9) 9 \<and> \<not> isBitSetAt (clearBitAt [0, 5] 10) 10 \<and> isBitSetAt (clearBitAt [0, 5] 10) 8"
  using bit_vector_read_write [of 9 "[0, 5]" 9] bit_vector_read_write [of 10 "[0, 5]" 10]
    bit_vector_read_write [of 10 "[0, 5]" 8] by (simp add: isBitSetAt_def kCiderBitMask_def)

text \<open>
  C27: \<open>countSetBits\<close> and \<open>countUnsetBits\<close> return the number of set and unset bits below the end,
  although the count goes a 64-bit word at a time and finishes bit by bit.
\<close>

theorem countSetBits_exact:
  "countSetBits bv n = card {i. i < n \<and> isBitSetAt bv i} \<and> countUnsetBits bv n = card {i. i < n \<and> \<not> isBitSetAt bv i}"
proof
  show c: "countSetBits bv n = card {i. i < n \<and> isBitSetAt bv i}" by (simp add: countSetBits_eq set_bits_def)
  have "{i. i < n \<and> \<not> isBitSetAt bv i} = {..<n} - {i. i < n \<and> isBitSetAt bv i}" by auto
  then have "card {i. i < n \<and> \<not> isBitSetAt bv i} = n - card {i. i < n \<and> isBitSetAt bv i}"
    by (simp add: card_Diff_subset subset_eq)
  then show "countUnsetBits bv n = card {i. i < n \<and> \<not> isBitSetAt bv i}" by (simp add: countUnsetBits_def c)
qed

text \<open>
  \<open>CheckBitVectorEq\<close> holds exactly when the two vectors agree on every bit below the end
  (bits after it in the last byte are ignored), and \<open>bitwiseAnd\<close> writes the conjunction of
  the two vectors to every bit below the end without touching the bytes after it.
\<close>

theorem CheckBitVectorEq_bitwiseAnd:
  assumes "(n + 7) div 8 \<le> length out"
  shows "(CheckBitVectorEq v1 v2 n \<longleftrightarrow> (\<forall>i < n. isBitSetAt v1 i = isBitSetAt v2 i)) \<and>
    (\<forall>i < n. isBitSetAt (bitwiseAnd out v1 v2 n) i = (isBitSetAt v1 i \<and> isBitSetAt v2 i)) \<and>
    (\<forall>k. (n + 7) div 8 \<le> k \<longrightarrow> bitwiseAnd out v1 v2 n ! k = out ! k)"
proof (intro conjI)
  define m where "m = n div 8 * 8"
  have m: "m \<le> n" "i div 8 < n div 8 \<longleftrightarrow> i < m" for i by (simp_all add: m_def div_less_iff_less_mult)
  have "(\<exists>k \<in> set [0..<n div 8]. v1 ! k \<noteq> v2 ! k) \<longleftrightarrow> \<not> (\<forall>i. i div 8 < n div 8 \<longrightarrow> isBitSetAt v1 i = isBitSetAt v2 i)"
    unfolding byte_eq_iff by auto
  then have "CheckBitVectorEq v1 v2 n \<longleftrightarrow> (\<forall>i. i < m \<longrightarrow> isBitSetAt v1 i = isBitSetAt v2 i) \<and>
      (\<forall>i. m \<le> i \<and> i < n \<longrightarrow> isBitSetAt v1 i = isBitSetAt v2 i)"
    unfolding CheckBitVectorEq_def Let_def CheckBitVectorEq_bits_iff m_def [symmetric] m(2) by (simp only:) auto
  then show "CheckBitVectorEq v1 v2 n \<longleftrightarrow> (\<forall>i < n. isBitSetAt v1 i = isBitSetAt v2 i)"
    using m(1) by (meson less_le_trans not_le)
  have nth: "bitwiseAnd out v1 v2 n ! k = (if k < (n + 7) div 8 then v1 ! k AND v2 ! k else out ! k)" for k
    using fold_and_nth [OF assms] by (simp add: bitwiseAnd_def)
  then show "\<forall>k. (n + 7) div 8 \<le> k \<longrightarrow> bitwiseAnd out v1 v2 n ! k = out ! k" by simp
  have "i div 8 < (n + 7) div 8" if "i < n" for i using that by (simp add: div_less_iff_less_mult)
  then show "\<forall>i < n. isBitSetAt (bitwiseAnd out v1 v2 n) i = (isBitSetAt v1 i \<and> isBitSetAt v2 i)"
    by (simp add: isBitSetAt_bit nth bit_and_iff)
qed

theorem CheckBitVectorEq_bitwiseAnd_witness:
  "CheckBitVectorEq [7, 1] [7, 3] 9 \<longleftrightarrow> (\<forall>i < 9. isBitSetAt [7, 1] i = isBitSetAt [7, 3] i)"
  using CheckBitVectorEq_bitwiseAnd [of 9 "[0, 0]" "[7, 1]" "[7, 3]"] by simp

text \<open>
  \<open>alignBitsNum\<close> rounds the number of bits up to the next multiple of the alignment (a
  power of two of bytes): the result holds the bits asked for and exceeds them by less than
  one alignment unit.
\<close>

theorem alignBitsNum_rounds_up:
  assumes "n \<le> 2 ^ 62" "k \<le> 20"
  shows "n \<le> alignBitsNum (2 ^ k) n \<and> alignBitsNum (2 ^ k) n < n + 8 * 2 ^ k \<and> 8 * 2 ^ k dvd alignBitsNum (2 ^ k) n"
proof -
  define b p where "b = (n + 7) div 8" and "p = (2 :: nat) ^ k"
  have b: "8 * b \<le> n + 7" "n \<le> 8 * b" unfolding b_def by simp linarith
  have p: "0 < p" by (simp add: p_def)
  define d where "d = (b + (p - 1)) div p"
  have d: "b \<le> p * d" "p * d \<le> b + (p - 1)" unfolding d_def by (rule ceil_div_bounds [OF p])+
  have "8 * (p * d) < n + 8 * p" using d b p by linarith
  moreover have "8 * p dvd 8 * (p * d)" by simp
  ultimately show ?thesis unfolding alignBitsNum_eq [OF assms]
    unfolding b_def [symmetric] p_def [symmetric] d_def [symmetric] using d b by linarith
qed

theorem alignBitsNum_rounds_up_witness: "100 \<le> alignBitsNum (2 ^ 4) 100 \<and> alignBitsNum (2 ^ 4) 100 < 228"
  using alignBitsNum_rounds_up [of 100 4] by simp

text \<open>
  \<open>isBitClearAt\<close> and \<open>setBitAtUnified\<close> do not do what their names say: \<open>isBitClearAt\<close> reports
  a bit as clear although it is set whenever its byte has another bit set, and
  \<open>setBitAtUnified\<close> writes to the wrong byte from index 2048 on, since it keeps the byte index
  in 8 bits.
\<close>

theorem bit_utils_defects:
  "(isBitSetAt [3] 0 \<and> isBitClearAt [3] 0) \<and>
   (isBitSetAt (setBitAtUnified (replicate 257 0) 2048 True) 0 \<and>
    \<not> isBitSetAt (setBitAtUnified (replicate 257 0) 2048 True) 2048)"
  by (simp add: isBitSetAt_bit isBitClearAt_def setBitAtUnified_def Let_def nth_list_update)

end
