(* ===== verification/Nullable_Ops.thy ===== *)
theory Nullable_Ops
  imports Extract_From_Time Bit_Utils
begin

text \<open>
  The scalar operations of \<open>function/scalar/RuntimeFunctions.cpp\<close> on values whose SQL NULL is a
  sentinel: the functions that the macros \<open>DEF_ARITH_NULLABLE\<close>, \<open>DEF_CMP_NULLABLE\<close>,
  \<open>DEF_SAFE_DIV_NULLABLE\<close>, \<open>DEF_UMINUS_NULLABLE\<close> and \<open>DEF_CAST_NULLABLE\<close> define for the integer types,
  decimal scaling, three-valued logic, packed strings and the null-vector wrappers.  The type
  of a macro is its half range (\<open>128\<close> for \<open>int8_t\<close>, ..., \<open>2 ^ 63\<close> for \<open>int64_t\<close>); its operator is a
  constructor of \<open>arith_op\<close> or \<open>cmp_op\<close>.
\<close>

section \<open>Arithmetic and comparison\<close>

datatype arith_op = op_add | op_sub | op_mul | op_div | op_mod

datatype cmp_op = op_eq | op_ne | op_lt | op_gt | op_le | op_ge

fun arith :: "arith_op \<Rightarrow> int \<Rightarrow> int \<Rightarrow> int" where
  "arith op_add lhs rhs = lhs + rhs"
| "arith op_sub lhs rhs = lhs - rhs"
| "arith op_mul lhs rhs = lhs * rhs"
| "arith op_div lhs rhs = lhs sdiv rhs"
| "arith op_mod lhs rhs = lhs smod rhs"

fun cmp :: "cmp_op \<Rightarrow> int \<Rightarrow> int \<Rightarrow> bool" where
  "cmp op_eq lhs rhs = (lhs = rhs)"
| "cmp op_ne lhs rhs = (lhs \<noteq> rhs)"
| "cmp op_lt lhs rhs = (lhs < rhs)"
| "cmp op_gt lhs rhs = (lhs > rhs)"
| "cmp op_le lhs rhs = (lhs \<le> rhs)"
| "cmp op_ge lhs rhs = (lhs \<ge> rhs)"

text \<open>
  \<open>lhs opsym rhs\<close> as a value of the type.  Operands narrower than \<open>int\<close> are promoted to it.  The
  division instruction traps on a divisor 0, and when the quotient of the smallest value by -1 does
  not fit; the remainder is computed by the same instruction.
\<close>

definition division_traps :: "int \<Rightarrow> int \<Rightarrow> int \<Rightarrow> bool" where
  "division_traps half lhs rhs \<longleftrightarrow> rhs = 0 \<or> (2147483648 \<le> half \<and> lhs = - half \<and> rhs = - 1)"

definition arith_value :: "int \<Rightarrow> arith_op \<Rightarrow> int \<Rightarrow> int \<Rightarrow> int result" where
  "arith_value half opsym lhs rhs =
     (if (opsym = op_div \<or> opsym = op_mod) \<and> division_traps half lhs rhs then Inl DivisionTrap
      else Inr (wrap_s half (arith opsym lhs rhs)))"

definition arith_nullable :: "int \<Rightarrow> arith_op \<Rightarrow> int \<Rightarrow> int \<Rightarrow> int \<Rightarrow> int result" where
  "arith_nullable half opsym lhs rhs null_val =
     (if lhs \<noteq> null_val \<and> rhs \<noteq> null_val then arith_value half opsym lhs rhs else Inr (wrap_s half null_val))"

definition arith_nullable_lhs :: "int \<Rightarrow> arith_op \<Rightarrow> int \<Rightarrow> int \<Rightarrow> int \<Rightarrow> int result" where
  "arith_nullable_lhs half opsym lhs rhs null_val =
     (if lhs \<noteq> null_val then arith_value half opsym lhs rhs else Inr (wrap_s half null_val))"

definition arith_nullable_rhs :: "int \<Rightarrow> arith_op \<Rightarrow> int \<Rightarrow> int \<Rightarrow> int \<Rightarrow> int result" where
  "arith_nullable_rhs half opsym lhs rhs null_val =
     (if rhs \<noteq> null_val then arith_value half opsym lhs rhs else Inr (wrap_s half null_val))"

definition cmp_nullable :: "cmp_op \<Rightarrow> int \<Rightarrow> int \<Rightarrow> int \<Rightarrow> int \<Rightarrow> int" where
  "cmp_nullable opsym lhs rhs null_val null_bool_val =
     (if lhs \<noteq> null_val \<and> rhs \<noteq> null_val then of_bool (cmp opsym lhs rhs) else null_bool_val)"

definition cmp_nullable_lhs :: "cmp_op \<Rightarrow> int \<Rightarrow> int \<Rightarrow> int \<Rightarrow> int \<Rightarrow> int" where
  "cmp_nullable_lhs opsym lhs rhs null_val null_bool_val =
     (if lhs \<noteq> null_val then of_bool (cmp opsym lhs rhs) else null_bool_val)"

definition cmp_nullable_rhs :: "cmp_op \<Rightarrow> int \<Rightarrow> int \<Rightarrow> int \<Rightarrow> int \<Rightarrow> int" where
  "cmp_nullable_rhs opsym lhs rhs null_val null_bool_val =
     (if rhs \<noteq> null_val then of_bool (cmp opsym lhs rhs) else null_bool_val)"

definition safe_div :: "int \<Rightarrow> int \<Rightarrow> int \<Rightarrow> int \<Rightarrow> int result" where
  "safe_div half lhs rhs null_val =
     (if lhs \<noteq> null_val \<and> rhs \<noteq> null_val \<and> rhs \<noteq> 0 then arith_value half op_div lhs rhs else Inr (wrap_s half null_val))"

definition external_call_test_sum :: "int \<Rightarrow> int \<Rightarrow> int" where
  "external_call_test_sum a b = s32 (a + b)"

section \<open>Decimals\<close>

definition scale_decimal_up :: "int \<Rightarrow> int \<Rightarrow> int \<Rightarrow> int \<Rightarrow> int" where
  "scale_decimal_up operand scale operand_null_val result_null_val =
     (if operand \<noteq> operand_null_val then s64 (u64 (u64 operand * scale)) else result_null_val)"

definition scale_decimal_down :: "int \<Rightarrow> int \<Rightarrow> int" where
  "scale_decimal_down operand scale =
     (let tmp = scale div 2;
          tmp = (if operand \<ge> 0 then s64 (operand + tmp) else s64 (operand - tmp))
      in tmp sdiv scale)"

definition scale_decimal_down_nullable :: "int \<Rightarrow> int \<Rightarrow> int \<Rightarrow> int" where
  "scale_decimal_down_nullable operand scale null_val =
     (if operand = null_val then null_val
      else let tmp = scale div 2;
               tmp = (if operand \<ge> 0 then s64 (operand + tmp) else s64 (operand - tmp))
           in tmp sdiv scale)"

definition floor_div_lhs :: "int \<Rightarrow> int \<Rightarrow> int" where
  "floor_div_lhs dividend divisor =
     (if dividend < 0 then s64 (dividend - (divisor - 1)) else dividend) sdiv divisor"

definition floor_div_nullable_lhs :: "int \<Rightarrow> int \<Rightarrow> int \<Rightarrow> int" where
  "floor_div_nullable_lhs dividend divisor null_val =
     (if dividend = null_val then null_val else floor_div_lhs dividend divisor)"

definition decimal_floor :: "int \<Rightarrow> int \<Rightarrow> int" where
  "decimal_floor x scale =
     (if x \<ge> 0 then s64 (x sdiv scale * scale)
      else if x smod scale = 0 then x
      else s64 (s64 (x sdiv scale * scale) - scale))"

definition decimal_ceil :: "int \<Rightarrow> int \<Rightarrow> int" where
  "decimal_ceil x scale = s64 (decimal_floor x scale + (if x smod scale \<noteq> 0 then scale else 0))"

definition uminus_nullable :: "int \<Rightarrow> int \<Rightarrow> int \<Rightarrow> int" where
  "uminus_nullable half operand null_val = (if operand = null_val then null_val else wrap_s half (- operand))"

definition cast_nullable :: "int \<Rightarrow> int \<Rightarrow> int \<Rightarrow> int \<Rightarrow> int" where
  "cast_nullable to_half operand from_null_val to_null_val =
     (if operand = from_null_val then to_null_val else wrap_s to_half operand)"

section \<open>Three-valued logic\<close>

definition logical_not :: "int \<Rightarrow> int \<Rightarrow> int" where
  "logical_not operand null_val = (if operand = null_val then operand else if operand \<noteq> 0 then 0 else 1)"

definition logical_and :: "int \<Rightarrow> int \<Rightarrow> int \<Rightarrow> int" where
  "logical_and lhs rhs null_val =
     (if lhs = null_val then if rhs = 0 then rhs else null_val
      else if rhs = null_val then if lhs = 0 then lhs else null_val
      else if lhs \<noteq> 0 \<and> rhs \<noteq> 0 then 1 else 0)"

definition logical_or :: "int \<Rightarrow> int \<Rightarrow> int \<Rightarrow> int" where
  "logical_or lhs rhs null_val =
     (if lhs = null_val then if rhs = 0 then null_val else rhs
      else if rhs = null_val then if lhs = 0 then null_val else lhs
      else if lhs \<noteq> 0 \<or> rhs \<noteq> 0 then 1 else 0)"

section \<open>Packed strings\<close>

text \<open>A string is a 48-bit pointer and a 16-bit length in one \<open>uint64_t\<close>.\<close>

definition extract_str_ptr :: "64 word \<Rightarrow> 64 word" where
  "extract_str_ptr str_and_len = str_and_len AND 0xffffffffffff"

definition extract_str_len :: "64 word \<Rightarrow> int" where
  "extract_str_len str_and_len = s32 (sint (signed_drop_bit 48 str_and_len))"

definition string_pack :: "64 word \<Rightarrow> int \<Rightarrow> 64 word" where
  "string_pack ptr len = (ptr AND 0xffffffffffff) OR push_bit 48 (word_of_int len)"

definition char_length :: "'p option \<Rightarrow> int \<Rightarrow> int" where
  "char_length str str_len = str_len"

definition char_length_nullable :: "'p option \<Rightarrow> int \<Rightarrow> int \<Rightarrow> int" where
  "char_length_nullable str str_len int_null = (if str = None then int_null else str_len)"

definition extract_str_ptr_arrow :: "int \<Rightarrow> int list \<Rightarrow> nat \<Rightarrow> int" where
  "extract_str_ptr_arrow data_buffer offset_buffer pos = data_buffer + offset_buffer ! pos"

definition extract_str_len_arrow :: "int list \<Rightarrow> nat \<Rightarrow> int" where
  "extract_str_len_arrow offset_buffer pos = s32 (offset_buffer ! (pos + 1) - offset_buffer ! pos)"

section \<open>Null vectors\<close>

definition check_bit_vector_set :: "bit_vector \<Rightarrow> nat \<Rightarrow> bool" where
  "check_bit_vector_set bit_vector index = isBitSetAt bit_vector index"

definition check_bit_vector_clear :: "bit_vector \<Rightarrow> nat \<Rightarrow> bool" where
  "check_bit_vector_clear bit_vector index = (\<not> isBitSetAt bit_vector index)"

definition check_bit_vector_clear_opt :: "bit_vector \<Rightarrow> nat \<Rightarrow> bool" where
  "check_bit_vector_clear_opt bit_vector index = isBitClearAt bit_vector index"

definition set_bit_vector :: "bit_vector \<Rightarrow> nat \<Rightarrow> bit_vector" where
  "set_bit_vector bit_vector index = setBitAt bit_vector index"

definition clear_bit_vector :: "bit_vector \<Rightarrow> nat \<Rightarrow> bit_vector" where
  "clear_bit_vector bit_vector index = clearBitAt bit_vector index"

definition set_null_vector_bit :: "bit_vector \<Rightarrow> nat \<Rightarrow> bool \<Rightarrow> bit_vector" where
  "set_null_vector_bit bit_vector index is_null =
     (if is_null then clearBitAt bit_vector index else setBitAt bit_vector index)"

definition set_null_vector_bit_opt :: "bit_vector \<Rightarrow> nat \<Rightarrow> bool \<Rightarrow> bit_vector" where
  "set_null_vector_bit_opt bit_vector index is_null = setBitAtUnified bit_vector index is_null"

definition bitwise_and_2 :: "bit_vector \<Rightarrow> bit_vector \<Rightarrow> bit_vector \<Rightarrow> nat \<Rightarrow> bit_vector" where
  "bitwise_and_2 output a b bit_num = bitwiseAnd output a b bit_num"

definition do_memcpy :: "8 word list \<Rightarrow> 8 word list \<Rightarrow> nat \<Rightarrow> 8 word list" where
  "do_memcpy dst src len = take len src @ drop len dst"

definition null_buffer_memcpy :: "8 word list \<Rightarrow> 8 word list \<Rightarrow> nat \<Rightarrow> 8 word list" where
  "null_buffer_memcpy dst src bit_num = do_memcpy dst src ((bit_num + 7) div 8)"

section \<open>SQL values\<close>

text \<open>The SQL value of a sentinel-encoded integer or boolean, and Kleene's connectives on them.\<close>

definition sql_value :: "int \<Rightarrow> int \<Rightarrow> int option" where
  "sql_value null_val x = (if x = null_val then None else Some x)"

definition sql_bool :: "int \<Rightarrow> int \<Rightarrow> bool option" where
  "sql_bool null_val x = (if x = null_val then None else Some (x \<noteq> 0))"

fun kleene_not :: "bool option \<Rightarrow> bool option" where
  "kleene_not (Some a) = Some (\<not> a)"
| "kleene_not None = None"

fun kleene_and :: "bool option \<Rightarrow> bool option \<Rightarrow> bool option" where
  "kleene_and (Some False) b = Some False"
| "kleene_and a (Some False) = Some False"
| "kleene_and (Some True) (Some True) = Some True"
| "kleene_and _ _ = None"

definition kleene_or :: "bool option \<Rightarrow> bool option \<Rightarrow> bool option" where
  "kleene_or a b = kleene_not (kleene_and (kleene_not a) (kleene_not b))"

definition lift2 :: "('a \<Rightarrow> 'b \<Rightarrow> 'c) \<Rightarrow> 'a option \<Rightarrow> 'b option \<Rightarrow> 'c option" where
  "lift2 f a b = (case (a, b) of (Some x, Some y) \<Rightarrow> Some (f x y) | _ \<Rightarrow> None)"

lemma logical_and_kleene:
  "null_val \<notin> {0, 1} \<Longrightarrow> sql_bool null_val (logical_and a b null_val) = kleene_and (sql_bool null_val a) (sql_bool null_val b)"
  by (cases "a = null_val"; cases "b = null_val"; cases "a = 0"; cases "b = 0")
    (auto simp: sql_bool_def logical_and_def)

lemma logical_or_kleene:
  "null_val \<notin> {0, 1} \<Longrightarrow> sql_bool null_val (logical_or a b null_val) = kleene_or (sql_bool null_val a) (sql_bool null_val b)"
  by (cases "a = null_val"; cases "b = null_val"; cases "a = 0"; cases "b = 0")
    (auto simp: sql_bool_def logical_or_def kleene_or_def)

lemma logical_not_kleene:
  "null_val \<notin> {0, 1} \<Longrightarrow> sql_bool null_val (logical_not a null_val) = kleene_not (sql_bool null_val a)"
  by (auto simp: sql_bool_def logical_not_def)

lemma cmp_nullable_sql:
  "null_bool \<notin> {0, 1} \<Longrightarrow> sql_bool null_bool (cmp_nullable opsym a b null_val null_bool) =
   lift2 (cmp opsym) (sql_value null_val a) (sql_value null_val b)"
  by (auto simp: sql_bool_def sql_value_def lift2_def cmp_nullable_def of_bool_def)

section \<open>Rounding\<close>

lemma scale_decimal_down_pos:
  assumes "0 \<le> x" "x \<le> 4611686018427387904" "0 < scale" "scale \<le> 4611686018427387904"
  shows "scale_decimal_down x scale = (x + scale div 2) div scale"
    "2 * \<bar>x - scale * ((x + scale div 2) div scale)\<bar> \<le> scale"
proof -
  define h where "h = scale div 2"
  have h: "0 \<le> h" "2 * h \<le> scale" "scale \<le> 2 * h + 1" unfolding h_def using assms(3) by linarith+
  have "s64 (x + h) = x + h" by (rule wrap_s_id) (use assms h in simp_all)
  then show "scale_decimal_down x scale = (x + scale div 2) div scale"
    unfolding scale_decimal_down_def Let_def h_def [symmetric] using assms h by (simp add: sdiv_nonneg)
  define q where "q = (x + h) div scale"
  have "x + h = scale * q + (x + h) mod scale" by (simp add: q_def)
  moreover have "0 \<le> (x + h) mod scale" "(x + h) mod scale < scale" using assms(3) by simp_all
  ultimately have "scale * q \<le> x + h" "x + h < scale * q + scale" by linarith+
  moreover define p where "p = scale * q"
  ultimately have "p \<le> x + h" "x + h < p + scale" by simp_all
  then show "2 * \<bar>x - scale * ((x + scale div 2) div scale)\<bar> \<le> scale"
    unfolding h_def [symmetric] q_def [symmetric] p_def [symmetric] using h by (simp add: abs_if)
qed

lemma scale_decimal_down_neg:
  assumes "x < 0" "- 4611686018427387904 \<le> x" "0 < scale" "scale \<le> 4611686018427387904"
  shows "scale_decimal_down x scale = - scale_decimal_down (- x) scale"
proof -
  define h where "h = scale div 2"
  have h: "0 \<le> h" "2 * h \<le> scale" unfolding h_def using assms(3) by linarith+
  have "s64 (x - h) = x - h" "s64 (- x + h) = - x + h" by (rule wrap_s_id; use assms h in simp)+
  then have "scale_decimal_down x scale = (x - h) sdiv scale" "scale_decimal_down (- x) scale = (- (x - h)) sdiv scale"
    unfolding scale_decimal_down_def Let_def h_def [symmetric] using assms h by simp_all
  then show ?thesis by (simp only: minus_sdiv_eq minus_minus)
qed

lemma decimal_floor_eq:
  assumes "\<bar>x\<bar> \<le> 4611686018427387904" "0 < scale" "scale \<le> 4611686018427387904"
  shows "decimal_floor x scale = scale * (x div scale)"
proof -
  define q r where "q = x div scale" and "r = x mod scale"
  have x: "x = scale * q + r" "0 \<le> r" "r < scale" using assms(2) by (simp_all add: q_def r_def)
  have b: "- 9223372036854775808 \<le> scale * q" "scale * q < 9223372036854775808" using x assms by (auto simp: abs_le_iff)
  then have wq: "s64 (scale * q) = scale * q" by (rule wrap_s_id)
  show ?thesis
  proof (cases "x < 0")
    case True
    define a c where "a = (- x) div scale" and "c = (- x) mod scale"
    have mx: "- x = scale * a + c" "0 \<le> c" "c < scale" using assms(2) by (simp_all add: a_def c_def)
    have sm: "x smod scale = - c" "x sdiv scale = - a" using True assms(2) by (simp_all add: smod_neg sdiv_neg a_def c_def)
    have q: "q = (if c = 0 then - a else - a - 1)"
      unfolding q_def by (rule div_eqI) (use mx in \<open>auto simp: algebra_simps\<close>)
    have "s64 (- a * scale) = - a * scale" by (rule wrap_s_id) (use mx assms in \<open>auto simp: abs_le_iff algebra_simps\<close>)
    moreover have "s64 (- a * scale - scale) = scale * q" if "c \<noteq> 0"
    proof -
      have "- a * scale - scale = scale * (- a - 1)" by (simp add: algebra_simps)
      also have "- a - 1 = q" using that q by simp
      finally have "- a * scale - scale = scale * q" .
      then show ?thesis using wq by (simp only:)
    qed
    ultimately show ?thesis using True mx q sm unfolding decimal_floor_def q_def [symmetric]
      by (auto simp: algebra_simps)
  next
    case False
    then show ?thesis using assms(2) wq
      by (simp add: decimal_floor_def sdiv_nonneg q_def mult.commute)
  qed
qed

lemma half_up:
  fixes x scale :: int
  assumes "0 < scale"
  shows "(x + scale div 2) div scale = (2 * x + scale) div (2 * scale)"
proof -
  have "(2 * x + scale) div (2 * scale) = (2 * x + scale) div 2 div scale" using assms by (intro zdiv_zmult2_eq) simp
  moreover have "(2 * x + scale) div 2 = x + scale div 2" by simp
  ultimately show ?thesis by (simp only:)
qed

section \<open>Division\<close>

text \<open>Division towards zero: the remainder is smaller than the divisor and has the sign of the dividend.\<close>

lemma truncated_division:
  fixes a b :: int
  assumes "b \<noteq> 0"
  shows "a = a sdiv b * b + a smod b" "0 \<le> a smod b * a" "\<bar>a smod b\<bar> < \<bar>b\<bar>" "\<bar>a sdiv b\<bar> \<le> \<bar>a\<bar>"
proof -
  have r: "0 \<le> \<bar>a\<bar> mod \<bar>b\<bar>" "\<bar>a\<bar> mod \<bar>b\<bar> < \<bar>b\<bar>" using assms by simp_all
  have m: "a smod b = sgn a * (\<bar>a\<bar> mod \<bar>b\<bar>)" by (simp add: signed_modulo_int_def)
  show "a = a sdiv b * b + a smod b" by (simp add: sdiv_mult_smod_eq)
  show "0 \<le> a smod b * a" "\<bar>a smod b\<bar> < \<bar>b\<bar>" using r m assms by (simp_all add: sgn_if mult_nonneg_nonpos)
  have "\<bar>a\<bar> div \<bar>b\<bar> \<le> \<bar>a\<bar>" using assms zdiv_mono2 [of "\<bar>a\<bar>" 1 "\<bar>b\<bar>"] by simp
  moreover have "0 \<le> \<bar>a\<bar> div \<bar>b\<bar>" using assms by (simp add: pos_imp_zdiv_nonneg_iff)
  moreover have "\<bar>a sdiv b\<bar> = \<bar>sgn a * sgn b\<bar> * (\<bar>a\<bar> div \<bar>b\<bar>)"
    using calculation(2) unfolding signed_divide_int_def by (simp only: abs_mult abs_of_nonneg)
  moreover have "\<bar>sgn a * sgn b\<bar> \<le> 1" by (simp add: sgn_if)
  ultimately show "\<bar>a sdiv b\<bar> \<le> \<bar>a\<bar>" using mult_right_mono [of "\<bar>sgn a * sgn b\<bar>" 1 "\<bar>a\<bar> div \<bar>b\<bar>"] by linarith
qed

lemma wrap_s_congruent: "0 < half \<Longrightarrow> in_s half (wrap_s half z) \<and> 2 * half dvd wrap_s half z - z"
  using in_s_wrap_s [of half z] mod_eq_dvd_iff [of "wrap_s half z" "2 * half" z] by simp

section \<open>Packed strings\<close>

lemma mask48: "(0xffffffffffff :: 64 word) = mask 48"
  by (simp add: mask_eq_exp_minus_1)

lemma extract_str_ptr_pack: "extract_str_ptr (string_pack ptr len) = ptr AND 0xffffffffffff"
  unfolding extract_str_ptr_def string_pack_def mask48
  by (rule bit_word_eqI) (auto simp: bit_and_iff bit_or_iff bit_push_bit_iff bit_mask_iff)

lemma string_pack_bit:
  "bit (string_pack ptr len) n = (if n < 48 then bit ptr n else n < 64 \<and> bit (word_of_int len :: 64 word) (n - 48))"
  unfolding string_pack_def mask48 by (auto simp: bit_and_iff bit_or_iff bit_push_bit_iff bit_mask_iff)

lemma extract_str_len_pack:
  assumes "- 32768 \<le> len" "len < 32768" shows "extract_str_len (string_pack ptr len) = len"
proof -
  have st: "signed_take_bit 15 len = len" by (rule signed_take_bit_int_eq_self) (use assms in simp_all)
  have top: "bit len n = bit len 15" if "15 \<le> n" for n
  proof -
    have "bit len n = bit (signed_take_bit 15 len) n" by (simp only: st)
    also have "\<dots> = bit len (min 15 n)" by (simp add: bit_signed_take_bit_iff)
    finally show ?thesis using that by (simp add: min_absorb1)
  qed
  have "signed_drop_bit 48 (string_pack ptr len) = (word_of_int len :: 64 word)"
  proof (rule bit_word_eqI)
    fix n assume n: "n < LENGTH(64)"
    show "bit (signed_drop_bit 48 (string_pack ptr len)) n = bit (word_of_int len :: 64 word) n"
      using n top [of n] by (cases "16 \<le> n") (simp_all add: bit_signed_drop_bit_iff string_pack_bit bit_word_of_int_iff)
  qed
  moreover have "signed_take_bit 63 len = len" by (rule signed_take_bit_int_eq_self) (use assms in simp_all)
  then have "sint (word_of_int len :: 64 word) = len" unfolding sint_sbintrunc' by simp
  ultimately show ?thesis using assms by (simp add: extract_str_len_def wrap_s_id)
qed

section \<open>Properties\<close>

text \<open>
  C24: the sentinel-encoded comparisons and connectives implement SQL's three-valued logic: a
  comparison is NULL exactly when an operand is, and \<open>logical_and\<close>, \<open>logical_or\<close> and
  \<open>logical_not\<close> are Kleene's connectives, as long as the boolean sentinel is neither 0 nor 1.
\<close>

theorem three_valued_logic:
  assumes "null_bool \<notin> {0, 1}"
  shows "sql_bool null_bool (logical_and a b null_bool) = kleene_and (sql_bool null_bool a) (sql_bool null_bool b) \<and>
    sql_bool null_bool (logical_or a b null_bool) = kleene_or (sql_bool null_bool a) (sql_bool null_bool b) \<and>
    sql_bool null_bool (logical_not a null_bool) = kleene_not (sql_bool null_bool a) \<and>
    sql_bool null_bool (cmp_nullable opsym x y null_val null_bool) =
      lift2 (cmp opsym) (sql_value null_val x) (sql_value null_val y)"
  using assms by (simp add: logical_and_kleene logical_or_kleene logical_not_kleene cmp_nullable_sql)

theorem three_valued_logic_witness:
  "sql_bool (- 128) (logical_and 0 (- 128) (- 128)) = Some False \<and>
   sql_bool (- 128) (logical_or 0 (- 128) (- 128)) = None \<and>
   sql_bool (- 128) (cmp_nullable op_lt 1 2 (- 1) (- 128)) = Some True"
  using three_valued_logic [of "- 128" 0 "- 128" op_lt 1 2 "- 1"]
  by (simp add: sql_bool_def sql_value_def lift2_def kleene_or_def)

text \<open>
  C25: on operands of an integer type of 8, 16, 32 or 64 bits whose smallest value is the NULL
  sentinel: NULL with anything is NULL; the sum, difference and product are those of the integers
  modulo the number of values of the type, so exact whenever they fit; the quotient \<open>q\<close> and the
  remainder \<open>r\<close> satisfy \<open>a = q * b + r\<close> with a remainder smaller than the divisor and of the sign of
  the dividend; a divisor 0 traps, except in \<open>safe_div\<close>, which returns NULL and never traps.  The
  one-sided variants agree with the two-sided one when the operand they do not test is not NULL.
\<close>

theorem nullable_arithmetic:
  assumes "half \<in> {128, 32768, 2147483648, 9223372036854775808}" "in_s half a" "in_s half b"
  defines "null \<equiv> - half"
  shows "(a = null \<or> b = null \<longrightarrow> arith_nullable half opsym a b null = Inr null) \<and>
    (a \<noteq> null \<and> b \<noteq> null \<longrightarrow>
      (\<exists>s d p. arith_nullable half op_add a b null = Inr s \<and> in_s half s \<and> 2 * half dvd s - (a + b) \<and>
        arith_nullable half op_sub a b null = Inr d \<and> in_s half d \<and> 2 * half dvd d - (a - b) \<and>
        arith_nullable half op_mul a b null = Inr p \<and> in_s half p \<and> 2 * half dvd p - a * b) \<and>
      (if b = 0 then arith_nullable half op_div a b null = Inl DivisionTrap \<and> arith_nullable half op_mod a b null = Inl DivisionTrap
       else \<exists>q r. arith_nullable half op_div a b null = Inr q \<and> arith_nullable half op_mod a b null = Inr r \<and>
         safe_div half a b null = Inr q \<and> a = q * b + r \<and> \<bar>r\<bar> < \<bar>b\<bar> \<and> 0 \<le> r * a)) \<and>
    (a = null \<or> b = null \<or> b = 0 \<longrightarrow> safe_div half a b null = Inr null) \<and>
    (b \<noteq> null \<longrightarrow> arith_nullable_lhs half opsym a b null = arith_nullable half opsym a b null) \<and>
    (a \<noteq> null \<longrightarrow> arith_nullable_rhs half opsym a b null = arith_nullable half opsym a b null)"
proof -
  have half: "0 < half" using assms(1) by auto
  have null: "wrap_s half null = null" using half by (intro wrap_s_in_s) (simp add: in_s_def null_def)
  have wrap: "in_s half (wrap_s half z) \<and> 2 * half dvd wrap_s half z - z" for z by (rule wrap_s_congruent [OF half])
  have quot: "\<exists>q r. arith_nullable half op_div a b null = Inr q \<and> arith_nullable half op_mod a b null = Inr r \<and>
      safe_div half a b null = Inr q \<and> a = q * b + r \<and> \<bar>r\<bar> < \<bar>b\<bar> \<and> 0 \<le> r * a" if ab: "a \<noteq> null" "b \<noteq> null" "b \<noteq> 0"
  proof -
    have a: "\<bar>a\<bar> < half" and b: "\<bar>b\<bar> < half" using assms(2,3) ab by (auto simp: in_s_def null_def)
    note t = truncated_division [OF ab(3), of a]
    have w: "wrap_s half (a sdiv b) = a sdiv b" "wrap_s half (a smod b) = a smod b"
      using t(3,4) a b by (intro wrap_s_in_s; simp add: in_s_def; linarith)+
    have "\<not> division_traps half a b" using ab by (simp add: division_traps_def null_def)
    then show ?thesis
      using ab w t by (intro exI [of _ "a sdiv b"] exI [of _ "a smod b"]) (simp add: arith_nullable_def safe_div_def arith_value_def)
  qed
  have "\<exists>s d p. arith_nullable half op_add a b null = Inr s \<and> in_s half s \<and> 2 * half dvd s - (a + b) \<and>
      arith_nullable half op_sub a b null = Inr d \<and> in_s half d \<and> 2 * half dvd d - (a - b) \<and>
      arith_nullable half op_mul a b null = Inr p \<and> in_s half p \<and> 2 * half dvd p - a * b" if "a \<noteq> null" "b \<noteq> null"
    using that wrap by (auto simp: arith_nullable_def arith_value_def)
  moreover have "arith_nullable half op_div a 0 null = Inl DivisionTrap" "arith_nullable half op_mod a 0 null = Inl DivisionTrap"
    if "a \<noteq> null" using that half by (simp_all add: arith_nullable_def arith_value_def division_traps_def null_def)
  moreover have "a = null \<or> b = null \<Longrightarrow> arith_nullable half opsym a b null = Inr null"
    "a = null \<or> b = null \<or> b = 0 \<Longrightarrow> safe_div half a b null = Inr null"
    "b \<noteq> null \<Longrightarrow> arith_nullable_lhs half opsym a b null = arith_nullable half opsym a b null"
    "a \<noteq> null \<Longrightarrow> arith_nullable_rhs half opsym a b null = arith_nullable half opsym a b null"
    using null by (auto simp: arith_nullable_def arith_nullable_lhs_def arith_nullable_rhs_def safe_div_def)
  ultimately show ?thesis using quot by simp
qed

theorem nullable_arithmetic_witness:
  "\<exists>s q r. arith_nullable 128 op_add (- 7) 2 (- 128) = Inr s \<and> 256 dvd s + 5 \<and> arith_nullable 128 op_div (- 7) 2 (- 128) = Inr q \<and>
     arith_nullable 128 op_mod (- 7) 2 (- 128) = Inr r \<and> - 7 = q * 2 + r \<and> \<bar>r\<bar> < 2 \<and> 0 \<le> r * (- 7)"
  using nullable_arithmetic [of 128 "- 7" 2 op_add] by (auto simp: in_s_def)

text \<open>
  C35: \<open>scale_decimal_down\<close> divides by the scale and rounds to the nearest integer, halves away
  from zero: the result for \<open>x \<ge> 0\<close> is the integer part of \<open>x / scale + 1 / 2\<close>, so a half is rounded up,
  and negation commutes with it; in particular the result is off by at most half a unit.
\<close>

theorem scale_decimal_down_rounds:
  assumes "\<bar>x\<bar> \<le> 4611686018427387904" "0 < scale" "scale \<le> 4611686018427387904"
  shows "scale_decimal_down x scale = sgn x * ((2 * \<bar>x\<bar> + scale) div (2 * scale)) \<and>
    scale_decimal_down (- x) scale = - scale_decimal_down x scale \<and>
    2 * \<bar>x - scale * scale_decimal_down x scale\<bar> \<le> scale"
proof -
  have pos: "scale_decimal_down z scale = (2 * z + scale) div (2 * scale)" "2 * \<bar>z - scale * scale_decimal_down z scale\<bar> \<le> scale"
    if "0 \<le> z" "z \<le> 4611686018427387904" for z
    using scale_decimal_down_pos [OF that assms(2,3)] half_up [OF assms(2), of z] by simp_all
  consider "0 < x" | "x = 0" | "x < 0" by linarith
  then show ?thesis
  proof cases
    case 1
    then show ?thesis using pos [of x] scale_decimal_down_neg [of "- x" scale] assms by simp
  next
    case 2
    then show ?thesis using pos [of 0] assms(2) by simp
  next
    case 3
    then have n: "scale_decimal_down x scale = - scale_decimal_down (- x) scale" using assms by (intro scale_decimal_down_neg) simp_all
    have "\<bar>x - scale * - k\<bar> = \<bar>- x - scale * k\<bar>" for k by (simp add: abs_minus_commute)
    then show ?thesis using 3 pos [of "- x"] n assms by simp
  qed
qed

theorem scale_decimal_down_rounds_witness: "scale_decimal_down 25 10 = 3 \<and> scale_decimal_down (- 25) 10 = - 3"
  using scale_decimal_down_rounds [of 25 10] by simp

text \<open>
  C36: \<open>decimal_floor\<close> and \<open>decimal_ceil\<close> return the largest multiple of the scale not above, and
  the smallest not below, the operand, for operands of either sign.
\<close>

theorem decimal_floor_ceil:
  assumes "\<bar>x\<bar> \<le> 4611686018427387904" "0 < scale" "scale \<le> 4611686018427387904"
  shows "decimal_floor x scale = scale * (x div scale) \<and> decimal_ceil x scale = - (scale * (- x div scale))"
proof
  show f: "decimal_floor x scale = scale * (x div scale)" by (rule decimal_floor_eq [OF assms])
  define q r where "q = x div scale" and "r = x mod scale"
  have x: "x = scale * q + r" "0 \<le> r" "r < scale" using assms(2) by (simp_all add: q_def r_def)
  have z: "x smod scale = 0 \<longleftrightarrow> r = 0"
    using assms(2) smod_neg [of x scale] smod_nonneg [of x scale]
    by (cases "x < 0") (simp_all add: r_def mod_eq_0_iff_dvd)
  have c: "- x div scale = (if r = 0 then - q else - q - 1)"
    by (rule div_eqI) (use x in \<open>auto simp: algebra_simps\<close>)
  have "s64 (scale * q + (if r \<noteq> 0 then scale else 0)) = scale * q + (if r \<noteq> 0 then scale else 0)"
    using x assms by (intro wrap_s_id) (auto simp: abs_le_iff)
  then show "decimal_ceil x scale = - (scale * (- x div scale))"
    unfolding decimal_ceil_def f q_def [symmetric] c using z by (auto simp: algebra_simps)
qed

theorem decimal_floor_ceil_witness: "decimal_floor (- 250) 100 = - 300 \<and> decimal_ceil (- 250) 100 = - 200"
  using decimal_floor_ceil [of "- 250" 100] by simp

text \<open>
  Packing a pointer and a length into one word and extracting them again returns both,
  for 48-bit pointers and lengths below 32768; longer strings do not survive the packing.
\<close>

theorem string_pack_roundtrip:
  assumes "ptr AND 0xffffffffffff = ptr" "- 32768 \<le> len" "len < 32768"
  shows "extract_str_ptr (string_pack ptr len) = ptr \<and> extract_str_len (string_pack ptr len) = len"
  using assms by (simp add: extract_str_ptr_pack extract_str_len_pack)

theorem string_pack_roundtrip_witness:
  "extract_str_ptr (string_pack 0x7fff12345678 11) = 0x7fff12345678 \<and> extract_str_len (string_pack 0x7fff12345678 11) = 11"
  using string_pack_roundtrip [of "0x7fff12345678" 11] by simp

text \<open>
  Writing a null bit and reading it back gives the null flag with \<open>set_null_vector_bit\<close>, but
  its complement with \<open>set_null_vector_bit_opt\<close>, which the code generator substitutes for it.
\<close>

theorem null_vector_bit_read_back:
  assumes "i < 8 * length bv" "i < 2048"
  shows "check_bit_vector_clear (set_null_vector_bit bv i is_null) i = is_null \<and>
    check_bit_vector_clear (set_null_vector_bit_opt bv i is_null) i = (\<not> is_null)"
proof
  have "set_null_vector_bit bv i is_null = putBitAt bv i (\<not> is_null)"
    by (simp add: set_null_vector_bit_def putBitAt_def)
  then show "check_bit_vector_clear (set_null_vector_bit bv i is_null) i = is_null"
    by (simp add: check_bit_vector_clear_def bv.get_put_same [OF assms(1)])
  have d: "i div 8 < length bv" "i div 8 mod 2 ^ 8 = i div 8" "i mod 8 < 8"
    using assms by (simp_all add: less_mult_imp_div_less mult.commute)
  have "isBitSetAt (setBitAtUnified bv i is_null) i = is_null"
    unfolding setBitAtUnified_def Let_def d(2) using d(1,3)
    by (auto simp: isBitSetAt_bit bit_or_iff bit_and_iff bit_not_iff bit_exp_iff)
  then show "check_bit_vector_clear (set_null_vector_bit_opt bv i is_null) i = (\<not> is_null)"
    by (simp add: check_bit_vector_clear_def set_null_vector_bit_opt_def)
qed

theorem null_vector_bit_read_back_witness:
  "check_bit_vector_clear (set_null_vector_bit [255] 3 True) 3 \<and> \<not> check_bit_vector_clear (set_null_vector_bit_opt [255] 3 True) 3"
  using null_vector_bit_read_back [of 3 "[255]" True] by simp

end
