(* ===== verification/Agg_Runtime.thy ===== *)
theory Agg_Runtime
  imports Cider_Prelude
begin

text \<open>
  The integer aggregators and the error-code protocol of \<open>function/scalar/RuntimeFunctions.cpp\<close>.
  An aggregator updates one slot in place: it is a function from the old contents of the slot
  and the value of the row to the new contents, paired with the returned value when the source
  returns one.  SQL NULL is a sentinel (\<open>skip_val\<close>).  A macro that the source instantiates at
  several widths is one definition; the operands are in the range of the width.
\<close>

section \<open>Aggregators\<close>

definition agg_count :: "int \<Rightarrow> int \<Rightarrow> int \<times> int" where
  "agg_count agg val = (u64 (agg + 1), agg)"

definition agg_sum :: "int \<Rightarrow> int \<Rightarrow> int \<times> int" where
  "agg_sum agg val = (let old = agg in (s64 (agg + val), old))"

definition agg_max :: "int \<Rightarrow> int \<Rightarrow> int" where
  "agg_max agg val = max agg val"

definition agg_min :: "int \<Rightarrow> int \<Rightarrow> int" where
  "agg_min agg val = min agg val"

definition agg_id :: "int \<Rightarrow> int \<Rightarrow> int" where
  "agg_id agg val = val"

text \<open>The new buffer and the index that the returned pointer has in it.\<close>

definition agg_id_varlen :: "'b list \<Rightarrow> nat \<Rightarrow> 'b list \<Rightarrow> nat \<Rightarrow> 'b list \<times> nat" where
  "agg_id_varlen varlen_buffer offset value size_bytes =
     (fold (\<lambda>i buf. buf[offset + i := value ! i]) [0..<size_bytes] varlen_buffer, offset)"

definition checked_single_agg_id :: "int \<Rightarrow> int \<Rightarrow> int \<Rightarrow> int \<times> int" where
  "checked_single_agg_id agg val null_val =
     (if val = null_val then (agg, 0)
      else if agg = val then (agg, 0)
      else if agg = null_val then (val, 0)
      else (agg, 15))"

definition agg_count_int32 :: "int \<Rightarrow> int \<Rightarrow> int \<times> int" where
  "agg_count_int32 agg val = (u32 (agg + 1), agg)"

definition agg_sum_int32 :: "int \<Rightarrow> int \<Rightarrow> int \<times> int" where
  "agg_sum_int32 agg val = (let old = agg in (s32 (agg + val), old))"

definition agg_max_int :: "int \<Rightarrow> int \<Rightarrow> int" where
  "agg_max_int agg val = max agg val"

definition agg_min_int :: "int \<Rightarrow> int \<Rightarrow> int" where
  "agg_min_int agg val = min agg val"

definition agg_id_int :: "int \<Rightarrow> int \<Rightarrow> int" where
  "agg_id_int agg val = val"

definition checked_single_agg_id_int :: "int \<Rightarrow> int \<Rightarrow> int \<Rightarrow> int \<times> int" where
  "checked_single_agg_id_int agg val null_val =
     (if val = null_val then (agg, 0)
      else if agg = val then (agg, 0)
      else if agg = null_val then (val, 0)
      else (agg, 15))"

definition write_projection_int :: "int \<Rightarrow> int \<Rightarrow> int \<Rightarrow> int" where
  "write_projection_int slot val init_val = (if val \<noteq> init_val then val else slot)"

definition agg_sum_skip_val :: "int \<Rightarrow> int \<Rightarrow> int \<Rightarrow> int \<times> int" where
  "agg_sum_skip_val agg val skip_val =
     (let old = agg
      in if val \<noteq> skip_val then if old \<noteq> skip_val then agg_sum agg val else (val, old) else (agg, old))"

definition agg_sum_int32_skip_val :: "int \<Rightarrow> int \<Rightarrow> int \<Rightarrow> int \<times> int" where
  "agg_sum_int32_skip_val agg val skip_val =
     (let old = agg
      in if val \<noteq> skip_val then if old \<noteq> skip_val then agg_sum_int32 agg val else (val, old) else (agg, old))"

definition agg_count_skip_val :: "int \<Rightarrow> int \<Rightarrow> int \<Rightarrow> int \<times> int" where
  "agg_count_skip_val agg val skip_val = (if val \<noteq> skip_val then agg_count agg val else (agg, agg))"

definition agg_count_int32_skip_val :: "int \<Rightarrow> int \<Rightarrow> int \<Rightarrow> int \<times> int" where
  "agg_count_int32_skip_val agg val skip_val = (if val \<noteq> skip_val then agg_count_int32 agg val else (agg, agg))"

text \<open>\<open>DEF_SKIP_AGG\<close> and its instances.\<close>

definition skip_agg :: "(int \<Rightarrow> int \<Rightarrow> int) \<Rightarrow> int \<Rightarrow> int \<Rightarrow> int \<Rightarrow> int" where
  "skip_agg base_agg_func agg val skip_val =
     (if val \<noteq> skip_val
      then let old_agg = agg in if old_agg \<noteq> skip_val then base_agg_func agg val else val
      else agg)"

definition agg_max_skip_val :: "int \<Rightarrow> int \<Rightarrow> int \<Rightarrow> int" where
  "agg_max_skip_val = skip_agg agg_max"

definition agg_min_skip_val :: "int \<Rightarrow> int \<Rightarrow> int \<Rightarrow> int" where
  "agg_min_skip_val = skip_agg agg_min"

definition agg_max_int_skip_val :: "int \<Rightarrow> int \<Rightarrow> int \<Rightarrow> int" where
  "agg_max_int_skip_val = skip_agg agg_max_int"

definition agg_min_int_skip_val :: "int \<Rightarrow> int \<Rightarrow> int \<Rightarrow> int" where
  "agg_min_int_skip_val = skip_agg agg_min_int"

section \<open>Positions and error codes\<close>

text \<open>A null pointer is \<^term>\<open>None\<close>; the result is the new array and the returned position.\<close>

definition pos_start_impl :: "int list option \<Rightarrow> int list option \<times> int" where
  "pos_start_impl error_code =
     (case error_code of None \<Rightarrow> (None, 0) | Some codes \<Rightarrow> (Some (codes[0 := 0]), codes ! 0))"

definition group_buff_idx_impl :: int where
  "group_buff_idx_impl = snd (pos_start_impl None)"

definition pos_step_impl :: int where
  "pos_step_impl = 1"

definition record_error_code :: "int \<Rightarrow> int list \<Rightarrow> int list" where
  "record_error_code err_code error_codes =
     (let pos = nat (snd (pos_start_impl None))
      in if err_code \<noteq> 0 \<and> error_codes ! pos \<le> 0 then error_codes[pos := err_code] else error_codes)"

definition get_error_code :: "int list \<Rightarrow> int" where
  "get_error_code error_codes = error_codes ! nat (snd (pos_start_impl None))"

section \<open>Interrupts\<close>

datatype interrupt_command = INT_CHECK | INT_ABORT | INT_RESET

text \<open>The static flag is the state.\<close>

fun check_interrupt_init :: "bool \<Rightarrow> interrupt_command \<Rightarrow> bool \<times> bool" where
  "check_interrupt_init flag INT_CHECK = (flag, if flag then True else False)"
| "check_interrupt_init flag INT_ABORT = (True, False)"
| "check_interrupt_init flag INT_RESET = (False, False)"

definition check_interrupt :: "bool \<Rightarrow> bool \<times> bool" where
  "check_interrupt flag =
     (let (flag', r) = check_interrupt_init flag INT_CHECK in (flag', if r then True else False))"

section \<open>Selective aggregators\<close>

lemma skip_agg_simps:
  "skip_agg f a skip skip = a" "v \<noteq> skip \<Longrightarrow> skip_agg f skip v skip = v"
  "v \<noteq> skip \<Longrightarrow> a \<noteq> skip \<Longrightarrow> skip_agg f a v skip = f a v"
  by (simp_all add: skip_agg_def)

text \<open>
  What the NULL-skipping wrapper needs of the function it wraps: the result is one of the two
  operands, so that it never produces the sentinel by itself.
\<close>

locale selective_agg =
  fixes base :: "int \<Rightarrow> int \<Rightarrow> int"
  assumes selective: "base a b = a \<or> base a b = b"
begin

lemma skip_fold_from:
  "a \<noteq> skip \<Longrightarrow>
   foldl (\<lambda>a v. skip_agg base a v skip) a vs = foldl base a (filter (\<lambda>v. v \<noteq> skip) vs)"
proof (induction vs arbitrary: a)
  case (Cons v vs)
  then show ?case using selective [of a v] by (cases "v = skip") (auto simp: skip_agg_simps)
qed simp

lemma skip_fold:
  "foldl (\<lambda>a v. skip_agg base a v skip) skip vs =
   (case filter (\<lambda>v. v \<noteq> skip) vs of [] \<Rightarrow> skip | n # ns \<Rightarrow> foldl base n ns)"
proof (induction vs)
  case (Cons v vs)
  then show ?case by (cases "v = skip") (simp_all add: skip_agg_simps skip_fold_from)
qed simp

end

interpretation max_agg: selective_agg agg_max by unfold_locales (simp add: agg_max_def max_def)

interpretation min_agg: selective_agg agg_min by unfold_locales (simp add: agg_min_def min_def)

interpretation max_int_agg: selective_agg agg_max_int by unfold_locales (simp add: agg_max_int_def max_def)

interpretation min_int_agg: selective_agg agg_min_int by unfold_locales (simp add: agg_min_int_def min_def)

lemma foldl_max: "foldl max n ns = Max (set (n # ns))" for n :: int
  by (simp add: Max.set_eq_fold fold_map foldl_conv_fold flip: list.set) (simp add: max.commute)

lemma foldl_min: "foldl min n ns = Min (set (n # ns))" for n :: int
  by (simp add: Min.set_eq_fold fold_map foldl_conv_fold flip: list.set) (simp add: min.commute)

lemma agg_fun_eq: "agg_max = max" "agg_min = min" "agg_max_int = max" "agg_min_int = min"
  by (simp_all add: fun_eq_iff agg_max_def agg_min_def agg_max_int_def agg_min_int_def)

section \<open>Sums and counts\<close>

lemma agg_sum_from:
  assumes "in_s64 (t + sum_list ns)" "\<forall>k \<le> length ns. s64 (t + sum_list (take k ns)) \<noteq> skip"
    "ns = filter (\<lambda>v. v \<noteq> skip) vs"
  shows "foldl (\<lambda>a v. fst (agg_sum_skip_val a v skip)) (s64 t) vs = t + sum_list ns"
  using assms
proof (induction vs arbitrary: t ns)
  case Nil
  then show ?case by (simp add: wrap_id)
next
  case (Cons v vs)
  show ?case
  proof (cases "v = skip")
    case True
    then show ?thesis using Cons by (simp add: agg_sum_skip_val_def)
  next
    case False
    define ms where "ms = filter (\<lambda>v. v \<noteq> skip) vs"
    have ns: "ns = v # ms" using Cons.prems(3) False by (simp add: ms_def)
    have s: "s64 t \<noteq> skip" using Cons.prems(2) [rule_format, of 0] by simp
    have "s64 ((t + v) + sum_list (take k ms)) \<noteq> skip" if "k \<le> length ms" for k
      using Cons.prems(2) [rule_format, of "Suc k"] that by (simp add: ns add.assoc)
    then have "foldl (\<lambda>a v. fst (agg_sum_skip_val a v skip)) (s64 (t + v)) vs = (t + v) + sum_list ms"
      using Cons.prems(1) by (intro Cons.IH) (simp_all add: ns ms_def add.assoc)
    then show ?thesis using False s by (simp add: ns agg_sum_skip_val_def agg_sum_def Let_def wrap_s_add_left add.assoc)
  qed
qed

lemma wrap_u_Suc: "0 < lim \<Longrightarrow> wrap_u lim (wrap_u lim x + 1) = wrap_u lim (x + 1)"
  by (simp add: wrap_u_def mod_simps)

lemma count_step:
  "fst (agg_count_skip_val (u64 c) v skip) = u64 (c + of_bool (v \<noteq> skip))"
  "fst (agg_count_int32_skip_val (u32 c) v skip) = u32 (c + of_bool (v \<noteq> skip))"
  by (simp_all add: agg_count_skip_val_def agg_count_def agg_count_int32_skip_val_def agg_count_int32_def wrap_u_Suc)

lemma count_from:
  "foldl (\<lambda>a v. fst (agg_count_skip_val a v skip)) (u64 c) vs = u64 (c + int (length (filter (\<lambda>v. v \<noteq> skip) vs)))"
  by (induction vs arbitrary: c) (simp_all add: count_step add.assoc)

lemma count_int32_from:
  "foldl (\<lambda>a v. fst (agg_count_int32_skip_val a v skip)) (u32 c) vs = u32 (c + int (length (filter (\<lambda>v. v \<noteq> skip) vs)))"
  by (induction vs arbitrary: c) (simp_all add: count_step add.assoc)

text \<open>
  The slot doubles as the NULL marker: when a partial sum equals the sentinel the next value
  starts the sum afresh, although the exact total would fit.
\<close>

lemma agg_sum_restarts:
  "foldl (\<lambda>a v. fst (agg_sum_skip_val a v (- 9223372036854775808))) (- 9223372036854775808)
     [- 9223372036854775807, - 1, 7] = 7"
  by (simp add: agg_sum_skip_val_def agg_sum_def wrap_s_def)

section \<open>The single-value aggregate\<close>

text \<open>One row of a query with a single-value aggregate: the error of the row is recorded.\<close>

definition single_value_row :: "int \<Rightarrow> int \<times> int list \<Rightarrow> int \<Rightarrow> int \<times> int list" where
  "single_value_row null_val s val =
     (let (agg, err) = checked_single_agg_id (fst s) val null_val in (agg, record_error_code err (snd s)))"

lemma record_get:
  "codes \<noteq> [] \<Longrightarrow> get_error_code (record_error_code e codes) =
     (if e \<noteq> 0 \<and> get_error_code codes \<le> 0 then e else get_error_code codes)"
  by (cases codes) (simp_all add: record_error_code_def get_error_code_def pos_start_impl_def)

lemma record_Cons: "record_error_code e (c # cs) = (if e \<noteq> 0 \<and> c \<le> 0 then e else c) # cs"
  by (simp add: record_error_code_def pos_start_impl_def)

lemma single_value_step:
  "single_value_row null (a, c # cs) v =
     (if v = null \<or> a = v then (a, c # cs)
      else if a = null then (v, c # cs)
      else (a, (if c \<le> 0 then 15 else c) # cs))"
  by (simp add: single_value_row_def checked_single_agg_id_def record_Cons)

lemma single_value_from:
  "a \<noteq> null \<Longrightarrow> c \<in> {0, 15} \<Longrightarrow>
   foldl (single_value_row null) (a, c # cs) vs =
     (a, (if set vs \<subseteq> {a, null} then c else 15) # cs)"
proof (induction vs arbitrary: c)
  case (Cons v vs)
  have "foldl (single_value_row null) (a, c' # cs) vs = (a, (if set vs \<subseteq> {a, null} then c' else 15) # cs)"
    if "c' \<in> {0, 15}" for c' using Cons.IH [OF Cons.prems(1) that] .
  then show ?case using Cons.prems by (cases "v = null \<or> a = v") (auto simp: single_value_step)
qed simp

lemma single_value_run:
  "foldl (single_value_row null) (null, 0 # cs) vs =
   (case filter (\<lambda>v. v \<noteq> null) vs of [] \<Rightarrow> (null, 0 # cs)
    | n # ns \<Rightarrow> (n, (if set ns \<subseteq> {n} then 0 else 15) # cs))"
proof (induction vs)
  case (Cons v vs)
  show ?case
  proof (cases "v = null")
    case True
    then show ?thesis using Cons by (simp add: single_value_step)
  next
    case False
    have "set vs \<subseteq> {v, null} \<longleftrightarrow> set (filter (\<lambda>v. v \<noteq> null) vs) \<subseteq> {v}" by auto
    then show ?thesis using False by (simp add: single_value_step single_value_from)
  qed
qed simp

section \<open>Properties\<close>

text \<open>
  C37: starting from the NULL sentinel, the NULL-skipping MAX and MIN aggregators compute the
  maximum and the minimum of the non-NULL values of the rows, at every width, and NULL when
  there is none.
\<close>

theorem max_min_skip_null:
  "let ns = filter (\<lambda>v. v \<noteq> skip) vs; agg = (\<lambda>f. foldl (\<lambda>a v. f a v skip) skip vs)
   in agg agg_max_skip_val = (if ns = [] then skip else Max (set ns)) \<and>
      agg agg_min_skip_val = (if ns = [] then skip else Min (set ns)) \<and>
      agg agg_max_int_skip_val = (if ns = [] then skip else Max (set ns)) \<and>
      agg agg_min_int_skip_val = (if ns = [] then skip else Min (set ns))"
  unfolding Let_def agg_max_skip_val_def agg_min_skip_val_def agg_max_int_skip_val_def agg_min_int_skip_val_def
    max_agg.skip_fold min_agg.skip_fold max_int_agg.skip_fold min_int_agg.skip_fold
  by (simp add: agg_fun_eq foldl_max foldl_min split: list.split del: set_filter)

text \<open>
  C26: the NULL-skipping SUM is the exact sum of the non-NULL values, and NULL when there is
  none, as long as the total fits in 64 bits and no partial sum wraps to the sentinel; COUNT
  is the number of the non-NULL values modulo its width.
\<close>

theorem sum_count_skip_null:
  assumes "in_s64 (sum_list ns)" "\<forall>k \<le> length ns. 0 < k \<longrightarrow> s64 (sum_list (take k ns)) \<noteq> skip"
    "ns = filter (\<lambda>v. v \<noteq> skip) vs" "\<forall>v \<in> set vs. in_s64 v"
  shows "foldl (\<lambda>a v. fst (agg_sum_skip_val a v skip)) skip vs = (if ns = [] then skip else sum_list ns) \<and>
    foldl (\<lambda>a v. fst (agg_count_skip_val a v skip)) 0 vs = u64 (int (length ns)) \<and>
    foldl (\<lambda>a v. fst (agg_count_int32_skip_val a v skip)) 0 vs = u32 (int (length ns))"
proof (intro conjI)
  show "foldl (\<lambda>a v. fst (agg_sum_skip_val a v skip)) skip vs = (if ns = [] then skip else sum_list ns)"
    using assms
  proof (induction vs)
    case (Cons v vs)
    show ?case
    proof (cases "v = skip")
      case False
      define ms where "ms = filter (\<lambda>v. v \<noteq> skip) vs"
      have ns: "ns = v # ms" using Cons.prems(3) False by (simp add: ms_def)
      have "s64 (v + sum_list (take k ms)) \<noteq> skip" if "k \<le> length ms" for k
        using Cons.prems(2) [rule_format, of "Suc k"] that by (simp add: ns)
      then have "foldl (\<lambda>a v. fst (agg_sum_skip_val a v skip)) (s64 v) vs = v + sum_list ms"
        using Cons.prems(1) by (intro agg_sum_from) (simp_all add: ns ms_def)
      then show ?thesis using False Cons.prems(4) by (simp add: ns agg_sum_skip_val_def wrap_id)
    qed (use Cons in \<open>simp add: agg_sum_skip_val_def\<close>)
  qed simp
  show "foldl (\<lambda>a v. fst (agg_count_skip_val a v skip)) 0 vs = u64 (int (length ns))"
    using count_from [of skip 0 vs] assms(3) by (simp add: wrap_u_def)
  show "foldl (\<lambda>a v. fst (agg_count_int32_skip_val a v skip)) 0 vs = u32 (int (length ns))"
    using count_int32_from [of skip 0 vs] assms(3) by (simp add: wrap_u_def)
qed

theorem sum_count_skip_null_witness:
  "foldl (\<lambda>a v. fst (agg_sum_skip_val a v (- 9))) (- 9) [4, - 9, 3] = 7 \<and>
   foldl (\<lambda>a v. fst (agg_count_skip_val a v (- 9))) 0 [4, - 9, 3] = 2"
proof -
  have "s64 (sum_list (take k [4, 3])) \<noteq> - 9" if "k \<le> 2" for k
  proof -
    have "k = 0 \<or> k = 1 \<or> k = 2" using that by linarith
    then show ?thesis by (elim disjE) (simp_all add: wrap_s_def)
  qed
  then have p: "\<forall>k \<le> length [4, 3]. 0 < k \<longrightarrow> s64 (sum_list (take k [4, 3])) \<noteq> - 9" by simp
  have h: "in_s64 (sum_list [4, 3])" "[4, 3] = filter (\<lambda>v. v \<noteq> - 9) [4, - 9, 3 :: int]"
    "\<forall>v \<in> set [4, - 9, 3]. in_s64 v"
    by (simp_all add: in_s_def)
  show ?thesis
    using sum_count_skip_null [OF h(1) p h(2,3)] by (simp add: wrap_u_def del: foldl.simps)
qed

text \<open>
  C40: the single-value aggregate keeps the first non-NULL value, and the error code recorded
  for the query is 15 exactly when two non-NULL values differ; a positive code that was
  recorded earlier is never overridden, by this or by any other error.
\<close>

theorem single_value_error:
  assumes "codes \<noteq> []"
  shows "foldl (single_value_row null) (null, 0 # cs) vs =
     (case filter (\<lambda>v. v \<noteq> null) vs of [] \<Rightarrow> (null, 0 # cs)
      | n # ns \<Rightarrow> (n, (if \<exists>m \<in> set ns. m \<noteq> n then 15 else 0) # cs)) \<and>
    (0 < get_error_code codes \<longrightarrow> get_error_code (record_error_code e codes) = get_error_code codes) \<and>
    (get_error_code codes \<le> 0 \<longrightarrow> e \<noteq> 0 \<longrightarrow> get_error_code (record_error_code e codes) = e)"
  unfolding single_value_run using assms by (auto simp: record_get split: list.split)

theorem single_value_error_witness:
  "foldl (single_value_row (- 1)) (- 1, [0]) [- 1, 5, 5, - 1] = (5, [0]) \<and>
   foldl (single_value_row (- 1)) (- 1, [0]) [5, - 1, 6] = (5, [15]) \<and> get_error_code (record_error_code (- 3) [7]) = 7"
  using single_value_error [of "[7]" "- 1" "[]" "[- 1, 5, 5, - 1]" "- 3"]
    single_value_error [of "[7]" "- 1" "[]" "[5, - 1, 6]" "- 3"]
  by (simp add: get_error_code_def pos_start_impl_def)

end
