(* ===== verification/SQL_Types.thy ===== *)
theory SQL_Types
  imports Bit_Utils
begin

text \<open>
  \<open>type/data/sqltypes.h\<close> and \<open>type/data/InlineNullValues.h\<close>: the SQL types, their storage sizes,
  the predicates and the casts on them, and the NULL sentinels of the integer types.  The
  fields of a \<open>SQLTypeInfo\<close> are read by the getters of the source, which are the selectors of
  the datatype.  \<open>assert\<close> has no effect (release builds) and \<open>UNREACHABLE()\<close> only logs, so control
  continues after both; a failed \<open>CHECK\<close> aborts and is the error \<open>CheckFailed\<close>.
\<close>

section \<open>Types and encodings\<close>

datatype SQLTypes =
  kNULLT | kBOOLEAN | kCHAR | kVARCHAR | kNUMERIC | kDECIMAL | kINT | kSMALLINT | kFLOAT | kDOUBLE
| kTIME | kTIMESTAMP | kBIGINT | kTEXT | kDATE | kARRAY | kINTERVAL_DAY_TIME | kINTERVAL_YEAR_MONTH
| kTINYINT | kEVAL_CONTEXT_TYPE | kVOID | kCURSOR | kCOLUMN | kCOLUMN_LIST | kSTRUCT | kSQLTYPE_LAST

text \<open>The numeric values of the enumerators; 19 to 23 are not used.\<close>

fun SQLTypes_value :: "SQLTypes \<Rightarrow> nat" where
  "SQLTypes_value kNULLT = 0"
| "SQLTypes_value kBOOLEAN = 1"
| "SQLTypes_value kCHAR = 2"
| "SQLTypes_value kVARCHAR = 3"
| "SQLTypes_value kNUMERIC = 4"
| "SQLTypes_value kDECIMAL = 5"
| "SQLTypes_value kINT = 6"
| "SQLTypes_value kSMALLINT = 7"
| "SQLTypes_value kFLOAT = 8"
| "SQLTypes_value kDOUBLE = 9"
| "SQLTypes_value kTIME = 10"
| "SQLTypes_value kTIMESTAMP = 11"
| "SQLTypes_value kBIGINT = 12"
| "SQLTypes_value kTEXT = 13"
| "SQLTypes_value kDATE = 14"
| "SQLTypes_value kARRAY = 15"
| "SQLTypes_value kINTERVAL_DAY_TIME = 16"
| "SQLTypes_value kINTERVAL_YEAR_MONTH = 17"
| "SQLTypes_value kTINYINT = 18"
| "SQLTypes_value kEVAL_CONTEXT_TYPE = 24"
| "SQLTypes_value kVOID = 25"
| "SQLTypes_value kCURSOR = 26"
| "SQLTypes_value kCOLUMN = 27"
| "SQLTypes_value kCOLUMN_LIST = 28"
| "SQLTypes_value kSTRUCT = 29"
| "SQLTypes_value kSQLTYPE_LAST = 30"

fun toString :: "SQLTypes \<Rightarrow> string" where
  "toString kNULLT = ''NULL''"
| "toString kBOOLEAN = ''BOOL''"
| "toString kCHAR = ''CHAR''"
| "toString kVARCHAR = ''VARCHAR''"
| "toString kNUMERIC = ''NUMERIC''"
| "toString kDECIMAL = ''DECIMAL''"
| "toString kINT = ''INT''"
| "toString kSMALLINT = ''SMALLINT''"
| "toString kFLOAT = ''FLOAT''"
| "toString kDOUBLE = ''DOUBLE''"
| "toString kTIME = ''TIME''"
| "toString kTIMESTAMP = ''TIMESTAMP''"
| "toString kBIGINT = ''BIGINT''"
| "toString kTEXT = ''TEXT''"
| "toString kDATE = ''DATE''"
| "toString kARRAY = ''ARRAY''"
| "toString kINTERVAL_DAY_TIME = ''DAY TIME INTERVAL''"
| "toString kINTERVAL_YEAR_MONTH = ''YEAR MONTH INTERVAL''"
| "toString kTINYINT = ''TINYINT''"
| "toString kEVAL_CONTEXT_TYPE = ''UNEVALUATED ANY''"
| "toString kVOID = ''VOID''"
| "toString kCURSOR = ''CURSOR''"
| "toString kCOLUMN = ''COLUMN''"
| "toString kCOLUMN_LIST = ''COLUMN_LIST''"
| "toString kSTRUCT = ''STRUCT''"
| "toString kSQLTYPE_LAST = ''''"

datatype EncodingType =
  kENCODING_NONE | kENCODING_FIXED | kENCODING_RL | kENCODING_DIFF | kENCODING_DICT | kENCODING_SPARSE
| kENCODING_DATE_IN_DAYS | kENCODING_LAST

definition IS_INTEGER :: "SQLTypes \<Rightarrow> bool" where
  "IS_INTEGER T \<longleftrightarrow> T = kINT \<or> T = kSMALLINT \<or> T = kBIGINT \<or> T = kTINYINT"

definition IS_NUMBER :: "SQLTypes \<Rightarrow> bool" where
  "IS_NUMBER T \<longleftrightarrow> T = kINT \<or> T = kSMALLINT \<or> T = kDOUBLE \<or> T = kFLOAT \<or> T = kBIGINT \<or> T = kNUMERIC \<or>
     T = kDECIMAL \<or> T = kTINYINT"

definition IS_STRING :: "SQLTypes \<Rightarrow> bool" where
  "IS_STRING T \<longleftrightarrow> T = kTEXT \<or> T = kVARCHAR \<or> T = kCHAR"

definition IS_INTERVAL :: "SQLTypes \<Rightarrow> bool" where
  "IS_INTERVAL T \<longleftrightarrow> T = kINTERVAL_DAY_TIME \<or> T = kINTERVAL_YEAR_MONTH"

definition TRANSIENT_DICT :: "int \<Rightarrow> int" where
  "TRANSIENT_DICT ID = - ID"

definition is_datetime :: "SQLTypes \<Rightarrow> bool" where
  "is_datetime type \<longleftrightarrow> type = kTIME \<or> type = kTIMESTAMP \<or> type = kDATE"

section \<open>SQLTypeInfo\<close>

datatype SQLTypeInfo =
  SQLTypeInfo (get_type: SQLTypes) (get_subtype: SQLTypes) (get_dimension: int) (get_scale: int)
    (get_notnull: bool) (get_compression: EncodingType) (get_comp_param: int) (get_size: int)
    (children: "SQLTypeInfo list")

fun set_type :: "SQLTypeInfo \<Rightarrow> SQLTypes \<Rightarrow> SQLTypeInfo" where
  "set_type (SQLTypeInfo t st d s n c p sz ch) t' = SQLTypeInfo t' st d s n c p sz ch"

fun set_subtype :: "SQLTypeInfo \<Rightarrow> SQLTypes \<Rightarrow> SQLTypeInfo" where
  "set_subtype (SQLTypeInfo t st d s n c p sz ch) st' = SQLTypeInfo t st' d s n c p sz ch"

fun set_dimension :: "SQLTypeInfo \<Rightarrow> int \<Rightarrow> SQLTypeInfo" where
  "set_dimension (SQLTypeInfo t st d s n c p sz ch) d' = SQLTypeInfo t st d' s n c p sz ch"

fun set_scale :: "SQLTypeInfo \<Rightarrow> int \<Rightarrow> SQLTypeInfo" where
  "set_scale (SQLTypeInfo t st d s n c p sz ch) s' = SQLTypeInfo t st d s' n c p sz ch"

fun set_notnull :: "SQLTypeInfo \<Rightarrow> bool \<Rightarrow> SQLTypeInfo" where
  "set_notnull (SQLTypeInfo t st d s n c p sz ch) n' = SQLTypeInfo t st d s n' c p sz ch"

fun set_size :: "SQLTypeInfo \<Rightarrow> int \<Rightarrow> SQLTypeInfo" where
  "set_size (SQLTypeInfo t st d s n c p sz ch) sz' = SQLTypeInfo t st d s n c p sz' ch"

fun set_compression :: "SQLTypeInfo \<Rightarrow> EncodingType \<Rightarrow> SQLTypeInfo" where
  "set_compression (SQLTypeInfo t st d s n c p sz ch) c' = SQLTypeInfo t st d s n c' p sz ch"

fun set_comp_param :: "SQLTypeInfo \<Rightarrow> int \<Rightarrow> SQLTypeInfo" where
  "set_comp_param (SQLTypeInfo t st d s n c p sz ch) p' = SQLTypeInfo t st d s n c p' sz ch"

text \<open>
  The encodings that the integer types admit, and the storage size of a type; -1 is variable
  size.  A date in days with an unknown parameter falls through to -1.
\<close>

definition int_storage_size :: "EncodingType \<Rightarrow> int \<Rightarrow> int \<Rightarrow> int" where
  "int_storage_size compression comp_param bytes =
     (case compression of kENCODING_NONE \<Rightarrow> bytes
      | kENCODING_FIXED \<Rightarrow> comp_param sdiv 8
      | kENCODING_SPARSE \<Rightarrow> comp_param sdiv 8
      | _ \<Rightarrow> - 1)"

definition get_storage_size :: "SQLTypeInfo \<Rightarrow> int" where
  "get_storage_size ti =
     (let type = get_type ti; compression = get_compression ti; comp_param = get_comp_param ti
      in if type = kBOOLEAN \<or> type = kTINYINT then 1
         else if type = kSMALLINT then int_storage_size compression comp_param 2
         else if type = kINT then int_storage_size compression comp_param 4
         else if type = kBIGINT \<or> type = kNUMERIC \<or> type = kDECIMAL then int_storage_size compression comp_param 8
         else if type = kFLOAT then if compression = kENCODING_NONE then 4 else - 1
         else if type = kDOUBLE then if compression = kENCODING_NONE then 8 else - 1
         else if type = kDATE then 4
         else if type = kTIMESTAMP \<or> type = kTIME \<or> type = kINTERVAL_DAY_TIME \<or> type = kINTERVAL_YEAR_MONTH
         then (case compression of kENCODING_NONE \<Rightarrow> 8
               | kENCODING_FIXED \<Rightarrow> comp_param sdiv 8
               | kENCODING_DATE_IN_DAYS \<Rightarrow>
                   if comp_param = 0 then 4 else if comp_param = 16 \<or> comp_param = 32 then comp_param sdiv 8 else - 1
               | _ \<Rightarrow> - 1)
         else if type = kTEXT \<or> type = kVARCHAR \<or> type = kCHAR then if compression = kENCODING_DICT then 4 else - 1
         else - 1)"

definition set_fixed_size :: "SQLTypeInfo \<Rightarrow> SQLTypeInfo" where
  "set_fixed_size ti = set_size ti (get_storage_size ti)"

text \<open>The constructors; each computes the size from the other fields.\<close>

definition SQLTypeInfo_nested :: "SQLTypes \<Rightarrow> bool \<Rightarrow> SQLTypeInfo list \<Rightarrow> SQLTypeInfo" where
  "SQLTypeInfo_nested t n c = set_fixed_size (SQLTypeInfo t kNULLT 0 0 n kENCODING_NONE 0 0 c)"

definition SQLTypeInfo_full ::
  "SQLTypes \<Rightarrow> int \<Rightarrow> int \<Rightarrow> bool \<Rightarrow> EncodingType \<Rightarrow> int \<Rightarrow> SQLTypes \<Rightarrow> SQLTypeInfo" where
  "SQLTypeInfo_full t d s n c p st = set_fixed_size (SQLTypeInfo t st d s n c p 0 [])"

definition SQLTypeInfo_dims :: "SQLTypes \<Rightarrow> int \<Rightarrow> int \<Rightarrow> bool \<Rightarrow> SQLTypeInfo" where
  "SQLTypeInfo_dims t d s n = set_fixed_size (SQLTypeInfo t kNULLT d s n kENCODING_NONE 0 0 [])"

definition SQLTypeInfo_enc :: "SQLTypes \<Rightarrow> EncodingType \<Rightarrow> int \<Rightarrow> SQLTypes \<Rightarrow> SQLTypeInfo" where
  "SQLTypeInfo_enc t c p st = set_fixed_size (SQLTypeInfo t st 0 0 False c p 0 [])"

definition SQLTypeInfo_null :: "SQLTypes \<Rightarrow> bool \<Rightarrow> SQLTypeInfo" where
  "SQLTypeInfo_null t n = set_fixed_size (SQLTypeInfo t kNULLT 0 0 n kENCODING_NONE 0 0 [])"

definition SQLTypeInfo_plain :: "SQLTypes \<Rightarrow> SQLTypeInfo" where
  "SQLTypeInfo_plain t = SQLTypeInfo_null t False"

definition SQLTypeInfo_default :: SQLTypeInfo where
  "SQLTypeInfo_default = SQLTypeInfo kNULLT kNULLT 0 0 False kENCODING_NONE 0 0 []"

definition get_logical_size :: "SQLTypeInfo \<Rightarrow> int" where
  "get_logical_size ti =
     (if get_compression ti = kENCODING_FIXED \<or> get_compression ti = kENCODING_DATE_IN_DAYS
      then get_size (SQLTypeInfo_full (get_type ti) (get_dimension ti) (get_scale ti) (get_notnull ti)
             kENCODING_NONE 0 (get_subtype ti))
      else if get_compression ti = kENCODING_DICT then 4
      else get_size ti)"

definition is_string :: "SQLTypeInfo \<Rightarrow> bool" where "is_string ti = IS_STRING (get_type ti)"

definition is_string_array :: "SQLTypeInfo \<Rightarrow> bool" where
  "is_string_array ti \<longleftrightarrow> get_type ti = kARRAY \<and> IS_STRING (get_subtype ti)"

definition is_integer :: "SQLTypeInfo \<Rightarrow> bool" where "is_integer ti = IS_INTEGER (get_type ti)"

definition is_decimal :: "SQLTypeInfo \<Rightarrow> bool" where
  "is_decimal ti \<longleftrightarrow> get_type ti = kDECIMAL \<or> get_type ti = kNUMERIC"

definition is_fp :: "SQLTypeInfo \<Rightarrow> bool" where
  "is_fp ti \<longleftrightarrow> get_type ti = kFLOAT \<or> get_type ti = kDOUBLE"

definition is_number :: "SQLTypeInfo \<Rightarrow> bool" where "is_number ti = IS_NUMBER (get_type ti)"

definition is_time :: "SQLTypeInfo \<Rightarrow> bool" where "is_time ti = is_datetime (get_type ti)"

definition is_boolean :: "SQLTypeInfo \<Rightarrow> bool" where "is_boolean ti \<longleftrightarrow> get_type ti = kBOOLEAN"

definition is_array :: "SQLTypeInfo \<Rightarrow> bool" where "is_array ti \<longleftrightarrow> get_type ti = kARRAY"

definition is_varlen_array :: "SQLTypeInfo \<Rightarrow> bool" where
  "is_varlen_array ti \<longleftrightarrow> get_type ti = kARRAY \<and> get_size ti \<le> 0"

definition is_fixlen_array :: "SQLTypeInfo \<Rightarrow> bool" where
  "is_fixlen_array ti \<longleftrightarrow> get_type ti = kARRAY \<and> 0 < get_size ti"

definition is_timeinterval :: "SQLTypeInfo \<Rightarrow> bool" where "is_timeinterval ti = IS_INTERVAL (get_type ti)"

definition is_column :: "SQLTypeInfo \<Rightarrow> bool" where "is_column ti \<longleftrightarrow> get_type ti = kCOLUMN"

definition is_column_list :: "SQLTypeInfo \<Rightarrow> bool" where "is_column_list ti \<longleftrightarrow> get_type ti = kCOLUMN_LIST"

definition is_bytes :: "SQLTypeInfo \<Rightarrow> bool" where
  "is_bytes ti \<longleftrightarrow> get_type ti = kTEXT \<and> get_compression ti = kENCODING_NONE"

definition is_buffer :: "SQLTypeInfo \<Rightarrow> bool" where
  "is_buffer ti \<longleftrightarrow> is_array ti \<or> is_column ti \<or> is_column_list ti \<or> is_bytes ti"

definition is_varlen :: "SQLTypeInfo \<Rightarrow> bool" where
  "is_varlen ti \<longleftrightarrow> (IS_STRING (get_type ti) \<and> get_compression ti \<noteq> kENCODING_DICT) \<or> get_type ti = kARRAY"

definition is_varlen_indeed :: "SQLTypeInfo \<Rightarrow> bool" where
  "is_varlen_indeed ti \<longleftrightarrow> is_varlen ti \<and> \<not> is_fixlen_array ti"

definition is_dict_encoded_string :: "SQLTypeInfo \<Rightarrow> bool" where
  "is_dict_encoded_string ti \<longleftrightarrow> is_string ti \<and> get_compression ti = kENCODING_DICT"

definition is_none_encoded_string :: "SQLTypeInfo \<Rightarrow> bool" where
  "is_none_encoded_string ti \<longleftrightarrow> is_string ti \<and> get_compression ti = kENCODING_NONE"

definition is_subtype_dict_encoded_string :: "SQLTypeInfo \<Rightarrow> bool" where
  "is_subtype_dict_encoded_string ti \<longleftrightarrow> IS_STRING (get_subtype ti) \<and> get_compression ti = kENCODING_DICT"

definition get_elem_type :: "SQLTypeInfo \<Rightarrow> SQLTypeInfo" where
  "get_elem_type ti =
     SQLTypeInfo_full (get_subtype ti) (get_dimension ti) (get_scale ti) (get_notnull ti) (get_compression ti)
       (get_comp_param ti) kNULLT"

definition get_array_type :: "SQLTypeInfo \<Rightarrow> SQLTypeInfo" where
  "get_array_type ti =
     SQLTypeInfo_full kARRAY (get_dimension ti) (get_scale ti) (get_notnull ti) (get_compression ti)
       (get_comp_param ti) (get_type ti)"

definition is_dict_encoded_type :: "SQLTypeInfo \<Rightarrow> bool" where
  "is_dict_encoded_type ti \<longleftrightarrow> is_dict_encoded_string ti \<or> (is_array ti \<and> is_dict_encoded_string (get_elem_type ti))"

definition is_date_in_days :: "SQLTypeInfo \<Rightarrow> bool" where
  "is_date_in_days ti =
     (if get_type ti = kDATE then if get_compression ti = kENCODING_DATE_IN_DAYS then True else False else False)"

definition is_date :: "SQLTypeInfo \<Rightarrow> bool" where "is_date ti \<longleftrightarrow> get_type ti = kDATE"

definition is_high_precision_timestamp :: "SQLTypeInfo \<Rightarrow> bool" where
  "is_high_precision_timestamp ti =
     (if get_type ti = kTIMESTAMP \<or> get_type ti = kTIME then if 0 < get_dimension ti then True else False else False)"

definition is_timestamp :: "SQLTypeInfo \<Rightarrow> bool" where "is_timestamp ti \<longleftrightarrow> get_type ti = kTIMESTAMP"

definition getChildrenNum :: "SQLTypeInfo \<Rightarrow> nat" where "getChildrenNum ti = length (children ti)"

fun appendChild :: "SQLTypeInfo \<Rightarrow> SQLTypeInfo \<Rightarrow> SQLTypeInfo" where
  "appendChild (SQLTypeInfo t st d s n c p sz ch) child = SQLTypeInfo t st d s n c p sz (ch @ [child])"

definition getChildAt :: "SQLTypeInfo \<Rightarrow> nat \<Rightarrow> SQLTypeInfo result" where
  "getChildAt ti index = (if index < getChildrenNum ti then Inr (children ti ! index) else Inl CheckFailed)"

definition info_neq :: "SQLTypeInfo \<Rightarrow> SQLTypeInfo \<Rightarrow> bool" where
  "info_neq l r \<longleftrightarrow> get_type l \<noteq> get_type r \<or> get_subtype l \<noteq> get_subtype r \<or>
     get_dimension l \<noteq> get_dimension r \<or> get_scale l \<noteq> get_scale r \<or> get_compression l \<noteq> get_compression r \<or>
     (get_compression l \<noteq> kENCODING_NONE \<and> get_comp_param l \<noteq> get_comp_param r \<and>
      get_comp_param l \<noteq> TRANSIENT_DICT (get_comp_param r)) \<or>
     get_notnull l \<noteq> get_notnull r"

definition info_eq :: "SQLTypeInfo \<Rightarrow> SQLTypeInfo \<Rightarrow> bool" where
  "info_eq l r \<longleftrightarrow> get_type l = get_type r \<and> get_subtype l = get_subtype r \<and>
     get_dimension l = get_dimension r \<and> get_scale l = get_scale r \<and> get_compression l = get_compression r \<and>
     (get_compression l = kENCODING_NONE \<or> get_comp_param l = get_comp_param r \<or>
      get_comp_param l = TRANSIENT_DICT (get_comp_param r)) \<and>
     get_notnull l = get_notnull r"

definition get_array_context_logical_size :: "SQLTypeInfo \<Rightarrow> int" where
  "get_array_context_logical_size ti =
     (let comp_type = get_compression ti
      in if is_string ti \<and> (comp_type = kENCODING_DICT \<or> comp_type = kENCODING_FIXED \<or> comp_type = kENCODING_NONE)
         then 4 else get_logical_size ti)"

section \<open>Casts\<close>

text \<open>The element type of an element type is \<open>kNULLT\<close>, so the recursion ends after two steps.\<close>

definition nesting :: "SQLTypeInfo \<Rightarrow> nat" where
  "nesting ti =
     (if get_type ti \<in> {kARRAY, kCOLUMN, kCOLUMN_LIST}
      then if get_subtype ti \<in> {kARRAY, kCOLUMN, kCOLUMN_LIST} then 2 else 1 else 0)"

lemma nesting_elem:
  "get_type ti \<in> {kARRAY, kCOLUMN, kCOLUMN_LIST} \<Longrightarrow> nesting (get_elem_type ti) < nesting ti"
  by (auto simp: nesting_def get_elem_type_def SQLTypeInfo_full_def set_fixed_size_def)

function is_castable :: "SQLTypeInfo \<Rightarrow> SQLTypeInfo \<Rightarrow> bool" where
  "is_castable ti nti =
     (if get_type ti = get_type nti then True
      else if is_string ti \<or> is_string nti then True
      else if is_number ti \<and> is_number nti then True
      else if (get_type ti = kTIMESTAMP \<or> get_type ti = kDATE) \<and> is_number nti then True
      else if get_type ti = kDATE \<and> get_type nti = kTIMESTAMP then True
      else if get_type ti = kTIMESTAMP \<and> get_type nti = kDATE then True
      else if get_type ti = kBOOLEAN \<and> is_number nti then True
      else if get_type ti = kARRAY \<and> get_type nti = kARRAY then is_castable (get_elem_type ti) (get_elem_type nti)
      else if get_type ti = kCOLUMN \<and> get_type nti = kCOLUMN then is_castable (get_elem_type ti) (get_elem_type nti)
      else if get_type ti = kCOLUMN_LIST \<and> get_type nti = kCOLUMN_LIST
      then is_castable (get_elem_type ti) (get_elem_type nti)
      else False)"
  by pat_completeness auto

termination by (relation "measure (\<lambda>(ti, nti). nesting ti)") (auto intro!: nesting_elem)

declare is_castable.simps [simp del]

definition is_numeric_scalar_auto_castable :: "SQLTypeInfo \<Rightarrow> SQLTypeInfo \<Rightarrow> bool" where
  "is_numeric_scalar_auto_castable ti nti =
     (let new_type = get_type nti
      in case get_type ti of
        kBOOLEAN \<Rightarrow> new_type = kBOOLEAN
      | kTINYINT \<Rightarrow> if \<not> is_number nti then False else if is_fp nti then True else get_logical_size nti \<ge> get_logical_size ti
      | kSMALLINT \<Rightarrow> if \<not> is_number nti then False else if is_fp nti then True else get_logical_size nti \<ge> get_logical_size ti
      | kINT \<Rightarrow> if \<not> is_number nti then False else if is_fp nti then True else get_logical_size nti \<ge> get_logical_size ti
      | kBIGINT \<Rightarrow> new_type = kBIGINT \<or> new_type = kDOUBLE
      | kFLOAT \<Rightarrow> if \<not> is_fp nti then False else get_logical_size nti \<ge> get_logical_size ti
      | kDOUBLE \<Rightarrow> if \<not> is_fp nti then False else get_logical_size nti \<ge> get_logical_size ti
      | kDECIMAL \<Rightarrow>
          if new_type = kDECIMAL \<or> new_type = kNUMERIC then get_dimension nti \<ge> get_dimension ti
          else if new_type = kDOUBLE then True
          else if new_type = kFLOAT then get_dimension ti \<le> 7 else False
      | kNUMERIC \<Rightarrow>
          if new_type = kDECIMAL \<or> new_type = kNUMERIC then get_dimension nti \<ge> get_dimension ti
          else if new_type = kDOUBLE then True
          else if new_type = kFLOAT then get_dimension ti \<le> 7 else False
      | kTIMESTAMP \<Rightarrow> if new_type \<noteq> kTIMESTAMP then False else get_dimension nti \<ge> get_dimension ti
      | kDATE \<Rightarrow> new_type = kDATE
      | kTIME \<Rightarrow> new_type = kTIME
      | _ \<Rightarrow> False)"

text \<open>A timestamp of any other precision falls through to the case of dates.\<close>

definition get_numeric_scalar_scale :: "SQLTypeInfo \<Rightarrow> int result" where
  "get_numeric_scalar_scale ti =
     (case get_type ti of
        kBOOLEAN \<Rightarrow> Inr 1
      | kTINYINT \<Rightarrow> Inr (get_logical_size ti)
      | kSMALLINT \<Rightarrow> Inr (get_logical_size ti)
      | kINT \<Rightarrow> Inr (get_logical_size ti)
      | kBIGINT \<Rightarrow> Inr (get_logical_size ti)
      | kFLOAT \<Rightarrow> Inr (get_logical_size ti)
      | kDOUBLE \<Rightarrow> Inr (get_logical_size ti)
      | kDECIMAL \<Rightarrow> Inr (if 7 < get_dimension ti then 8 else 4)
      | kNUMERIC \<Rightarrow> Inr (if 7 < get_dimension ti then 8 else 4)
      | kTIMESTAMP \<Rightarrow>
          if get_dimension ti = 9 then Inr 8
          else if get_dimension ti = 6 then Inr 4
          else if get_dimension ti = 3 then Inr 2
          else if get_dimension ti = 0 then Inr 1
          else Inr 1
      | kDATE \<Rightarrow> Inr 1
      | kTIME \<Rightarrow> Inr 1
      | _ \<Rightarrow> Inl CheckFailed)"

definition get_int_type_by_size :: "nat \<Rightarrow> SQLTypes" where
  "get_int_type_by_size nbytes =
     (if nbytes = 1 then kTINYINT else if nbytes = 2 then kSMALLINT else if nbytes = 4 then kINT
      else if nbytes = 8 then kBIGINT else kNULLT)"

definition get_logical_type_info :: "SQLTypeInfo \<Rightarrow> SQLTypeInfo" where
  "get_logical_type_info ti =
     (let encoding = get_compression ti;
          encoding = (if encoding = kENCODING_DATE_IN_DAYS \<or> (encoding = kENCODING_FIXED \<and> get_type ti \<noteq> kARRAY)
                      then kENCODING_NONE else encoding)
      in SQLTypeInfo_full (get_type ti) (get_dimension ti) (get_scale ti) (get_notnull ti) encoding
           (get_comp_param ti) (get_subtype ti))"

definition get_nullable_type_info :: "SQLTypeInfo \<Rightarrow> SQLTypeInfo" where
  "get_nullable_type_info ti = set_notnull ti False"

definition get_nullable_logical_type_info :: "SQLTypeInfo \<Rightarrow> SQLTypeInfo" where
  "get_nullable_logical_type_info ti = get_nullable_type_info (get_logical_type_info ti)"

definition generate_array_type :: "SQLTypes \<Rightarrow> SQLTypeInfo" where
  "generate_array_type subtype = set_subtype (SQLTypeInfo_null kARRAY False) subtype"

definition generate_column_type :: "SQLTypes \<Rightarrow> SQLTypeInfo" where
  "generate_column_type subtype = set_subtype (SQLTypeInfo_null kCOLUMN False) subtype"

definition generate_column_type_enc :: "SQLTypes \<Rightarrow> EncodingType \<Rightarrow> int \<Rightarrow> SQLTypeInfo" where
  "generate_column_type_enc subtype c p =
     set_comp_param (set_compression (set_subtype (SQLTypeInfo_null kCOLUMN False) subtype) c) p"

definition generate_column_list_type :: "SQLTypes \<Rightarrow> SQLTypeInfo" where
  "generate_column_list_type subtype = set_subtype (SQLTypeInfo_null kCOLUMN_LIST False) subtype"

section \<open>Sizes and casts\<close>

lemma SQLTypeInfo_dims_sel [simp]:
  "get_type (SQLTypeInfo_dims t d s n) = t" "get_dimension (SQLTypeInfo_dims t d s n) = d"
  "get_scale (SQLTypeInfo_dims t d s n) = s" "get_notnull (SQLTypeInfo_dims t d s n) = n"
  "get_compression (SQLTypeInfo_dims t d s n) = kENCODING_NONE" "get_comp_param (SQLTypeInfo_dims t d s n) = 0"
  by (simp_all add: SQLTypeInfo_dims_def set_fixed_size_def)

text \<open>The size of a type without encoding.\<close>

fun plain_size :: "SQLTypes \<Rightarrow> int" where
  "plain_size t =
     (if t \<in> {kBOOLEAN, kTINYINT} then 1 else if t = kSMALLINT then 2
      else if t \<in> {kINT, kFLOAT, kDATE} then 4
      else if t \<in> {kBIGINT, kNUMERIC, kDECIMAL, kDOUBLE, kTIMESTAMP, kTIME, kINTERVAL_DAY_TIME, kINTERVAL_YEAR_MONTH}
      then 8 else - 1)"

lemma get_size_dims [simp]: "get_size (SQLTypeInfo_dims t d s n) = plain_size t"
  by (cases t) (simp_all add: SQLTypeInfo_dims_def set_fixed_size_def get_storage_size_def int_storage_size_def)

lemma get_logical_size_dims [simp]: "get_logical_size (SQLTypeInfo_dims t d s n) = plain_size t"
  by (simp add: get_logical_size_def)

definition numeric_scalar :: "SQLTypes \<Rightarrow> bool" where
  "numeric_scalar t \<longleftrightarrow> t \<in> {kBOOLEAN, kTINYINT, kSMALLINT, kINT, kBIGINT, kFLOAT, kDOUBLE, kDECIMAL, kNUMERIC,
     kTIMESTAMP, kDATE, kTIME}"

text \<open>Auto-castability of types without encoding, as a table over the types and precisions.\<close>

definition castable_table :: "SQLTypes \<Rightarrow> int \<Rightarrow> SQLTypes \<Rightarrow> int \<Rightarrow> bool" where
  "castable_table t d t' d' =
     (if t \<in> {kTINYINT, kSMALLINT, kINT} then IS_NUMBER t' \<and> (t' \<in> {kFLOAT, kDOUBLE} \<or> plain_size t \<le> plain_size t')
      else if t \<in> {kBOOLEAN, kDATE, kTIME} then t' = t
      else if t \<in> {kBIGINT, kDOUBLE} then t' \<in> {t, kDOUBLE}
      else if t = kFLOAT then t' \<in> {kFLOAT, kDOUBLE}
      else if t \<in> {kDECIMAL, kNUMERIC}
      then (t' \<in> {kDECIMAL, kNUMERIC} \<and> d \<le> d') \<or> t' = kDOUBLE \<or> (t' = kFLOAT \<and> d \<le> 7)
      else t = kTIMESTAMP \<and> t' = kTIMESTAMP \<and> d \<le> d')"

lemma auto_castable_table:
  "is_numeric_scalar_auto_castable (SQLTypeInfo_dims t d s n) (SQLTypeInfo_dims t' d' s' n') = castable_table t d t' d'"
  by (cases t)
    (auto simp: is_numeric_scalar_auto_castable_def castable_table_def is_number_def is_fp_def IS_NUMBER_def Let_def)

lemma castable_table_trans:
  assumes "castable_table t d t' d'" "castable_table t' d' t'' d''"
  shows "castable_table t d t'' d''"
  using assms by (cases t) (auto simp: castable_table_def IS_NUMBER_def split: if_splits)

lemma is_castable_same: "get_type a = get_type b \<Longrightarrow> is_castable a b"
  by (simp add: is_castable.simps)

section \<open>Properties\<close>

text \<open>
  The equality of type descriptions is an equivalence relation, although dictionary ids
  are compared up to sign (a transient dictionary has the negated id), and \<open>!=\<close> is its
  negation.
\<close>

theorem info_eq_equivalence:
  "equivp info_eq \<and> (\<forall>a b. info_neq a b = (\<not> info_eq a b))"
proof
  show "equivp info_eq"
  proof (rule equivpI)
    show "reflp info_eq" by (simp add: reflp_def info_eq_def)
    show "symp info_eq" by (auto simp: symp_def info_eq_def TRANSIENT_DICT_def)
    show "transp info_eq" by (auto simp: transp_def info_eq_def TRANSIENT_DICT_def)
  qed
  show "\<forall>a b. info_neq a b = (\<not> info_eq a b)" by (auto simp: info_eq_def info_neq_def)
qed

text \<open>
  C39: on types without encoding the lossless cast of numeric scalars is a preorder: every
  numeric scalar type casts to itself, and casting through an intermediate type allows nothing
  that a direct cast does not.
\<close>

theorem auto_cast_preorder:
  fixes a b c
  defines "A \<equiv> (\<lambda>(t, d). SQLTypeInfo_dims t d 0 False)"
  assumes "is_numeric_scalar_auto_castable (A a) (A b)" "is_numeric_scalar_auto_castable (A b) (A c)"
  shows "is_numeric_scalar_auto_castable (A a) (A c) \<and>
    (numeric_scalar t \<longrightarrow> is_numeric_scalar_auto_castable (A (t, d)) (A (t, d)))"
proof
  show "is_numeric_scalar_auto_castable (A a) (A c)"
    using assms(2,3) castable_table_trans by (auto simp: A_def auto_castable_table split: prod.splits)
  show "numeric_scalar t \<longrightarrow> is_numeric_scalar_auto_castable (A (t, d)) (A (t, d))"
    by (auto simp: A_def auto_castable_table castable_table_def numeric_scalar_def IS_NUMBER_def)
qed

theorem auto_cast_preorder_witness:
  "is_numeric_scalar_auto_castable (SQLTypeInfo_dims kSMALLINT 0 0 False) (SQLTypeInfo_dims kDOUBLE 0 0 False)"
  using auto_cast_preorder [of "(kSMALLINT, 0)" "(kDECIMAL, 10)" "(kDOUBLE, 0)"]
  by (simp add: auto_castable_table castable_table_def IS_NUMBER_def)

text \<open>
  \<open>is_castable\<close> returns on every pair of types, and it never reaches its recursive calls:
  two array (column, column list) types are castable whatever their elements, even when the
  element types are not.
\<close>

theorem is_castable_ignores_elements:
  "(get_type a = get_type b \<longrightarrow> is_castable a b) \<and>
   (is_castable (generate_array_type kINT) (generate_array_type kDATE) \<and>
    \<not> is_castable (get_elem_type (generate_array_type kINT)) (get_elem_type (generate_array_type kDATE)))"
proof (intro conjI impI)
  show "is_castable a b" if "get_type a = get_type b" using that by (rule is_castable_same)
  show "is_castable (generate_array_type kINT) (generate_array_type kDATE)"
    by (rule is_castable_same) (simp add: generate_array_type_def SQLTypeInfo_null_def set_fixed_size_def)
  have e: "get_type (get_elem_type (generate_array_type t)) = t" for t
    by (simp add: get_elem_type_def generate_array_type_def SQLTypeInfo_null_def SQLTypeInfo_full_def set_fixed_size_def)
  show "\<not> is_castable (get_elem_type (generate_array_type kINT)) (get_elem_type (generate_array_type kDATE))"
    by (subst is_castable.simps) (simp add: e is_string_def is_number_def IS_STRING_def IS_NUMBER_def)
qed

theorem is_castable_ignores_elements_witness:
  "is_castable (generate_array_type kBOOLEAN) (generate_array_type kDATE)"
  using is_castable_ignores_elements [of "generate_array_type kBOOLEAN" "generate_array_type kDATE"]
  by (simp add: generate_array_type_def SQLTypeInfo_null_def set_fixed_size_def)

end
