(* ===== verification/Murmur_Hash.thy ===== *)
theory Murmur_Hash
  imports Bit_Utils
begin

text \<open>
  The hash functions of \<open>function/hash\<close>.  A key is the list of its bytes, whose length is the
  \<open>len\<close> argument of the source; multi-byte loads are little-endian.  Hash joins use
  \<open>MurmurHash1\<close>, group-by \<open>MurmurHash3\<close> and the approximate distinct count \<open>MurmurHash64A\<close>.
  The theorems show that on keys of one machine word the three functions are injective: every
  step of the mixing is invertible.
\<close>

section \<open>Definitions\<close>

definition load_le :: "8 word list \<Rightarrow> 'a::len word" where
  "load_le bs = foldr (\<lambda>b w. ucast b OR push_bit 8 w) bs 0"

definition rotl32 :: "32 word \<Rightarrow> nat \<Rightarrow> 32 word" where
  "rotl32 x r = push_bit r x OR drop_bit (32 - r) x"

text \<open>The loop over the blocks returns the hash and the bytes of the tail.\<close>

fun MurmurHash3_body :: "8 word list \<Rightarrow> 32 word \<Rightarrow> 32 word \<times> 8 word list" where
  "MurmurHash3_body (b0 # b1 # b2 # b3 # bs) h1 =
     (let k1 = load_le [b0, b1, b2, b3];
          k1 = k1 * 0xcc9e2d51;
          k1 = rotl32 k1 15;
          k1 = k1 * 0x1b873593;
          h1 = h1 XOR k1;
          h1 = rotl32 h1 13;
          h1 = h1 * 5 + 0xe6546b64
      in MurmurHash3_body bs h1)"
| "MurmurHash3_body tail h1 = (h1, tail)"

definition MurmurHash3_tail :: "8 word list \<Rightarrow> 32 word \<Rightarrow> 32 word" where
  "MurmurHash3_tail tail h1 =
     (let k1 = 0;
          k1 = (if 3 \<le> length tail then k1 XOR push_bit 16 (ucast (tail ! 2)) else k1);
          k1 = (if 2 \<le> length tail then k1 XOR push_bit 8 (ucast (tail ! 1)) else k1)
      in if 1 \<le> length tail
         then let k1 = k1 XOR ucast (tail ! 0);
                  k1 = k1 * 0xcc9e2d51;
                  k1 = rotl32 k1 15;
                  k1 = k1 * 0x1b873593
              in h1 XOR k1
         else h1)"

definition MurmurHash3_mix :: "32 word \<Rightarrow> 32 word" where
  "MurmurHash3_mix h1 =
     (let h1 = h1 XOR drop_bit 16 h1;
          h1 = h1 * 0x85ebca6b;
          h1 = h1 XOR drop_bit 13 h1;
          h1 = h1 * 0xc2b2ae35
      in h1 XOR drop_bit 16 h1)"

definition MurmurHash3 :: "8 word list \<Rightarrow> 32 word \<Rightarrow> 32 word" where
  "MurmurHash3 key seed =
     (let (h1, tail) = MurmurHash3_body key seed;
          h1 = MurmurHash3_tail tail h1;
          h1 = h1 XOR of_nat (length key)
      in MurmurHash3_mix h1)"

fun MurmurHash1_body :: "8 word list \<Rightarrow> 32 word \<Rightarrow> 32 word \<times> 8 word list" where
  "MurmurHash1_body (b0 # b1 # b2 # b3 # bs) h =
     (let k = load_le [b0, b1, b2, b3];
          h = h + k;
          h = h * 0xc6a4a793;
          h = h XOR drop_bit 16 h
      in MurmurHash1_body bs h)"
| "MurmurHash1_body tail h = (h, tail)"

definition MurmurHash1_tail :: "8 word list \<Rightarrow> 32 word \<Rightarrow> 32 word" where
  "MurmurHash1_tail tail h =
     (let h = (if 3 \<le> length tail then h + push_bit 16 (ucast (tail ! 2)) else h);
          h = (if 2 \<le> length tail then h + push_bit 8 (ucast (tail ! 1)) else h)
      in if 1 \<le> length tail
         then let h = h + ucast (tail ! 0);
                  h = h * 0xc6a4a793
              in h XOR drop_bit 16 h
         else h)"

definition MurmurHash1 :: "8 word list \<Rightarrow> 32 word \<Rightarrow> 32 word" where
  "MurmurHash1 key seed =
     (let h = seed XOR (of_nat (length key) * 0xc6a4a793);
          (h, tail) = MurmurHash1_body key h;
          h = MurmurHash1_tail tail h;
          h = h * 0xc6a4a793;
          h = h XOR drop_bit 10 h;
          h = h * 0xc6a4a793
      in h XOR drop_bit 17 h)"

fun MurmurHash64A_body :: "8 word list \<Rightarrow> 64 word \<Rightarrow> 64 word \<times> 8 word list" where
  "MurmurHash64A_body (b0 # b1 # b2 # b3 # b4 # b5 # b6 # b7 # bs) h =
     (let k = load_le [b0, b1, b2, b3, b4, b5, b6, b7];
          k = k * 0xc6a4a7935bd1e995;
          k = k XOR drop_bit 47 k;
          k = k * 0xc6a4a7935bd1e995;
          h = h XOR k;
          h = h * 0xc6a4a7935bd1e995
      in MurmurHash64A_body bs h)"
| "MurmurHash64A_body tail h = (h, tail)"

definition MurmurHash64A_tail :: "8 word list \<Rightarrow> 64 word \<Rightarrow> 64 word" where
  "MurmurHash64A_tail tail h =
     (let h = (if 7 \<le> length tail then h XOR push_bit 48 (ucast (tail ! 6)) else h);
          h = (if 6 \<le> length tail then h XOR push_bit 40 (ucast (tail ! 5)) else h);
          h = (if 5 \<le> length tail then h XOR push_bit 32 (ucast (tail ! 4)) else h);
          h = (if 4 \<le> length tail then h XOR push_bit 24 (ucast (tail ! 3)) else h);
          h = (if 3 \<le> length tail then h XOR push_bit 16 (ucast (tail ! 2)) else h);
          h = (if 2 \<le> length tail then h XOR push_bit 8 (ucast (tail ! 1)) else h)
      in if 1 \<le> length tail
         then (h XOR ucast (tail ! 0)) * 0xc6a4a7935bd1e995
         else h)"

definition MurmurHash64A :: "8 word list \<Rightarrow> 64 word \<Rightarrow> 64 word" where
  "MurmurHash64A key seed =
     (let h = seed XOR (of_nat (length key) * 0xc6a4a7935bd1e995);
          (h, tail) = MurmurHash64A_body key h;
          h = MurmurHash64A_tail tail h;
          h = h XOR drop_bit 47 h;
          h = h * 0xc6a4a7935bd1e995
      in h XOR drop_bit 47 h)"

section \<open>The steps of the mixing are invertible\<close>

named_theorems mix_inj \<open>injectivity of a mixing step, as an equivalence on its results\<close>

lemma xorshift_cancel [mix_inj]:
  fixes x y :: "'a::len word"
  assumes "0 < r"
  shows "x XOR drop_bit r x = y XOR drop_bit r y \<longleftrightarrow> x = y"
proof
  assume eq: "x XOR drop_bit r x = y XOR drop_bit r y"
  have "bit x n = bit y n" for n
  proof (induction "LENGTH('a) - n" arbitrary: n rule: less_induct)
    case less
    show ?case
    proof (cases "n < LENGTH('a)")
      case True
      then have "LENGTH('a) - (r + n) < LENGTH('a) - n" using assms by simp
      then have "bit x (r + n) = bit y (r + n)" by (rule less.hyps)
      moreover have "bit (x XOR drop_bit r x) n = bit (y XOR drop_bit r y) n" by (simp add: eq)
      ultimately show ?thesis by (auto simp: bit_xor_iff bit_drop_bit_eq)
    qed (auto dest: bit_imp_le_length)
  qed
  then show "x = y" by (simp add: bit_eq_iff)
qed simp

lemma mult_cancel_inverse: "m * i = (1 :: 'a::len word) \<Longrightarrow> x * m = y * m \<longleftrightarrow> x = y"
  by (metis mult.assoc mult.right_neutral)

lemma mult_odd_cancel [mix_inj]:
  "x * 0xc6a4a793 = y * 0xc6a4a793 \<longleftrightarrow> x = (y :: 32 word)"
  "x * 0xcc9e2d51 = y * 0xcc9e2d51 \<longleftrightarrow> x = (y :: 32 word)"
  "x * 0x1b873593 = y * 0x1b873593 \<longleftrightarrow> x = (y :: 32 word)"
  "x * 0x85ebca6b = y * 0x85ebca6b \<longleftrightarrow> x = (y :: 32 word)"
  "x * 0xc2b2ae35 = y * 0xc2b2ae35 \<longleftrightarrow> x = (y :: 32 word)"
  "x * 5 = y * 5 \<longleftrightarrow> x = (y :: 32 word)"
  "u * 0xc6a4a7935bd1e995 = v * 0xc6a4a7935bd1e995 \<longleftrightarrow> u = (v :: 64 word)"
  by ((rule mult_cancel_inverse [of _ "0xd8198e9b"], simp),
    (rule mult_cancel_inverse [of _ "0xdee13bb1"], simp),
    (rule mult_cancel_inverse [of _ "0x56ed309b"], simp),
    (rule mult_cancel_inverse [of _ "0xa5cb9243"], simp),
    (rule mult_cancel_inverse [of _ "0x7ed1b41d"], simp),
    (rule mult_cancel_inverse [of _ "0xcccccccd"], simp),
    (rule mult_cancel_inverse [of _ "0x5f7a0ea7e59b19bd"], simp))

lemma rotl32_cancel [mix_inj]: "r \<le> 32 \<Longrightarrow> rotl32 x r = rotl32 y r \<longleftrightarrow> x = y"
proof
  assume r: "r \<le> 32" and eq: "rotl32 x r = rotl32 y r"
  have b: "bit (rotl32 w r) ((n + r) mod 32) = bit w n" if "n < 32" for w :: "32 word" and n
  proof (cases "n + r < 32")
    case True
    then have "\<not> bit w (32 - r + (n + r))" using r by (auto dest: bit_imp_le_length)
    then show ?thesis using True by (simp add: rotl32_def bit_or_iff bit_push_bit_iff bit_drop_bit_eq)
  next
    case False
    then have "(n + r) mod 32 = n + r - 32" "\<not> r \<le> n + r - 32" using that r by (simp_all add: mod_if)
    then show ?thesis using False that r by (simp add: rotl32_def bit_or_iff bit_push_bit_iff bit_drop_bit_eq)
  qed
  have "bit x n = bit y n" for n
  proof (cases "n < 32")
    case True
    then show ?thesis using b [of n x] b [of n y] eq by simp
  qed (auto dest: bit_imp_le_length)
  then show "x = y" by (simp add: bit_eq_iff)
qed simp

lemma xor_cancel [mix_inj]:
  fixes x y z :: "'a::len word"
  shows "z XOR x = z XOR y \<longleftrightarrow> x = y" "x XOR z = y XOR z \<longleftrightarrow> x = y"
  by (metis xor.assoc xor.commute xor_self_eq xor.right_neutral)+

lemma load_le_bit:
  assumes "q < length bs" "r < 8" "8 * length bs \<le> LENGTH('a)"
  shows "bit (load_le bs :: 'a::len word) (8 * q + r) = bit (bs ! q) r"
  using assms
proof (induction bs arbitrary: q)
  case (Cons b bs)
  define w where "w = (load_le bs :: 'a word)"
  have w: "load_le (b # bs) = (ucast b OR push_bit 8 w :: 'a word)" by (simp add: load_le_def w_def)
  show ?case
  proof (cases q)
    case 0
    then show ?thesis using Cons.prems by (simp add: w bit_or_iff bit_push_bit_iff bit_ucast_iff)
  next
    case (Suc p)
    have "\<not> bit b (8 + 8 * p + r)" by (auto dest: bit_imp_le_length)
    moreover have "bit w (8 * p + r) = bit (bs ! p) r" using Cons Suc by (simp add: w_def)
    moreover have "8 + (8 * p + r) < LENGTH('a)" using Cons.prems Suc by simp
    ultimately show ?thesis unfolding w Suc by (simp add: bit_or_iff bit_push_bit_iff bit_ucast_iff)
  qed
qed simp

lemma load_le_cancel:
  assumes "length xs = length ys" "8 * length xs \<le> LENGTH('a)"
  shows "load_le xs = (load_le ys :: 'a::len word) \<longleftrightarrow> xs = ys"
proof
  assume eq: "load_le xs = (load_le ys :: 'a word)"
  show "xs = ys"
  proof (rule nth_equalityI [OF assms(1)])
    fix q assume q: "q < length xs"
    have "bit (xs ! q) r = bit (ys ! q) r" for r
    proof (cases "r < 8")
      case True
      then show ?thesis
        using load_le_bit [OF q _ assms(2), of r] load_le_bit [of q ys r, where 'a = 'a] q assms eq by simp
    qed (auto dest: bit_imp_le_length)
    then show "xs ! q = ys ! q" by (simp add: bit_eq_iff)
  qed
qed simp

lemma four_bytes: "length xs = 4 \<Longrightarrow> \<exists>a b c d. xs = [a, b, c, d]"
  by (simp add: numeral_eq_Suc length_Suc_conv) metis

lemma eight_bytes: "length xs = 8 \<Longrightarrow> \<exists>a b c d e f g h. xs = [a, b, c, d, e, f, g, h]"
  by (simp add: numeral_eq_Suc length_Suc_conv) metis

lemma MurmurHash3_mix_cancel [mix_inj]: "MurmurHash3_mix x = MurmurHash3_mix y \<longleftrightarrow> x = y"
  by (simp add: MurmurHash3_mix_def Let_def mix_inj)

lemma MurmurHash1_word:
  assumes "length xs = 4" "length ys = 4"
  shows "MurmurHash1 xs seed = MurmurHash1 ys seed \<longleftrightarrow> xs = ys"
proof -
  have w: "load_le xs = (load_le ys :: 32 word) \<longleftrightarrow> xs = ys" using assms by (intro load_le_cancel) simp_all
  obtain a b c d where x: "xs = [a, b, c, d]" using four_bytes [OF assms(1)] by blast
  obtain a' b' c' d' where y: "ys = [a', b', c', d']" using four_bytes [OF assms(2)] by blast
  show ?thesis unfolding w [symmetric] unfolding x y
    by (simp add: MurmurHash1_def MurmurHash1_tail_def Let_def mix_inj)
qed

lemma MurmurHash3_word:
  assumes "length xs = 4" "length ys = 4"
  shows "MurmurHash3 xs seed = MurmurHash3 ys seed \<longleftrightarrow> xs = ys"
proof -
  have w: "load_le xs = (load_le ys :: 32 word) \<longleftrightarrow> xs = ys" using assms by (intro load_le_cancel) simp_all
  obtain a b c d where x: "xs = [a, b, c, d]" using four_bytes [OF assms(1)] by blast
  obtain a' b' c' d' where y: "ys = [a', b', c', d']" using four_bytes [OF assms(2)] by blast
  show ?thesis unfolding w [symmetric] unfolding x y
    by (simp add: MurmurHash3_def MurmurHash3_tail_def Let_def mix_inj)
qed

lemma MurmurHash64A_word:
  assumes "length xs = 8" "length ys = 8"
  shows "MurmurHash64A xs seed = MurmurHash64A ys seed \<longleftrightarrow> xs = ys"
proof -
  have w: "load_le xs = (load_le ys :: 64 word) \<longleftrightarrow> xs = ys" using assms by (intro load_le_cancel) simp_all
  obtain a b c d e f g h where x: "xs = [a, b, c, d, e, f, g, h]" using eight_bytes [OF assms(1)] by blast
  obtain a' b' c' d' e' f' g' h' where y: "ys = [a', b', c', d', e', f', g', h']"
    using eight_bytes [OF assms(2)] by blast
  show ?thesis unfolding w [symmetric] unfolding x y
    by (simp add: MurmurHash64A_def MurmurHash64A_tail_def Let_def mix_inj)
qed

section \<open>Properties\<close>

text \<open>
  On keys of one machine word (4 bytes for \<open>MurmurHash1\<close> and \<open>MurmurHash3\<close>, 8 bytes for
  \<open>MurmurHash64A\<close>) the hash functions have no collisions: distinct keys have distinct hashes,
  for every seed.
\<close>

theorem murmur_word_injective:
  "inj_on (\<lambda>k. MurmurHash1 k seed) {k. length k = 4} \<and> inj_on (\<lambda>k. MurmurHash3 k seed) {k. length k = 4} \<and>
   inj_on (\<lambda>k. MurmurHash64A k seed64) {k. length k = 8}"
  by (auto simp: inj_on_def MurmurHash1_word MurmurHash3_word MurmurHash64A_word)

end
