(* ===== verification/Null_Values.thy ===== *)
theory Null_Values
  imports SQL_Types Murmur_Hash
begin

text \<open>
  The NULL sentinels of \<open>type/data/InlineNullValues.h\<close>, the NULL tests of \<open>SQLTypeInfo\<close> and the
  datums of \<open>util/Datum.cpp\<close>.  A \<open>Datum\<close> is the 64 bits of the union: a member reads or writes
  its low bytes and leaves the others alone.  \<open>FLT_MIN\<close>, \<open>DBL_MIN\<close> and their doubles are
  positive normal numbers, which compare equal exactly to the same bits, so the sentinels of
  the floating-point types are their bit patterns.
\<close>

section \<open>Sentinels\<close>

definition NULL_BOOLEAN :: int where "NULL_BOOLEAN = - 128"
definition NULL_TINYINT :: int where "NULL_TINYINT = - 128"
definition NULL_SMALLINT :: int where "NULL_SMALLINT = - 32768"
definition NULL_INT :: int where "NULL_INT = - 2147483648"
definition NULL_BIGINT :: int where "NULL_BIGINT = - 9223372036854775808"
definition NULL_FLOAT :: "32 word" where "NULL_FLOAT = 0x00800000"
definition NULL_DOUBLE :: "64 word" where "NULL_DOUBLE = 0x0010000000000000"

definition NULL_ARRAY_TINYINT :: int where "NULL_ARRAY_TINYINT = - 127"
definition NULL_ARRAY_SMALLINT :: int where "NULL_ARRAY_SMALLINT = - 32767"
definition NULL_ARRAY_INT :: int where "NULL_ARRAY_INT = - 2147483647"
definition NULL_ARRAY_BIGINT :: int where "NULL_ARRAY_BIGINT = - 9223372036854775807"
definition NULL_ARRAY_FLOAT :: "32 word" where "NULL_ARRAY_FLOAT = 0x01000000"
definition NULL_ARRAY_DOUBLE :: "64 word" where "NULL_ARRAY_DOUBLE = 0x0020000000000000"
definition NULL_ARRAY_COMPRESSED_32 :: "32 word" where "NULL_ARRAY_COMPRESSED_32 = 0x80000000"

text \<open>The templates over integer types, with the signedness and the width of the type.\<close>

definition inline_int_null_value :: "bool \<Rightarrow> nat \<Rightarrow> int" where
  "inline_int_null_value is_signed w = (if is_signed then - (2 ^ (w - 1)) else s64 (2 ^ w - 1))"

definition inline_int_null_array_value :: "bool \<Rightarrow> nat \<Rightarrow> int" where
  "inline_int_null_array_value is_signed w = (if is_signed then - (2 ^ (w - 1)) + 1 else s64 (2 ^ w - 1 - 1))"

definition max_valid_int_value :: "bool \<Rightarrow> nat \<Rightarrow> int" where
  "max_valid_int_value is_signed w = (if is_signed then 2 ^ (w - 1) - 1 else s64 (2 ^ w - 1 - 1))"

text \<open>The switch over the type, shared by the two kinds of sentinels.\<close>

fun int_type_width :: "SQLTypes \<Rightarrow> nat result" where
  "int_type_width kBOOLEAN = Inr 8"
| "int_type_width kTINYINT = Inr 8"
| "int_type_width kSMALLINT = Inr 16"
| "int_type_width kINT = Inr 32"
| "int_type_width kBIGINT = Inr 64"
| "int_type_width kTIMESTAMP = Inr 64"
| "int_type_width kTIME = Inr 64"
| "int_type_width kDATE = Inr 64"
| "int_type_width kINTERVAL_DAY_TIME = Inr 64"
| "int_type_width kINTERVAL_YEAR_MONTH = Inr 64"
| "int_type_width kDECIMAL = Inr 64"
| "int_type_width kNUMERIC = Inr 64"
| "int_type_width _ = Inl CiderUnsupportedException"

definition sentinel_type :: "SQLTypeInfo \<Rightarrow> SQLTypes result" where
  "sentinel_type ti =
     (if is_string ti
      then if get_compression ti \<noteq> kENCODING_DICT \<or> get_logical_size ti \<noteq> 4 then Inl CheckFailed else Inr kINT
      else if get_compression ti \<noteq> kENCODING_NONE then Inl CheckFailed else Inr (get_type ti))"

definition inline_int_null_val :: "SQLTypeInfo \<Rightarrow> int result" where
  "inline_int_null_val ti =
     (case sentinel_type ti of Inl e \<Rightarrow> Inl e
      | Inr type \<Rightarrow> map_sum id (inline_int_null_value True) (int_type_width type))"

definition inline_int_null_array_val :: "SQLTypeInfo \<Rightarrow> int result" where
  "inline_int_null_array_val ti =
     (case sentinel_type ti of Inl e \<Rightarrow> Inl e
      | Inr type \<Rightarrow> map_sum id (inline_int_null_array_value True) (int_type_width type))"

definition inline_fixed_encoding_null_val :: "SQLTypeInfo \<Rightarrow> int result" where
  "inline_fixed_encoding_null_val ti =
     (let comp_param = get_comp_param ti
      in if get_compression ti = kENCODING_NONE then inline_int_null_val ti
         else if get_compression ti = kENCODING_DATE_IN_DAYS
         then if comp_param = 0 \<or> comp_param = 32 then Inr (inline_int_null_value True 32)
              else if comp_param = 16 then Inr (inline_int_null_value True 16)
              else Inl CheckFailed
         else if get_compression ti = kENCODING_DICT
         then if \<not> is_string ti then Inl CheckFailed
              else if get_size ti = 1 then Inr (inline_int_null_value False 8)
              else if get_size ti = 2 then Inr (inline_int_null_value False 16)
              else if get_size ti = 4 then Inr (inline_int_null_value True 32)
              else Inl CheckFailed
         else if get_compression ti \<noteq> kENCODING_FIXED then Inl CheckFailed
         else if \<not> (is_integer ti \<or> is_time ti \<or> is_decimal ti) then Inl CheckFailed
         else if comp_param smod 8 \<noteq> 0 then Inl CheckFailed
         else Inr (s64 (- (2 ^ nat (comp_param - 1)))))"

text \<open>The checks that always fail make the rest of the source's function unreachable.\<close>

definition inline_fixed_encoding_null_array_val :: "SQLTypeInfo \<Rightarrow> int result" where
  "inline_fixed_encoding_null_array_val ti =
     (let comp_param = get_comp_param ti
      in if get_compression ti = kENCODING_NONE then inline_int_null_array_val ti
         else if get_compression ti = kENCODING_DATE_IN_DAYS
         then if comp_param = 0 \<or> comp_param = 32 then Inr (inline_int_null_array_value True 32)
              else if comp_param = 16 then Inr (inline_int_null_array_value True 16)
              else Inl CheckFailed
         else Inl CheckFailed)"

definition serialized_null_value :: "bool \<Rightarrow> nat \<Rightarrow> bool \<Rightarrow> int" where
  "serialized_null_value is_signed w array =
     (if array then inline_int_null_array_value is_signed w else inline_int_null_value is_signed w) mod 2 ^ w"

definition is_null_value :: "bool \<Rightarrow> nat \<Rightarrow> bool \<Rightarrow> int \<Rightarrow> bool" where
  "is_null_value is_signed w array val \<longleftrightarrow> serialized_null_value is_signed w array = val mod 2 ^ w"

text \<open>The new contents of the variable, read at its own type.\<close>

definition set_null :: "bool \<Rightarrow> nat \<Rightarrow> bool \<Rightarrow> int" where
  "set_null is_signed w array =
     (let bits = serialized_null_value is_signed w array
      in if is_signed then wrap_s (2 ^ (w - 1)) bits else bits)"

section \<open>Datums\<close>

type_synonym Datum = "64 word"

definition tinyintval :: "Datum \<Rightarrow> int" where "tinyintval d = sint (ucast d :: 8 word)"
definition smallintval :: "Datum \<Rightarrow> int" where "smallintval d = sint (ucast d :: 16 word)"
definition intval :: "Datum \<Rightarrow> int" where "intval d = sint (ucast d :: 32 word)"
definition bigintval :: "Datum \<Rightarrow> int" where "bigintval d = sint d"
definition floatval :: "Datum \<Rightarrow> 32 word" where "floatval d = ucast d"

text \<open>Writing the low \<open>w\<close> bits of the union.\<close>

definition put_datum :: "nat \<Rightarrow> int \<Rightarrow> Datum \<Rightarrow> Datum" where
  "put_datum w v d = (d AND NOT (mask w)) OR (word_of_int v AND mask w)"

text \<open>
  \<open>SQLTypeInfo::is_null\<close> on a datum and on a value in memory.  The null flag of the array that a
  datum points to is read through \<open>varlen_is_null\<close>.
\<close>

definition is_null_datum :: "(64 word \<Rightarrow> bool) \<Rightarrow> SQLTypeInfo \<Rightarrow> Datum \<Rightarrow> bool" where
  "is_null_datum varlen_is_null ti d =
     (case get_type ti of
        kBOOLEAN \<Rightarrow> tinyintval d = NULL_BOOLEAN
      | kTINYINT \<Rightarrow> tinyintval d = NULL_TINYINT
      | kSMALLINT \<Rightarrow> smallintval d = NULL_SMALLINT
      | kINT \<Rightarrow> intval d = NULL_INT
      | kBIGINT \<Rightarrow> bigintval d = NULL_BIGINT
      | kNUMERIC \<Rightarrow> bigintval d = NULL_BIGINT
      | kDECIMAL \<Rightarrow> bigintval d = NULL_BIGINT
      | kFLOAT \<Rightarrow> floatval d = NULL_FLOAT
      | kDOUBLE \<Rightarrow> d = NULL_DOUBLE
      | kTIME \<Rightarrow> bigintval d = NULL_BIGINT
      | kTIMESTAMP \<Rightarrow> bigintval d = NULL_BIGINT
      | kDATE \<Rightarrow> bigintval d = NULL_BIGINT
      | kNULLT \<Rightarrow> True
      | kARRAY \<Rightarrow> d = 0 \<or> varlen_is_null d
      | _ \<Rightarrow> False)"

definition load_signed :: "nat \<Rightarrow> 8 word list \<Rightarrow> int" where
  "load_signed n val = signed_take_bit (8 * n - 1) (uint (load_le (take n val) :: 64 word))"

definition is_null_bytes :: "SQLTypeInfo \<Rightarrow> 8 word list \<Rightarrow> bool" where
  "is_null_bytes ti val =
     (if get_type ti = kFLOAT then load_le (take 4 val) = NULL_FLOAT
      else if get_type ti = kDOUBLE then load_le (take 8 val) = NULL_DOUBLE
      else if get_size ti = 1 then load_signed 1 val = NULL_TINYINT
      else if get_size ti = 2 then load_signed 2 val = NULL_SMALLINT
      else if get_size ti = 4 then load_signed 4 val = NULL_INT
      else if get_size ti = 8 then load_signed 8 val = NULL_BIGINT
      else if get_size ti = 0 then True
      else False)"

definition is_null_fixlen_array :: "SQLTypeInfo \<Rightarrow> 8 word list option \<Rightarrow> int \<Rightarrow> bool" where
  "is_null_fixlen_array ti val array_size =
     (case val of None \<Rightarrow> False
      | Some val \<Rightarrow>
        if get_type ti = kARRAY \<and> 0 < array_size \<and> array_size = get_size ti
        then let elem_ti = set_subtype (set_type ti (get_subtype ti)) kNULLT;
                 elem_size = get_storage_size elem_ti
             in if elem_size < 1 then False
                else if get_subtype ti = kFLOAT then load_le (take 4 val) = NULL_ARRAY_FLOAT
                else if get_subtype ti = kDOUBLE then load_le (take 8 val) = NULL_ARRAY_DOUBLE
                else if elem_size = 1 then load_signed 1 val = NULL_ARRAY_TINYINT
                else if elem_size = 2 then load_signed 2 val = NULL_ARRAY_SMALLINT
                else if elem_size = 4 then load_signed 4 val = NULL_ARRAY_INT
                else if elem_size = 8 then load_signed 8 val = NULL_ARRAY_BIGINT
                else False
        else False)"

definition is_null_point_coord_array :: "SQLTypeInfo \<Rightarrow> 8 word list option \<Rightarrow> int \<Rightarrow> bool" where
  "is_null_point_coord_array ti val array_size =
     (case val of None \<Rightarrow> False
      | Some val \<Rightarrow>
        if get_type ti = kARRAY \<and> get_subtype ti = kTINYINT \<and> 0 < array_size \<and> array_size = get_size ti
        then if array_size = 2 * 8 then load_le (take 8 val) = NULL_ARRAY_DOUBLE
             else if array_size = 2 * 4 then load_le (take 4 val) = NULL_ARRAY_COMPRESSED_32
             else False
        else False)"

text \<open>\<open>*(intN_t* )buf = v\<close> at a position of the buffer.\<close>

definition store_le :: "nat \<Rightarrow> 64 word \<Rightarrow> 8 word list" where
  "store_le n w = map (\<lambda>j. ucast (drop_bit (8 * j) w)) [0..<n]"

definition put_bytes :: "8 word list \<Rightarrow> nat \<Rightarrow> 8 word list \<Rightarrow> 8 word list" where
  "put_bytes buf pos bs = take pos buf @ bs @ drop (pos + length bs) buf"

fun datum_bytes :: "SQLTypes \<Rightarrow> nat option" where
  "datum_bytes kBOOLEAN = Some 1"
| "datum_bytes kNUMERIC = Some 8"
| "datum_bytes kDECIMAL = Some 8"
| "datum_bytes kBIGINT = Some 8"
| "datum_bytes kINT = Some 4"
| "datum_bytes kSMALLINT = Some 2"
| "datum_bytes kTINYINT = Some 1"
| "datum_bytes kFLOAT = Some 4"
| "datum_bytes kDOUBLE = Some 8"
| "datum_bytes kTIME = Some 8"
| "datum_bytes kTIMESTAMP = Some 8"
| "datum_bytes kDATE = Some 8"
| "datum_bytes _ = None"

text \<open>The new buffer and the position that is returned; \<^term>\<open>None\<close> is the null pointer.\<close>

definition appendDatum :: "8 word list \<Rightarrow> nat \<Rightarrow> Datum \<Rightarrow> SQLTypeInfo \<Rightarrow> (8 word list \<times> nat) option" where
  "appendDatum buf pos d ti =
     (case datum_bytes (get_type ti) of None \<Rightarrow> None | Some n \<Rightarrow> Some (put_bytes buf pos (store_le n d), pos + n))"

definition decimal_to_int_type :: "SQLTypeInfo \<Rightarrow> SQLTypes" where
  "decimal_to_int_type ti = get_int_type_by_size (nat (u64 (get_size ti)))"

definition string_dict_to_int_type :: "SQLTypeInfo \<Rightarrow> SQLTypes result" where
  "string_dict_to_int_type ti =
     (if \<not> is_dict_encoded_string ti then Inl CheckFailed
      else if get_size ti = 1 then Inr kTINYINT else if get_size ti = 2 then Inr kSMALLINT
      else if get_size ti = 4 then Inr kINT else if get_size ti = 8 then Inr kBIGINT else Inr kNULLT)"

text \<open>A \<open>std::runtime_error\<close> is the error \<open>CiderUnsupportedException\<close>.\<close>

definition get_type_for_datum :: "SQLTypeInfo \<Rightarrow> SQLTypes result" where
  "get_type_for_datum ti =
     (if is_decimal ti then Inr (decimal_to_int_type ti)
      else if is_dict_encoded_string ti then Inl CiderUnsupportedException
      else Inr (get_type ti))"

text \<open>The local datum of \<open>NullDatum\<close> is uninitialised: \<open>d\<close> is what it holds before the write.\<close>

definition NullDatum :: "Datum \<Rightarrow> SQLTypeInfo \<Rightarrow> Datum result" where
  "NullDatum d ti =
     (let null_val = inline_fixed_encoding_null_val ti;
          put = (\<lambda>w. map_sum id (\<lambda>v. put_datum w v d) null_val)
      in case get_type_for_datum ti of Inl e \<Rightarrow> Inl e
         | Inr type \<Rightarrow>
           case type of
             kBOOLEAN \<Rightarrow> put 8
           | kBIGINT \<Rightarrow> put 64
           | kINT \<Rightarrow> put 32
           | kSMALLINT \<Rightarrow> put 16
           | kTINYINT \<Rightarrow> put 8
           | kFLOAT \<Rightarrow> Inr (put_datum 32 (uint NULL_FLOAT) d)
           | kDOUBLE \<Rightarrow> Inr NULL_DOUBLE
           | kTIME \<Rightarrow> put 64
           | kTIMESTAMP \<Rightarrow> put 64
           | kDATE \<Rightarrow> put 64
           | _ \<Rightarrow> Inl CiderUnsupportedException)"

text \<open>
  Strings are compared through the memory \<open>deref\<close>; floating-point values are compared by
  \<open>feq\<close> and \<open>deq\<close>, the equality of the machine's numbers on their bit patterns.
\<close>

definition DatumEqual ::
  "(32 word \<Rightarrow> 32 word \<Rightarrow> bool) \<Rightarrow> (64 word \<Rightarrow> 64 word \<Rightarrow> bool) \<Rightarrow> (64 word \<Rightarrow> string) \<Rightarrow>
   Datum \<Rightarrow> Datum \<Rightarrow> SQLTypeInfo \<Rightarrow> bool" where
  "DatumEqual feq deq deref a b ti =
     (let strings = (if get_compression ti = kENCODING_DICT then intval a = intval b
                     else if a = 0 \<and> b = 0 then True
                     else if a = 0 \<or> b = 0 then False
                     else deref a = deref b)
      in case get_type ti of
        kBOOLEAN \<Rightarrow> tinyintval a = tinyintval b
      | kBIGINT \<Rightarrow> bigintval a = bigintval b
      | kNUMERIC \<Rightarrow> bigintval a = bigintval b
      | kDECIMAL \<Rightarrow> bigintval a = bigintval b
      | kINT \<Rightarrow> intval a = intval b
      | kSMALLINT \<Rightarrow> smallintval a = smallintval b
      | kTINYINT \<Rightarrow> tinyintval a = tinyintval b
      | kFLOAT \<Rightarrow> feq (floatval a) (floatval b)
      | kDOUBLE \<Rightarrow> deq a b
      | kTIME \<Rightarrow> bigintval a = bigintval b
      | kTIMESTAMP \<Rightarrow> bigintval a = bigintval b
      | kDATE \<Rightarrow> bigintval a = bigintval b
      | kINTERVAL_DAY_TIME \<Rightarrow> bigintval a = bigintval b
      | kINTERVAL_YEAR_MONTH \<Rightarrow> bigintval a = bigintval b
      | kTEXT \<Rightarrow> strings
      | kVARCHAR \<Rightarrow> strings
      | kCHAR \<Rightarrow> strings
      | _ \<Rightarrow> False)"

definition IsNullDatum ::
  "(32 word \<Rightarrow> 32 word \<Rightarrow> bool) \<Rightarrow> (64 word \<Rightarrow> 64 word \<Rightarrow> bool) \<Rightarrow> (64 word \<Rightarrow> string) \<Rightarrow>
   Datum \<Rightarrow> Datum \<Rightarrow> SQLTypeInfo \<Rightarrow> bool result" where
  "IsNullDatum feq deq deref d0 datum ti =
     map_sum id (\<lambda>null_datum. DatumEqual feq deq deref datum null_datum ti) (NullDatum d0 ti)"

definition extract_int_type_from_datum :: "Datum \<Rightarrow> SQLTypeInfo \<Rightarrow> int result" where
  "extract_int_type_from_datum datum ti =
     (let strings = (if get_compression ti = kENCODING_DICT then Inr (intval datum) else Inl CheckFailed)
      in case (if is_decimal ti then decimal_to_int_type ti else get_type ti) of
        kBOOLEAN \<Rightarrow> Inr (tinyintval datum)
      | kTINYINT \<Rightarrow> Inr (tinyintval datum)
      | kSMALLINT \<Rightarrow> Inr (smallintval datum)
      | kCHAR \<Rightarrow> strings
      | kVARCHAR \<Rightarrow> strings
      | kTEXT \<Rightarrow> strings
      | kINT \<Rightarrow> Inr (intval datum)
      | kBIGINT \<Rightarrow> Inr (bigintval datum)
      | kTIME \<Rightarrow> Inr (bigintval datum)
      | kTIMESTAMP \<Rightarrow> Inr (bigintval datum)
      | kDATE \<Rightarrow> Inr (bigintval datum)
      | _ \<Rightarrow> Inl CiderUnsupportedException)"

section \<open>Reading back what was stored\<close>

lemma bit_load_store:
  assumes "n \<le> 8"
  shows "load_le (store_le n w) = (take_bit (8 * n) w :: 64 word)"
proof (rule bit_word_eqI)
  fix i assume i: "i < LENGTH(64)"
  define q r where "q = i div 8" and "r = i mod 8"
  have e: "i = 8 * q + r" "r < 8" by (simp_all add: q_def r_def)
  show "bit (load_le (store_le n w) :: 64 word) i = bit (take_bit (8 * n) w) i"
  proof (cases "q < n")
    case True
    then have "bit (load_le (store_le n w) :: 64 word) (8 * q + r) = bit (store_le n w ! q) r"
      using assms e(2) by (intro load_le_bit) (simp_all add: store_le_def)
    also have "\<dots> = bit w (8 * q + r)" using True e(2) by (simp add: store_le_def bit_ucast_iff bit_drop_bit_eq)
    finally show ?thesis using True e by (simp add: bit_take_bit_iff)
  next
    case False
    have "\<not> bit (load_le bs :: 64 word) (8 * q + r)" if "length bs \<le> q" "8 * length bs \<le> 64" for bs
      using that
    proof (induction bs arbitrary: q)
      case (Cons b bs)
      then obtain p where p: "q = Suc p" by (cases q) simp_all
      have "\<not> bit b (8 + (8 * p + r))" by (auto dest: bit_imp_le_length)
      moreover have "\<not> bit (load_le bs :: 64 word) (8 * p + r)" using Cons p by simp
      ultimately show ?case unfolding p by (simp add: load_le_def bit_or_iff bit_push_bit_iff bit_ucast_iff add.assoc)
    qed (simp add: load_le_def)
    then have "\<not> bit (load_le (store_le n w) :: 64 word) i" using False assms e(1) by (simp add: store_le_def)
    moreover have "\<not> i < 8 * n" using False by (simp add: e(1))
    ultimately show ?thesis by (simp add: bit_take_bit_iff)
  qed
qed

lemma store_le_length [simp]: "length (store_le n w) = n" by (simp add: store_le_def)

lemma load_signed_store:
  assumes "1 \<le> n" "n \<le> 8" "- (2 ^ (8 * n - 1)) \<le> x" "x < 2 ^ (8 * n - 1)"
  shows "load_signed n (store_le n (word_of_int x)) = x"
proof -
  have "uint (take_bit (8 * n) (word_of_int x) :: 64 word) = take_bit (8 * n) x"
    using assms(2) by (simp add: unsigned_take_bit_eq unsigned_of_int take_bit_take_bit min_def)
  then have "load_signed n (store_le n (word_of_int x)) = signed_take_bit (8 * n - 1) (take_bit (8 * n) x)"
    using assms(2) by (simp add: load_signed_def bit_load_store)
  also have "\<dots> = signed_take_bit (8 * n - 1) x"
    using assms(1) by (auto simp: signed_take_bit_take_bit)
  also have "\<dots> = x" using assms(3,4) by (simp add: signed_take_bit_int_eq_self)
  finally show ?thesis .
qed

definition stored_int_type :: "SQLTypes \<Rightarrow> bool" where
  "stored_int_type t \<longleftrightarrow> t \<in> {kBOOLEAN, kTINYINT, kSMALLINT, kINT, kBIGINT, kDECIMAL, kNUMERIC, kTIME, kTIMESTAMP,
     kINTERVAL_DAY_TIME, kINTERVAL_YEAR_MONTH}"

lemma stored_int_size:
  assumes "stored_int_type t"
  shows "nat (plain_size t) \<in> {1, 2, 4, 8}" "int_type_width t = Inr (8 * nat (plain_size t))" "\<not> IS_STRING t"
    "t \<noteq> kFLOAT" "t \<noteq> kDOUBLE"
  using assms by (auto simp: stored_int_type_def IS_STRING_def)

lemma is_null_bytes_size:
  assumes "get_type ti \<noteq> kFLOAT" "get_type ti \<noteq> kDOUBLE" "get_size ti = int k" "k \<in> {1, 2, 4, 8}"
  shows "is_null_bytes ti val = (load_signed k val = - (2 ^ (8 * k - 1)))"
  using assms
  by (auto simp: is_null_bytes_def NULL_TINYINT_def NULL_SMALLINT_def NULL_INT_def NULL_BIGINT_def)

lemma inline_int_null_val_plain:
  assumes "\<not> IS_STRING t"
  shows "inline_int_null_val (SQLTypeInfo_dims t d s n) = map_sum id (inline_int_null_value True) (int_type_width t)"
    "inline_int_null_array_val (SQLTypeInfo_dims t d s n) = map_sum id (inline_int_null_array_value True) (int_type_width t)"
  using assms by (simp_all add: inline_int_null_val_def inline_int_null_array_val_def sentinel_type_def is_string_def)

text \<open>
  The sentinel of a DATE without encoding is that of a 64-bit integer, although the type is
  stored in four bytes: stored, it does not read as NULL, and \<open>appendDatum\<close> writes eight bytes.
\<close>

lemma date_sentinel_too_wide:
  defines "ti \<equiv> SQLTypeInfo_plain kDATE"
  shows "get_size ti = 4 \<and> inline_int_null_val ti = Inr (- (2 ^ 63)) \<and>
    \<not> is_null_bytes ti (store_le 4 (word_of_int (- (2 ^ 63)))) \<and> appendDatum buf pos d ti = Some (put_bytes buf pos (store_le 8 d), pos + 8)"
proof -
  have t: "ti = SQLTypeInfo_dims kDATE 0 0 False"
    by (simp add: ti_def SQLTypeInfo_plain_def SQLTypeInfo_null_def SQLTypeInfo_dims_def)
  have "\<not> is_null_bytes ti (store_le 4 (word_of_int (- (2 ^ 63))))"
    by (simp add: t is_null_bytes_def load_signed_def bit_load_store NULL_INT_def)
  then show ?thesis
    by (simp add: t inline_int_null_val_plain IS_STRING_def inline_int_null_value_def appendDatum_def)
qed

section \<open>Null datums\<close>

lemma put_datum_read:
  "tinyintval (put_datum 8 v d) = sint (word_of_int v :: 8 word)"
  "smallintval (put_datum 16 v d) = sint (word_of_int v :: 16 word)"
  "intval (put_datum 32 v d) = sint (word_of_int v :: 32 word)"
  "put_datum 64 v d = word_of_int v"
  "floatval (put_datum 32 v d) = word_of_int v"
proof -
  have b: "(ucast (put_datum w v d) :: 'a::len word) = word_of_int v" if "LENGTH('a) = w" "w \<le> 64" for w
    using that by (intro bit_word_eqI) (simp add: put_datum_def bit_ucast_iff bit_or_iff bit_and_iff bit_not_iff bit_mask_iff bit_word_of_int_iff)
  show "tinyintval (put_datum 8 v d) = sint (word_of_int v :: 8 word)" by (simp add: tinyintval_def b)
  show "smallintval (put_datum 16 v d) = sint (word_of_int v :: 16 word)" by (simp add: smallintval_def b)
  show "intval (put_datum 32 v d) = sint (word_of_int v :: 32 word)" by (simp add: intval_def b)
  show "floatval (put_datum 32 v d) = word_of_int v" by (simp add: floatval_def b)
  show "put_datum 64 v d = word_of_int v"
    by (intro bit_word_eqI) (simp add: put_datum_def bit_or_iff bit_and_iff bit_not_iff bit_mask_iff bit_word_of_int_iff)
qed

lemma NullDatum_equal:
  assumes "NullDatum d ti = Inr nd" "NullDatum d' ti = Inr nd'" "is_decimal ti \<longrightarrow> get_size ti = 8"
    "feq NULL_FLOAT NULL_FLOAT" "deq NULL_DOUBLE NULL_DOUBLE"
  shows "DatumEqual feq deq deref nd nd' ti"
proof -
  have "decimal_to_int_type ti = kBIGINT" if "is_decimal ti"
    using that assms(3) by (simp add: decimal_to_int_type_def get_int_type_by_size_def wrap_u_def)
  then have t: "get_type_for_datum ti = Inr (if is_decimal ti then kBIGINT else get_type ti)"
    using assms(1) by (auto simp: NullDatum_def get_type_for_datum_def Let_def split: if_splits)
  obtain v where v: "inline_fixed_encoding_null_val ti = Inr v \<or> get_type ti \<in> {kFLOAT, kDOUBLE}"
    using assms(1) t
    by (cases "inline_fixed_encoding_null_val ti"; cases "get_type ti")
      (auto simp: NullDatum_def Let_def is_decimal_def)
  show ?thesis
    using assms(1,2,4,5) v
    by (cases "get_type ti")
      (auto simp: NullDatum_def Let_def t is_decimal_def DatumEqual_def put_datum_read bigintval_def)
qed

text \<open>
  A decimal in a narrow fixed encoding is written through a narrow member of the union but
  compared through the widest one, so whether it is recognised depends on uninitialised bytes.
\<close>

lemma narrow_decimal_null_missed:
  defines "ti \<equiv> SQLTypeInfo_full kDECIMAL 4 0 False kENCODING_FIXED 16 kNULLT"
  shows "NullDatum 0 ti = Inr 0x8000 \<and> IsNullDatum feq deq deref (push_bit 16 1) 0x8000 ti = Inr False"
proof -
  have f: "get_type ti = kDECIMAL" "get_compression ti = kENCODING_FIXED" "get_comp_param ti = 16"
    by (simp_all add: ti_def SQLTypeInfo_full_def set_fixed_size_def)
  have z: "get_size ti = 2"
    by (simp add: ti_def SQLTypeInfo_full_def set_fixed_size_def get_storage_size_def int_storage_size_def sdiv_nonneg)
  have "inline_fixed_encoding_null_val ti = Inr (- 32768)"
    by (simp add: inline_fixed_encoding_null_val_def f is_decimal_def smod_nonneg wrap_s_def)
  moreover have "get_type_for_datum ti = Inr kSMALLINT"
    by (simp add: get_type_for_datum_def is_decimal_def f decimal_to_int_type_def z get_int_type_by_size_def wrap_u_def)
  ultimately have n: "NullDatum d ti = Inr (put_datum 16 (- 32768) d)" for d by (simp add: NullDatum_def)
  have "put_datum 16 (- 32768) 0 = 0x8000" "put_datum 16 (- 32768) (push_bit 16 1) = 0x18000"
    by (simp_all add: put_datum_def mask_eq_exp_minus_1)
  then show ?thesis by (simp add: n IsNullDatum_def DatumEqual_def f bigintval_def)
qed

section \<open>Properties\<close>

text \<open>
  C38: for every integer-like type without encoding other than DATE, the NULL sentinel is the
  smallest value of the type's storage, the NULL-array sentinel is the next one, and the NULL
  test on the stored bytes accepts the sentinel and no other value of the type.
\<close>

theorem null_sentinel_storage:
  fixes d s :: int and n :: bool
  assumes "stored_int_type t"
  defines "ti \<equiv> SQLTypeInfo_dims t d s n" and "k \<equiv> nat (plain_size t)"
  defines "lo \<equiv> - (2 ^ (8 * k - 1))"
  shows "inline_int_null_val ti = Inr lo \<and> inline_int_null_array_val ti = Inr (lo + 1) \<and> get_size ti = int k \<and>
    (\<forall>x. lo \<le> x \<longrightarrow> x < - lo \<longrightarrow> is_null_bytes ti (store_le k (word_of_int x)) = (x = lo))"
proof -
  note z = stored_int_size [OF assms(1)]
  have k: "k \<in> {1, 2, 4, 8}" using z(1) by (simp only: k_def)
  then have "0 < k" by auto
  then have sz: "get_size ti = int k" by (simp add: ti_def k_def del: plain_size.simps)
  have "is_null_bytes ti (store_le k (word_of_int x)) = (x = lo)" if "lo \<le> x" "x < - lo" for x
  proof -
    have "load_signed k (store_le k (word_of_int x)) = x"
      using k that by (intro load_signed_store) (auto simp: lo_def)
    moreover have "get_type ti \<noteq> kFLOAT" "get_type ti \<noteq> kDOUBLE" using z(4,5) by (simp_all add: ti_def)
    ultimately show ?thesis using is_null_bytes_size [of ti k] sz k by (simp add: lo_def)
  qed
  then show ?thesis using z(2,3) sz
    by (simp add: ti_def lo_def k_def [symmetric] del: plain_size.simps)
      (simp add: inline_int_null_val_plain inline_int_null_value_def inline_int_null_array_value_def)
qed

theorem null_sentinel_storage_witness:
  "is_null_bytes (SQLTypeInfo_dims kSMALLINT 0 0 False) (store_le 2 (word_of_int (- 32768))) \<and>
   \<not> is_null_bytes (SQLTypeInfo_dims kSMALLINT 0 0 False) (store_le 2 (word_of_int (- 32767)))"
proof -
  have k: "nat (plain_size kSMALLINT) = 2" by simp
  have f: "\<forall>x. - 32768 \<le> x \<longrightarrow> x < 32768 \<longrightarrow>
      is_null_bytes (SQLTypeInfo_dims kSMALLINT 0 0 False) (store_le 2 (word_of_int x)) = (x = - 32768)"
    using null_sentinel_storage [of kSMALLINT 0 0 False, unfolded k] by (simp add: stored_int_type_def del: plain_size.simps)
  show ?thesis using f [rule_format, of "- 32768"] f [rule_format, of "- 32767"] by simp
qed

text \<open>
  A datum made by \<open>NullDatum\<close> is recognised by \<open>IsNullDatum\<close>, whatever the uninitialised
  bytes of either datum, for every type on which \<open>NullDatum\<close> succeeds other than decimals in a
  narrow fixed encoding.
\<close>

theorem IsNullDatum_NullDatum:
  assumes "NullDatum d ti = Inr nd" "is_decimal ti \<longrightarrow> get_size ti = 8"
    "feq NULL_FLOAT NULL_FLOAT" "deq NULL_DOUBLE NULL_DOUBLE"
  shows "IsNullDatum feq deq deref d' nd ti = Inr True"
proof -
  obtain nd' where n: "NullDatum d' ti = Inr nd'"
    using assms(1) by (cases "inline_fixed_encoding_null_val ti")
      (auto simp: NullDatum_def Let_def split: sum.splits SQLTypes.splits)
  then show ?thesis using NullDatum_equal [of d ti nd d' nd' feq deq deref] assms by (simp add: IsNullDatum_def)
qed

theorem IsNullDatum_NullDatum_witness:
  "IsNullDatum (=) (=) (\<lambda>_. []) 0xffffffffffff (put_datum 32 (- 2147483648) 0) (SQLTypeInfo_dims kINT 0 0 False) = Inr True"
proof (rule IsNullDatum_NullDatum [of 0])
  show "NullDatum 0 (SQLTypeInfo_dims kINT 0 0 False) = Inr (put_datum 32 (- 2147483648) 0)"
    by (simp add: NullDatum_def get_type_for_datum_def is_decimal_def is_dict_encoded_string_def
      inline_fixed_encoding_null_val_def inline_int_null_val_plain IS_STRING_def inline_int_null_value_def)
qed (simp_all add: is_decimal_def)

end
