(* ===== verification/Count_Distinct.thy ===== *)
theory Count_Distinct
  imports Murmur_Hash SQL_Types
begin

text \<open>
  COUNT(DISTINCT): the bitmap and HyperLogLog aggregators of
  \<open>function/scalar/RuntimeFunctions.cpp\<close>, the operations on their sets in
  \<open>exec/template/CountDistinct.h\<close> and \<open>exec/template/HyperLogLog.h\<close>, and the descriptor of
  \<open>common/descriptors/CountDistinctDescriptor.h\<close>.  A set handle points to memory that is read
  either as a bitmap or as a hash set; the hash set is third-party code, so its operations
  (\<open>hs_size\<close>, \<open>hs_list\<close>, \<open>hs_insert\<close>) are parameters, and so is the floating-point estimate
  \<open>hll_size\<close>.
\<close>

section \<open>Aggregators\<close>

definition agg_count_distinct_bitmap :: "bit_vector \<Rightarrow> int \<Rightarrow> int \<Rightarrow> bit_vector" where
  "agg_count_distinct_bitmap agg val min_val =
     (let bitmap_idx = nat (u64 (val - min_val))
      in agg[bitmap_idx div 8 := agg ! (bitmap_idx div 8) OR push_bit (bitmap_idx mod 8) 1])"

definition agg_count_distinct_bitmap_skip_val :: "bit_vector \<Rightarrow> int \<Rightarrow> int \<Rightarrow> int \<Rightarrow> bit_vector" where
  "agg_count_distinct_bitmap_skip_val agg val min_val skip_val =
     (if val \<noteq> skip_val then agg_count_distinct_bitmap agg val min_val else agg)"

definition bit_is_set :: "bit_vector option \<Rightarrow> int \<Rightarrow> int \<Rightarrow> int \<Rightarrow> int \<Rightarrow> int \<Rightarrow> int" where
  "bit_is_set bitset val min_val max_val null_val null_bool_val =
     (if val = null_val then null_bool_val
      else if val < min_val \<or> val > max_val then 0
      else case bitset of None \<Rightarrow> 0
        | Some bits \<Rightarrow>
          let bitmap_idx = nat (u64 (val - min_val))
          in if bits ! (bitmap_idx div 8) AND push_bit (bitmap_idx mod 8) 1 \<noteq> 0 then 1 else 0)"

definition bit_is_set_cider :: "bit_vector option \<Rightarrow> int \<Rightarrow> int \<Rightarrow> int \<Rightarrow> bool" where
  "bit_is_set_cider bitset val min_val max_val =
     (if val < min_val \<or> val > max_val then False
      else case bitset of None \<Rightarrow> False
        | Some bits \<Rightarrow>
          let bitmap_idx = nat (u64 (val - min_val))
          in if bits ! (bitmap_idx div 8) AND push_bit (bitmap_idx mod 8) 1 \<noteq> 0 then True else False)"

definition clzl :: "64 word \<Rightarrow> nat" where
  "clzl x = length (takeWhile (\<lambda>n. \<not> bit x n) (rev [0..<64]))"

definition get_rank :: "64 word \<Rightarrow> nat \<Rightarrow> nat" where
  "get_rank x b = (min b (if x \<noteq> 0 then clzl x else 64) + 1) mod 256"

text \<open>The eight bytes of the key are hashed; the registers are unsigned bytes.\<close>

definition int64_bytes :: "int \<Rightarrow> 8 word list" where
  "int64_bytes key = map (\<lambda>j. ucast (drop_bit (8 * j) (word_of_int key :: 64 word))) [0..<8]"

definition agg_approximate_count_distinct :: "nat list \<Rightarrow> int \<Rightarrow> nat \<Rightarrow> nat list" where
  "agg_approximate_count_distinct M key b =
     (let hash = MurmurHash64A (int64_bytes key) 0;
          index = unat (ucast (drop_bit (64 - b) hash) :: 32 word);
          rank = get_rank (push_bit b hash) (64 - b)
      in M[index := max (M ! index) rank])"

section \<open>Descriptors\<close>

definition bitmap_bits_to_bytes :: "nat \<Rightarrow> nat" where
  "bitmap_bits_to_bytes bitmap_sz =
     (let bitmap_byte_sz = bitmap_sz div 8 in if bitmap_sz mod 8 \<noteq> 0 then bitmap_byte_sz + 1 else bitmap_byte_sz)"

datatype CountDistinctImplType = Invalid | Bitmap | HashSet

record CountDistinctDescriptor =
  impl_type :: CountDistinctImplType
  arg_type :: SQLTypes
  min_val :: int
  bitmap_sz_bits :: int
  approximate :: bool
  sub_bitmap_count :: nat

definition bitmapSizeBytes :: "CountDistinctDescriptor \<Rightarrow> nat result" where
  "bitmapSizeBytes desc =
     (if impl_type desc \<noteq> Bitmap then Inl CheckFailed
      else Inr (if approximate desc then 2 ^ nat (bitmap_sz_bits desc) * 1
                else bitmap_bits_to_bytes (nat (u64 (bitmap_sz_bits desc)))))"

definition align_to_int64 :: "nat \<Rightarrow> nat" where
  "align_to_int64 addr = (addr + (8 - 1)) div 8 * 8"

definition bitmapPaddedSizeBytes :: "CountDistinctDescriptor \<Rightarrow> nat result" where
  "bitmapPaddedSizeBytes desc =
     map_sum id (\<lambda>effective_size.
       (if 1 < sub_bitmap_count desc then align_to_int64 effective_size else effective_size) * sub_bitmap_count desc)
     (bitmapSizeBytes desc)"

definition desc_eq :: "CountDistinctDescriptor \<Rightarrow> CountDistinctDescriptor \<Rightarrow> bool" where
  "desc_eq lhs rhs \<longleftrightarrow> impl_type lhs = impl_type rhs \<and> min_val lhs = min_val rhs \<and>
     bitmap_sz_bits lhs = bitmap_sz_bits rhs \<and> approximate lhs = approximate rhs"

section \<open>Operations on the sets\<close>

definition bitmap_set_size :: "bit_vector \<Rightarrow> nat \<Rightarrow> nat" where
  "bitmap_set_size bitmap bitmap_byte_sz =
     (let bitmap_word_count = bitmap_byte_sz div 8;
          bitmap_rem_bytes = bitmap_byte_sz mod 8;
          set_size = fold (\<lambda>i n. n + popcountl (load_uint64 bitmap i)) [0..<bitmap_word_count] 0;
          rem_bitmap = drop (8 * bitmap_word_count) bitmap
      in fold (\<lambda>i n. n + length (filter (bit (rem_bitmap ! i)) [0..<8])) [0..<bitmap_rem_bytes] set_size)"

definition bitmap_set_union :: "bit_vector \<Rightarrow> bit_vector \<Rightarrow> nat \<Rightarrow> bit_vector" where
  "bitmap_set_union lhs rhs bitmap_sz = fold (\<lambda>i l. l[i := l ! i OR rhs ! i]) [0..<bitmap_sz] lhs"

text \<open>
  The sub-bitmaps lie behind each other in the same memory; the union only writes the first,
  so the others are read from the memory as it is at that moment.
\<close>

definition partial_bitmap_union :: "bit_vector \<Rightarrow> CountDistinctDescriptor \<Rightarrow> bit_vector result" where
  "partial_bitmap_union set_vals desc =
     (case (bitmapPaddedSizeBytes desc, bitmapSizeBytes desc) of
        (Inr padded, Inr sz) \<Rightarrow>
          if padded mod sub_bitmap_count desc \<noteq> 0 then Inl CheckFailed
          else let partial_padded_size = padded div sub_bitmap_count desc
               in Inr (fold (\<lambda>i m. bitmap_set_union m (drop (i * partial_padded_size) m) sz)
                    [1..<sub_bitmap_count desc] set_vals)
      | _ \<Rightarrow> Inl CheckFailed)"

text \<open>The positions that the inner loop of \<open>count_distinct_set\<close> finds in a byte.\<close>

function set_positions :: "nat \<Rightarrow> nat \<Rightarrow> nat list" where
  "set_positions set_val j =
     (if set_val div 2 \<noteq> 0
      then (if set_val mod 2 = 1 then [j] else []) @ set_positions (set_val div 2) (j + 1)
      else if set_val mod 2 = 1 then [j] else [])"
  by pat_completeness auto

termination by (relation "measure fst") auto

declare set_positions.simps [simp del]

record 'h set_memory =
  mem_bytes :: bit_vector
  mem_hashed :: 'h

text \<open>
  The values of a set; \<open>half\<close> is the half range of the type \<open>T\<close>.  The position \<open>i * 8 + j\<close> is computed in
  32 bits.  The index \<open>i\<close> of the loop has 32 bits too and is compared as a \<open>size_t\<close>, so the loop ends at
  the latest when \<open>i\<close> turns negative.
\<close>

definition count_distinct_set ::
  "int \<Rightarrow> ('h \<Rightarrow> int list) \<Rightarrow> 'h set_memory option \<Rightarrow> CountDistinctDescriptor \<Rightarrow> int list result" where
  "count_distinct_set half hs_list set_handle desc =
     (case set_handle of None \<Rightarrow> Inr []
      | Some m \<Rightarrow>
        if impl_type desc = Bitmap
        then map_sum id (\<lambda>sz. concat (map (\<lambda>i. map (\<lambda>j. wrap_s half (s64 (s32 (int i * 8 + int j) + min_val desc)))
               (set_positions (unat (mem_bytes m ! i)) 0)) [0..<min sz 2147483648])) (bitmapSizeBytes desc)
        else if impl_type desc \<noteq> HashSet then Inl CheckFailed
        else Inr (map (wrap_s half) (hs_list (mem_hashed m))))"

text \<open>The size of a set, and the memory afterwards: sub-bitmaps are merged in place.\<close>

definition count_distinct_set_size ::
  "(bit_vector \<Rightarrow> int \<Rightarrow> int) \<Rightarrow> ('h \<Rightarrow> nat) \<Rightarrow> 'h set_memory option \<Rightarrow> CountDistinctDescriptor \<Rightarrow>
   ('h set_memory option \<times> int) result" where
  "count_distinct_set_size hll_size hs_size set_handle desc =
     (case set_handle of None \<Rightarrow> Inr (None, 0)
      | Some m \<Rightarrow>
        if impl_type desc = Bitmap
        then if approximate desc
             then if bitmap_sz_bits desc \<le> 0 then Inl CheckFailed
                  else Inr (Some m, hll_size (mem_bytes m) (bitmap_sz_bits desc))
             else case (if 1 < sub_bitmap_count desc then partial_bitmap_union (mem_bytes m) desc else Inr (mem_bytes m)) of
                    Inl e \<Rightarrow> Inl e
                  | Inr vals \<Rightarrow>
                    map_sum id (\<lambda>sz. (Some (m\<lparr>mem_bytes := vals\<rparr>), int (bitmap_set_size vals sz))) (bitmapSizeBytes desc)
        else if impl_type desc \<noteq> HashSet then Inl CheckFailed
        else Inr (Some m, int (hs_size (mem_hashed m))))"

text \<open>\<open>hll_unify\<close> compares the registers as signed bytes and writes both sides.\<close>

definition hll_unify :: "nat list \<Rightarrow> nat list \<Rightarrow> nat \<Rightarrow> nat list \<times> nat list" where
  "hll_unify lhs rhs m =
     fold (\<lambda>r (l, h). let v = nat (u8 (max (s8 (int (l ! r))) (s8 (int (h ! r))))) in (l[r := v], h[r := v])) [0..<m] (lhs, rhs)"

definition count_zeros :: "nat list \<Rightarrow> nat \<Rightarrow> nat" where
  "count_zeros M m = fold (\<lambda>i zeros. if M ! i = 0 then zeros + 1 else zeros) [0..<m] 0"

text \<open>The contents of the new set after the union with the old one; registers are bytes.\<close>

definition count_distinct_set_union ::
  "('h \<Rightarrow> 'h \<Rightarrow> 'h) \<Rightarrow> 'h set_memory \<Rightarrow> 'h set_memory \<Rightarrow> CountDistinctDescriptor \<Rightarrow> CountDistinctDescriptor \<Rightarrow>
   'h set_memory result" where
  "count_distinct_set_union hs_insert new_set old_set new_desc old_desc =
     (if impl_type new_desc = Bitmap
      then if approximate new_desc
           then if \<not> approximate old_desc then Inl CheckFailed
                else Inr (new_set\<lparr>mem_bytes := map of_nat (fst (hll_unify (map unat (mem_bytes new_set))
                       (map unat (mem_bytes old_set)) (2 ^ nat (bitmap_sz_bits old_desc))))\<rparr>)
           else if sub_bitmap_count new_desc \<noteq> sub_bitmap_count old_desc then Inl CheckFailed
           else if sub_bitmap_count old_desc < 1 then Inl CheckFailed
           else map_sum id (\<lambda>bitmap_byte_sz.
                  new_set\<lparr>mem_bytes := bitmap_set_union (mem_bytes new_set) (mem_bytes old_set) bitmap_byte_sz\<rparr>)
                  (if sub_bitmap_count old_desc = 1 then bitmapSizeBytes old_desc else bitmapPaddedSizeBytes old_desc)
      else if impl_type old_desc \<noteq> HashSet then Inl CheckFailed
      else Inr (new_set\<lparr>mem_hashed := hs_insert (mem_hashed new_set) (mem_hashed old_set)\<rparr>))"

section \<open>The set a bitmap stands for\<close>

definition bitmap_vals :: "int \<Rightarrow> bit_vector \<Rightarrow> int set" where
  "bitmap_vals lo bm = {v. \<exists>i < 8 * length bm. v = lo + int i \<and> isBitSetAt bm i}"

definition bitmap_of :: "int \<Rightarrow> int \<Rightarrow> nat \<Rightarrow> int list \<Rightarrow> bit_vector" where
  "bitmap_of lo skip n vs =
     foldl (\<lambda>bm v. agg_count_distinct_bitmap_skip_val bm v lo skip) (replicate n 0) vs"

lemma bitmap_index: "lo \<le> v \<Longrightarrow> v < lo + 2 ^ 62 \<Longrightarrow> nat (u64 (v - lo)) = nat (v - lo)"
  by (simp add: wrap_id)

lemma agg_bitmap_setBitAt:
  assumes "lo \<le> v" "v < lo + 2 ^ 62"
  shows "agg_count_distinct_bitmap bm v lo = setBitAt bm (nat (v - lo))"
  using assms mask_bit [of "nat (v - lo) mod 8"]
  by (simp add: agg_count_distinct_bitmap_def Let_def setBitAt_def bitmap_index)

lemma bitmap_of_length: "length (bitmap_of lo skip n vs) = n"
proof -
  have "length (foldl (\<lambda>bm v. agg_count_distinct_bitmap_skip_val bm v lo skip) bm vs) = length bm" for bm
    by (induction vs arbitrary: bm)
      (simp_all add: agg_count_distinct_bitmap_skip_val_def agg_count_distinct_bitmap_def Let_def)
  then show ?thesis by (simp add: bitmap_of_def)
qed

lemma bitmap_of_get:
  assumes "\<forall>v \<in> set vs. v \<noteq> skip \<longrightarrow> lo \<le> v \<and> v < lo + 8 * int n" "8 * int n \<le> 2 ^ 62" "i < 8 * n"
  shows "isBitSetAt (bitmap_of lo skip n vs) i \<longleftrightarrow> lo + int i \<in> set vs - {skip}"
proof -
  have "isBitSetAt (foldl (\<lambda>bm v. agg_count_distinct_bitmap_skip_val bm v lo skip) bm vs) i \<longleftrightarrow>
      isBitSetAt bm i \<or> lo + int i \<in> set vs - {skip}" if "length bm = n" for bm
    using assms(1) that
  proof (induction vs arbitrary: bm)
    case (Cons v vs)
    show ?case
    proof (cases "v = skip")
      case True
      then show ?thesis using Cons by (simp add: agg_count_distinct_bitmap_skip_val_def)
    next
      case False
      define k where "k = nat (v - lo)"
      have v: "v = lo + int k" "lo \<le> v" "v < lo + 8 * int n" using Cons.prems(1) False by (auto simp: k_def)
      then have "v < lo + 2 ^ 62" using assms(2) by linarith
      then have "agg_count_distinct_bitmap_skip_val bm v lo skip = setBitAt bm k"
        using False v(2) by (simp add: agg_count_distinct_bitmap_skip_val_def agg_bitmap_setBitAt k_def)
      moreover have "isBitSetAt (setBitAt bm k) i = (k = i \<or> isBitSetAt bm i)"
        using v Cons.prems(2) by (intro setBitAt_get) linarith
      ultimately show ?thesis using Cons False v(1) by auto
    qed
  qed simp
  from this [of "replicate n 0"] have
    "isBitSetAt (bitmap_of lo skip n vs) i \<longleftrightarrow> isBitSetAt (replicate n 0) i \<or> lo + int i \<in> set vs - {skip}"
    by (simp add: bitmap_of_def)
  moreover have "\<not> isBitSetAt (replicate n 0) i" using assms(3) by (simp add: isBitSetAt_bit less_mult_imp_div_less mult.commute)
  ultimately show ?thesis by blast
qed

lemma bitmap_of_vals:
  assumes "\<forall>v \<in> set vs. v \<noteq> skip \<longrightarrow> lo \<le> v \<and> v < lo + 8 * int n" "8 * int n \<le> 2 ^ 62"
  shows "bitmap_vals lo (bitmap_of lo skip n vs) = set vs - {skip}"
proof -
  have "v \<in> bitmap_vals lo (bitmap_of lo skip n vs) \<longleftrightarrow> v \<in> set vs - {skip}" for v
  proof
    assume "v \<in> set vs - {skip}"
    then have "v = lo + int (nat (v - lo))" "nat (v - lo) < 8 * n" "v \<in> set vs - {skip}" using assms(1) by auto
    then show "v \<in> bitmap_vals lo (bitmap_of lo skip n vs)"
      using bitmap_of_get [OF assms, of "nat (v - lo)"] by (auto simp: bitmap_vals_def bitmap_of_length)
  next
    assume "v \<in> bitmap_vals lo (bitmap_of lo skip n vs)"
    then obtain i where "i < 8 * n" "v = lo + int i" "isBitSetAt (bitmap_of lo skip n vs) i"
      by (auto simp: bitmap_vals_def bitmap_of_length)
    then show "v \<in> set vs - {skip}" using bitmap_of_get [OF assms, of i] by blast
  qed
  then show ?thesis by blast
qed

section \<open>Size\<close>

lemma popcount_byte: "length (filter (bit (bm ! k)) [0..<8]) = set_bits bm (8 * k) (8 * k + 8)" for bm :: bit_vector
proof -
  have b: "isBitSetAt bm (8 * k + n) = bit (bm ! k) n" if "n < 8" for n
    using that by (simp add: isBitSetAt_bit)
  have "{i. 8 * k \<le> i \<and> i < 8 * k + 8 \<and> isBitSetAt bm i} = (\<lambda>n. 8 * k + n) ` {n. n < 8 \<and> bit (bm ! k) n}"
  proof (rule set_eqI, rule iffI)
    fix i assume i: "i \<in> {i. 8 * k \<le> i \<and> i < 8 * k + 8 \<and> isBitSetAt bm i}"
    then show "i \<in> (\<lambda>n. 8 * k + n) ` {n. n < 8 \<and> bit (bm ! k) n}"
      using b [of "i - 8 * k"] by (intro image_eqI [of _ _ "i - 8 * k"]) auto
  qed (use b in auto)
  then show ?thesis
    by (simp add: set_bits_def length_filter_conv_card card_image inj_on_def)
      (rule arg_cong [of _ _ card], auto)
qed

lemma bitmap_set_size_eq: "n \<le> length bm \<Longrightarrow> bitmap_set_size bm n = set_bits bm 0 (8 * n)"
proof -
  assume "n \<le> length bm"
  have w: "fold (\<lambda>i s. s + popcountl (load_uint64 bm i)) [0..<m] 0 = set_bits bm 0 (64 * m)" for m
  proof (induction m)
    case (Suc m)
    then show ?case using set_bits_split [of 0 "64 * m" "64 * m + 64" bm] by (simp add: popcountl_load add.commute)
  qed simp
  define q r where "q = n div 8" and "r = n mod 8"
  have n: "n = 8 * q + r" by (simp add: q_def r_def)
  have "fold (\<lambda>i s. s + length (filter (bit (drop (8 * q) bm ! i)) [0..<8])) [0..<k] (set_bits bm 0 (64 * q)) =
      set_bits bm 0 (64 * q + 8 * k)" if "8 * q + k \<le> length bm" for k
    using that
  proof (induction k)
    case (Suc k)
    have d: "drop (8 * q) bm ! k = bm ! (8 * q + k)" using Suc.prems by simp
    have e: "8 * (8 * q + k) = 64 * q + 8 * k" by simp
    have "set_bits bm 0 (64 * q + 8 * k) + length (filter (bit (drop (8 * q) bm ! k)) [0..<8]) =
        set_bits bm 0 (64 * q + 8 * k) + set_bits bm (64 * q + 8 * k) (64 * q + 8 * k + 8)"
      unfolding d popcount_byte e ..
    also have "\<dots> = set_bits bm 0 (64 * q + 8 * Suc k)"
      using set_bits_split [of 0 "64 * q + 8 * k" "64 * q + 8 * k + 8" bm] by (simp add: algebra_simps)
    finally show ?case using Suc by simp
  qed simp
  moreover have "bitmap_set_size bm n =
      fold (\<lambda>i s. s + length (filter (bit (drop (8 * q) bm ! i)) [0..<8])) [0..<r] (set_bits bm 0 (64 * q))"
    by (simp only: bitmap_set_size_def Let_def w q_def r_def)
  ultimately show ?thesis using \<open>n \<le> length bm\<close> unfolding n by simp
qed

lemma bitmap_vals_image: "bitmap_vals lo bm = (\<lambda>i. lo + int i) ` {i. i < 8 * length bm \<and> isBitSetAt bm i}"
  by (auto simp: bitmap_vals_def)

lemma bitmap_set_size_card: "bitmap_set_size bm (length bm) = card (bitmap_vals lo bm)"
  by (simp add: bitmap_set_size_eq set_bits_def bitmap_vals_image card_image inj_on_def)

section \<open>Listing\<close>

lemma set_positions_eq: "set_positions n j = map (\<lambda>k. j + k) (filter (bit n) [0..<b])" if "n < 2 ^ b"
  using that
proof (induction n j arbitrary: b rule: set_positions.induct)
  case (1 n j)
  show ?case
  proof (cases b)
    case 0
    then show ?thesis using 1(2) by (subst set_positions.simps) simp
  next
    case (Suc c)
    have l: "filter (bit n) [0..<Suc c] = (if odd n then [0] else []) @ map Suc (filter (bit (n div 2)) [0..<c])"
      by (subst upt_conv_Cons, simp) (simp add: map_Suc_upt [symmetric] filter_map o_def bit_Suc bit_0 del: upt_Suc)
    show ?thesis
    proof (cases "n div 2 = 0")
      case True
      then have "filter (bit (n div 2)) [0..<c] = []" by simp
      then show ?thesis unfolding Suc l using True
        by (subst set_positions.simps) (simp add: odd_iff_mod_2_eq_one)
    next
      case False
      have "n div 2 < 2 ^ c" using 1(2) Suc by simp
      then have "set_positions (n div 2) (j + 1) = map (\<lambda>k. j + 1 + k) (filter (bit (n div 2)) [0..<c])"
        using 1(1) False by blast
      then show ?thesis unfolding Suc l using False
        by (subst set_positions.simps) (simp add: odd_iff_mod_2_eq_one o_def)
    qed
  qed
qed

definition bitmap_list :: "int \<Rightarrow> bit_vector \<Rightarrow> nat \<Rightarrow> int list" where
  "bitmap_list lo bm n = map (\<lambda>i. lo + int i) (filter (isBitSetAt bm) [0..<8 * n])"

lemma bitmap_list_eq:
  "concat (map (\<lambda>i. map (\<lambda>j. int (i * 8 + j) + lo) (set_positions (unat (bm ! i)) 0)) [0..<n]) = bitmap_list lo bm n"
proof (induction n)
  case (Suc n)
  have "unat (bm ! n) < 2 ^ 8" using unsigned_less [of "bm ! n"] by simp
  then have "set_positions (unat (bm ! n)) 0 = filter (bit (unat (bm ! n))) [0..<8]"
    using set_positions_eq [of "unat (bm ! n)" 8 0] by simp
  also have "\<dots> = filter (\<lambda>j. isBitSetAt bm (n * 8 + j)) [0..<8]"
    by (rule filter_cong) (simp_all add: isBitSetAt_bit bit_unsigned_iff)
  finally have p: "set_positions (unat (bm ! n)) 0 = filter (\<lambda>j. isBitSetAt bm (n * 8 + j)) [0..<8]" .
  have "[8 * n..<8 * n + 8] = map (\<lambda>j. n * 8 + j) [0..<8]"
    using map_add_upt [of "n * 8" 8] by (simp add: add.commute mult.commute)
  then have "[0..<8 * Suc n] = [0..<8 * n] @ map (\<lambda>j. n * 8 + j) [0..<8]"
    using upt_add_eq_append [of 0 "8 * n" 8] by (simp add: add.commute)
  then show ?case using Suc by (simp add: bitmap_list_def p filter_map o_def add.commute)
qed (simp add: bitmap_list_def)

lemma bitmap_list_sorted: "sorted (bitmap_list lo bm n)" "distinct (bitmap_list lo bm n)"
proof -
  have "sorted (map (\<lambda>i. lo + int i) [0..<8 * n])" by (simp add: sorted_iff_nth_mono)
  then show "sorted (bitmap_list lo bm n)" unfolding bitmap_list_def by (rule sorted_filter)
  show "distinct (bitmap_list lo bm n)" by (simp add: bitmap_list_def distinct_map inj_on_def)
qed

lemma bitmap_list_set: "set (bitmap_list lo bm (length bm)) = bitmap_vals lo bm"
  by (auto simp: bitmap_list_def bitmap_vals_def)

text \<open>The wraps of \<open>count_distinct_set\<close> do nothing as long as the bitmap has at most \<open>2 ^ 31\<close> bits and its values are of the type.\<close>

lemma bitmap_list_wraps:
  assumes "8 * n \<le> 2147483648" "\<forall>v \<in> set (bitmap_list lo bm n). in_s half v" "half \<le> 9223372036854775808"
  shows "concat (map (\<lambda>i. map (\<lambda>j. wrap_s half (s64 (s32 (int i * 8 + int j) + lo))) (set_positions (unat (bm ! i)) 0)) [0..<n]) =
    bitmap_list lo bm n"
proof -
  have "wrap_s half (s64 (s32 (int i * 8 + int j) + lo)) = int (i * 8 + j) + lo"
    if i: "i < n" and j: "j \<in> set (set_positions (unat (bm ! i)) 0)" for i j
  proof -
    have "int (i * 8 + j) + lo \<in> set (bitmap_list lo bm n)" unfolding bitmap_list_eq [symmetric] using i j by auto
    then have v: "in_s half (int (i * 8 + j) + lo)" "int (i * 8 + j) + lo \<in> set (bitmap_list lo bm n)" using assms(2) by blast+
    have "int (i * 8 + j) < 2147483648" using v(2) assms(1) by (auto simp: bitmap_list_def)
    then have "s32 (int i * 8 + int j) = int (i * 8 + j)" by (simp add: wrap_s_id)
    moreover have "s64 (int (i * 8 + j) + lo) = int (i * 8 + j) + lo" using v(1) assms(3) by (intro wrap_s_id) (simp_all add: in_s_def)
    ultimately show ?thesis using wrap_s_in_s [OF v(1)] by (simp only:)
  qed
  then have "map (\<lambda>i. map (\<lambda>j. wrap_s half (s64 (s32 (int i * 8 + int j) + lo))) (set_positions (unat (bm ! i)) 0)) [0..<n] =
      map (\<lambda>i. map (\<lambda>j. int (i * 8 + j) + lo) (set_positions (unat (bm ! i)) 0)) [0..<n]"
    by (intro map_cong refl) simp
  then show ?thesis by (simp only: bitmap_list_eq)
qed

section \<open>Union\<close>

lemma bitmap_set_union_nth:
  "sz \<le> length lhs \<Longrightarrow> length (bitmap_set_union lhs rhs sz) = length lhs \<and>
   (\<forall>k. bitmap_set_union lhs rhs sz ! k = (if k < sz then lhs ! k OR rhs ! k else lhs ! k))"
  unfolding bitmap_set_union_def by (induction sz) (auto simp: nth_list_update)

lemma bitmap_set_union_get:
  assumes "length lhs = n"
  shows "isBitSetAt (bitmap_set_union lhs rhs n) i = (if i < 8 * n then isBitSetAt lhs i \<or> isBitSetAt rhs i else isBitSetAt lhs i)"
  using bitmap_set_union_nth [of n lhs rhs] assms
  by (simp add: isBitSetAt_bit bit_or_iff div_less_iff_less_mult mult.commute)

lemma bitmap_set_union_vals:
  assumes "length lhs = n" "length rhs = n"
  shows "bitmap_vals lo (bitmap_set_union lhs rhs n) = bitmap_vals lo lhs \<union> bitmap_vals lo rhs"
  using bitmap_set_union_nth [of n lhs rhs] assms
  by (auto simp: bitmap_vals_def bitmap_set_union_get)

text \<open>Two bitmaps of the same length with the same values are equal.\<close>

lemma bitmap_eqI:
  assumes "length a = length b" "bitmap_vals lo a = bitmap_vals lo b"
  shows "a = b"
proof (rule nth_equalityI [OF assms(1)])
  fix k assume k: "k < length a"
  have g: "isBitSetAt bm i \<longleftrightarrow> lo + int i \<in> bitmap_vals lo bm" if "i < 8 * length bm" for bm i
    using that by (auto simp: bitmap_vals_def)
  have "isBitSetAt a i = isBitSetAt b i" if "i div 8 = k" for i
  proof -
    have "i < 8 * length a" using that k by (simp add: div_less_iff_less_mult mult.commute flip: that)
    then show ?thesis using g [of i a] g [of i b] assms by simp
  qed
  then show "a ! k = b ! k" using byte_eq_iff [of a k b] by blast
qed

section \<open>HyperLogLog registers\<close>

definition hll_index :: "nat \<Rightarrow> int \<Rightarrow> nat" where
  "hll_index b key = unat (ucast (drop_bit (64 - b) (MurmurHash64A (int64_bytes key) 0)) :: 32 word)"

definition hll_rank :: "nat \<Rightarrow> int \<Rightarrow> nat" where
  "hll_rank b key = get_rank (push_bit b (MurmurHash64A (int64_bytes key) 0)) (64 - b)"

definition hll_registers :: "nat \<Rightarrow> nat \<Rightarrow> int list \<Rightarrow> nat list" where
  "hll_registers b m ks = foldl (\<lambda>M k. agg_approximate_count_distinct M k b) (replicate m 0) ks"

lemma agg_approximate_eq:
  "agg_approximate_count_distinct M k b = M[hll_index b k := max (M ! hll_index b k) (hll_rank b k)]"
  by (simp add: agg_approximate_count_distinct_def hll_index_def hll_rank_def Let_def)

lemma get_rank_le: "b \<le> 64 \<Longrightarrow> get_rank x b \<le> b + 1"
  by (simp add: get_rank_def)

lemma hll_rank_le: "hll_rank b k \<le> 65"
proof -
  have "hll_rank b k \<le> 64 - b + 1" unfolding hll_rank_def by (rule get_rank_le) simp
  also have "\<dots> \<le> 65" by simp
  finally show ?thesis .
qed

lemma hll_registers_nth:
  "length (hll_registers b m ks) = m \<and>
   (\<forall>i < m. hll_registers b m ks ! i = Max (insert 0 (hll_rank b ` {k \<in> set ks. hll_index b k = i})))"
proof (induction ks rule: rev_induct)
  case Nil
  then show ?case by (simp add: hll_registers_def)
next
  case (snoc k ks)
  have s: "hll_registers b m (ks @ [k]) = agg_approximate_count_distinct (hll_registers b m ks) k b"
    by (simp add: hll_registers_def)
  have i: "{x \<in> set (ks @ [k]). hll_index b x = i} =
      (if hll_index b k = i then insert k {x \<in> set ks. hll_index b x = i} else {x \<in> set ks. hll_index b x = i})" for i
    by auto
  show ?case unfolding s agg_approximate_eq i using snoc
    by (auto simp: nth_list_update insert_commute [of 0] max.commute)
qed

lemma hll_register_le: "i < m \<Longrightarrow> hll_registers b m ks ! i \<le> 65"
  using hll_registers_nth [of b m ks] hll_rank_le by auto

lemma hll_unify_nth:
  assumes "length lhs = m" "length rhs = m" "\<forall>i < m. lhs ! i \<le> 65 \<and> rhs ! i \<le> 65"
  shows "hll_unify lhs rhs m = (map (\<lambda>i. max (lhs ! i) (rhs ! i)) [0..<m], map (\<lambda>i. max (lhs ! i) (rhs ! i)) [0..<m])"
proof -
  define v where "v = (\<lambda>i. max (lhs ! i) (rhs ! i))"
  have w: "nat (u8 (max (s8 (int a)) (s8 (int b)))) = max a b" if "a \<le> 65" "b \<le> 65" for a b
    using that by (simp add: wrap_s_id wrap_u_id max_def)
  have "fold (\<lambda>r (l, h). let v = nat (u8 (max (s8 (int (l ! r))) (s8 (int (h ! r))))) in (l[r := v], h[r := v])) [0..<k] (lhs, rhs) =
      (map v [0..<k] @ drop k lhs, map v [0..<k] @ drop k rhs)" if "k \<le> m" for k
    using that
  proof (induction k)
    case (Suc k)
    then have "nat (u8 (max (s8 (int (lhs ! k))) (s8 (int (rhs ! k))))) = v k" using w assms(3) by (simp add: v_def)
    then show ?case using Suc assms(1,2)
      by (simp add: nth_append list_update_append Cons_nth_drop_Suc [symmetric] Let_def)
  qed simp
  from this [of m] show ?thesis using assms(1,2) by (simp add: hll_unify_def v_def)
qed

lemma hll_unify_registers:
  "hll_unify (hll_registers b m ks) (hll_registers b m ls) m = (hll_registers b m (ks @ ls), hll_registers b m (ks @ ls))"
proof -
  let ?A = "\<lambda>ks i. insert 0 (hll_rank b ` {k \<in> set ks. hll_index b k = i})"
  have "max (Max (?A ks i)) (Max (?A ls i)) = Max (?A (ks @ ls) i)" for i
  proof -
    have "?A (ks @ ls) i = ?A ks i \<union> ?A ls i" by auto
    then show ?thesis by (simp only:) (rule Max_Un [symmetric], auto)
  qed
  then have "map (\<lambda>i. max (hll_registers b m ks ! i) (hll_registers b m ls ! i)) [0..<m] = hll_registers b m (ks @ ls)"
    using hll_registers_nth [of b m ks] hll_registers_nth [of b m ls] hll_registers_nth [of b m "ks @ ls"]
    by (intro nth_equalityI) simp_all
  moreover have "\<forall>i < m. hll_registers b m ks ! i \<le> 65 \<and> hll_registers b m ls ! i \<le> 65"
    using hll_register_le by blast
  ultimately show ?thesis
    using hll_unify_nth [of "hll_registers b m ks" m "hll_registers b m ls"] hll_registers_nth by simp
qed

section \<open>Properties\<close>

text \<open>The descriptor of an exact distinct count over a range of values.\<close>

definition exact_desc :: "int \<Rightarrow> nat \<Rightarrow> CountDistinctDescriptor" where
  "exact_desc lo bits = \<lparr>impl_type = Bitmap, arg_type = kBIGINT, min_val = lo, bitmap_sz_bits = int bits,
     approximate = False, sub_bitmap_count = 1\<rparr>"

lemma exact_desc_bytes: "bits \<le> 2 ^ 60 \<Longrightarrow> bitmapSizeBytes (exact_desc lo bits) = Inr (bitmap_bits_to_bytes bits)"
  by (simp add: bitmapSizeBytes_def exact_desc_def wrap_u_id)

lemma bits_to_bytes_bounds: "bits \<le> 8 * bitmap_bits_to_bytes bits" "8 * bitmap_bits_to_bytes bits < bits + 8"
proof -
  define q r where "q = bits div 8" and "r = bits mod 8"
  have "bits = 8 * q + r" "r < 8" by (simp_all add: q_def r_def)
  moreover have "bitmap_bits_to_bytes bits = (if r \<noteq> 0 then q + 1 else q)"
    by (simp add: bitmap_bits_to_bytes_def q_def r_def)
  ultimately show "bits \<le> 8 * bitmap_bits_to_bytes bits" "8 * bitmap_bits_to_bytes bits < bits + 8" by auto
qed

text \<open>
  C13: the exact distinct count refines a set: after aggregating the rows, \<open>count_distinct_set_size\<close>
  is the number of distinct non-NULL values, \<open>bit_is_set\<close> and \<open>bit_is_set_cider\<close> test membership, and
  \<open>count_distinct_set\<close> lists exactly these values in increasing order, provided that the bitmap has at
  most \<open>2 ^ 31\<close> bits, the positions of which fit the \<open>int\<close> they are computed in, and that the values are of
  the type of the list.
\<close>

theorem count_distinct_exact:
  fixes h :: 'h
  assumes "\<forall>v \<in> set vs. v \<noteq> skip \<longrightarrow> lo \<le> v \<and> v < lo + int bits" "bits \<le> 2 ^ 60"
  defines "n \<equiv> bitmap_bits_to_bytes bits"
  defines "m \<equiv> \<lparr>mem_bytes = bitmap_of lo skip n vs, mem_hashed = h\<rparr>" and "S \<equiv> set vs - {skip}"
  shows "count_distinct_set_size hll_size hs_size (Some m) (exact_desc lo bits) = Inr (Some m, int (card S)) \<and>
    (bits \<le> 2147483648 \<and> (\<forall>v \<in> S. in_s half v) \<and> half \<le> 9223372036854775808 \<longrightarrow>
      count_distinct_set half hs_list (Some m) (exact_desc lo bits) = Inr (sorted_list_of_set S)) \<and>
    (\<forall>v. v \<noteq> skip \<longrightarrow> bit_is_set (Some (mem_bytes m)) v lo (lo + int bits - 1) skip nb = of_bool (v \<in> S)) \<and>
    (\<forall>v. v \<noteq> skip \<longrightarrow> bit_is_set_cider (Some (mem_bytes m)) v lo (lo + int bits - 1) = (v \<in> S))"
proof -
  define bm where "bm = bitmap_of lo skip n vs"
  have bn: "bits \<le> 8 * n" "8 * n < bits + 8" unfolding n_def by (rule bits_to_bytes_bounds)+
  then have n: "8 * int n \<le> 2 ^ 62" using assms(2) by simp
  have vs: "\<forall>v \<in> set vs. v \<noteq> skip \<longrightarrow> lo \<le> v \<and> v < lo + 8 * int n" using assms(1) bn(1) by fastforce
  have l: "length bm = n" by (simp add: bm_def bitmap_of_length)
  have S: "bitmap_vals lo bm = S" unfolding bm_def S_def using vs n by (rule bitmap_of_vals)
  have m: "m = \<lparr>mem_bytes = bm, mem_hashed = h\<rparr>" by (simp add: m_def bm_def)
  have d: "impl_type (exact_desc lo bits) = Bitmap" "\<not> approximate (exact_desc lo bits)" "sub_bitmap_count (exact_desc lo bits) = 1"
    "min_val (exact_desc lo bits) = lo" by (simp_all add: exact_desc_def)
  have "count_distinct_set_size hll_size hs_size (Some m) (exact_desc lo bits) = Inr (Some m, int (card S))"
    using bitmap_set_size_card [of bm lo] assms(2) by (simp add: count_distinct_set_size_def d exact_desc_bytes n_def [symmetric] m l S)
  moreover have list: "bitmap_list lo bm n = sorted_list_of_set S" "set (bitmap_list lo bm n) = S"
    using sorted_list_of_set.idem_if_sorted_distinct [OF bitmap_list_sorted [of lo bm n]] bitmap_list_set [of lo bm]
    by (simp_all add: l S)
  moreover have "count_distinct_set half hs_list (Some m) (exact_desc lo bits) = Inr (bitmap_list lo bm n)"
    if "bits \<le> 2147483648 \<and> (\<forall>v \<in> S. in_s half v) \<and> half \<le> 9223372036854775808"
  proof -
    have "bits \<le> 2147483648" using that by blast
    then have "8 * n \<le> 2147483648" using bn(2) by presburger
    then show ?thesis
      using bitmap_list_wraps [of n lo bm half] that list(2) exact_desc_bytes [OF assms(2), of lo]
      by (simp add: count_distinct_set_def d m n_def [symmetric])
  qed
  moreover have b: "isBitSetAt bm (nat (v - lo)) \<longleftrightarrow> v \<in> S" if "lo \<le> v" "v < lo + int bits" for v
    using bitmap_of_get [OF vs n, of "nat (v - lo)"] that bn(1) by (simp add: bm_def S_def)
  moreover have "S \<subseteq> {lo..<lo + int bits}" using assms(1) by (auto simp: S_def)
  moreover have "bm ! (nat (v - lo) div 8) AND push_bit (nat (v - lo) mod 8) 1 \<noteq> 0 \<longleftrightarrow> isBitSetAt bm (nat (v - lo))" for v
    using mask_bit [of "nat (v - lo) mod 8"] by (simp add: isBitSetAt_def)
  moreover have "nat (u64 (v - lo)) = nat (v - lo)" if "lo \<le> v" "v < lo + int bits" for v
    using that n bn(1) by (intro bitmap_index) linarith+
  ultimately show ?thesis by (auto simp: bit_is_set_def bit_is_set_cider_def m Let_def)
qed

theorem count_distinct_exact_witness:
  "count_distinct_set 128 (\<lambda>_. []) (Some \<lparr>mem_bytes = bitmap_of 10 (- 1) 1 [12, 10, - 1, 12], mem_hashed = ()\<rparr>) (exact_desc 10 8) =
    Inr [10, 12]"
proof -
  have "sorted_list_of_set (set [12, 10, - 1, 12] - {- 1}) = [10, 12 :: int]"
  proof -
    have "set [12, 10, - 1, 12] - {- 1} = set [10, 12 :: int]" by auto
    then show ?thesis using sorted_list_of_set.idem_if_sorted_distinct [of "[10, 12 :: int]"] by (simp only:) simp
  qed
  then show ?thesis using count_distinct_exact [of "[12, 10, - 1, 12]" "- 1" 10 8 "\<lambda>_ _. 0" "\<lambda>_. 0" "()" 128 "\<lambda>_. []" 0]
    by (auto simp: bitmap_bits_to_bytes_def in_s_def)
qed

text \<open>
  C34: merging the distinct sets of two fragments equals aggregating all their rows together:
  for bitmaps \<open>count_distinct_set_union\<close> gives the bitmap of the concatenated rows, and for
  HyperLogLog \<open>hll_unify\<close> gives the registers of the concatenated keys on both sides.
\<close>

theorem count_distinct_merge:
  assumes "\<forall>v \<in> set vs \<union> set ws. v \<noteq> skip \<longrightarrow> lo \<le> v \<and> v < lo + int bits" "bits \<le> 2 ^ 60"
  defines "n \<equiv> bitmap_bits_to_bytes bits"
  shows "count_distinct_set_union hs_insert \<lparr>mem_bytes = bitmap_of lo skip n vs, mem_hashed = h\<rparr>
      \<lparr>mem_bytes = bitmap_of lo skip n ws, mem_hashed = h'\<rparr> (exact_desc lo bits) (exact_desc lo bits) =
      Inr \<lparr>mem_bytes = bitmap_of lo skip n (vs @ ws), mem_hashed = h\<rparr> \<and>
    hll_unify (hll_registers b m ks) (hll_registers b m ls) m = (hll_registers b m (ks @ ls), hll_registers b m (ks @ ls))"
proof
  have bn: "bits \<le> 8 * n" "8 * n < bits + 8" unfolding n_def by (rule bits_to_bytes_bounds)+
  then have n: "8 * int n \<le> 2 ^ 62" using assms(2) by simp
  have vs: "\<forall>v \<in> set vs \<union> set ws. v \<noteq> skip \<longrightarrow> lo \<le> v \<and> v < lo + 8 * int n" using assms(1) bn(1) by fastforce
  define u where "u = bitmap_set_union (bitmap_of lo skip n vs) (bitmap_of lo skip n ws) n"
  have "u = bitmap_of lo skip n (vs @ ws)"
  proof (rule bitmap_eqI)
    show "length u = length (bitmap_of lo skip n (vs @ ws))"
      using bitmap_set_union_nth [of n "bitmap_of lo skip n vs"] by (simp add: u_def bitmap_of_length)
    show "bitmap_vals lo u = bitmap_vals lo (bitmap_of lo skip n (vs @ ws))"
      unfolding u_def using vs n
      by (subst bitmap_set_union_vals) (auto simp: bitmap_of_length bitmap_of_vals)
  qed
  then show "count_distinct_set_union hs_insert \<lparr>mem_bytes = bitmap_of lo skip n vs, mem_hashed = h\<rparr>
      \<lparr>mem_bytes = bitmap_of lo skip n ws, mem_hashed = h'\<rparr> (exact_desc lo bits) (exact_desc lo bits) =
      Inr \<lparr>mem_bytes = bitmap_of lo skip n (vs @ ws), mem_hashed = h\<rparr>"
    using exact_desc_bytes [OF assms(2), of lo, folded n_def]
    by (simp add: count_distinct_set_union_def u_def) (simp add: exact_desc_def)
  show "hll_unify (hll_registers b m ks) (hll_registers b m ls) m = (hll_registers b m (ks @ ls), hll_registers b m (ks @ ls))"
    by (rule hll_unify_registers)
qed

theorem count_distinct_merge_witness:
  "count_distinct_set_union (\<lambda>a b. a) \<lparr>mem_bytes = bitmap_of 0 (- 1) 1 [3, - 1], mem_hashed = ()\<rparr>
     \<lparr>mem_bytes = bitmap_of 0 (- 1) 1 [5], mem_hashed = ()\<rparr> (exact_desc 0 8) (exact_desc 0 8) =
     Inr \<lparr>mem_bytes = bitmap_of 0 (- 1) 1 [3, - 1, 5], mem_hashed = ()\<rparr>"
  using count_distinct_merge [of "[3, - 1]" "[5]" "- 1" 0 8 "\<lambda>a b. a" "()" "()" 4 16 "[]" "[]"] by (simp add: bitmap_bits_to_bytes_def)

end
