(* ===== verification/Probing.thy ===== *)
theory Probing
  imports Cider_Prelude
begin

text \<open>
  Linear probing, the loop that every group-by and hash-join lookup of the runtime writes out:
  start at the slot of the hash, go to the next slot modulo the number of entries as long as
  the slot does not match, stop when the first slot comes round again.  The loop is a
  \<open>partial_function\<close>, so that it may run forever; \<open>open_table\<close> is the interface that a
  table offers to it, and its lemmas show that the loop returns, what it returns, and that it
  keeps the invariant of the table.
\<close>

section \<open>The loop\<close>

text \<open>
  \<open>try s i\<close> is what the body of the loop does at slot \<open>i\<close>: \<^term>\<open>None\<close> when the slot does not
  match, otherwise the new state and the result.
\<close>

partial_function (option) probe_loop ::
  "('s \<Rightarrow> nat \<Rightarrow> ('s \<times> 'r) option) \<Rightarrow> nat \<Rightarrow> nat \<Rightarrow> nat \<Rightarrow> 's \<Rightarrow> ('s \<times> 'r option) option" where
  "probe_loop try_slot entry_count h h_probe s =
     (if h_probe \<noteq> h
      then case try_slot s h_probe of
             Some (s', r) \<Rightarrow> Some (s', Some r)
           | None \<Rightarrow> probe_loop try_slot entry_count h ((h_probe + 1) mod entry_count) s
      else Some (s, None))"

definition probe ::
  "('s \<Rightarrow> nat \<Rightarrow> ('s \<times> 'r) option) \<Rightarrow> nat \<Rightarrow> nat \<Rightarrow> 's \<Rightarrow> ('s \<times> 'r option) option" where
  "probe try_slot entry_count h s =
     (case try_slot s h of
        Some (s', r) \<Rightarrow> Some (s', Some r)
      | None \<Rightarrow> probe_loop try_slot entry_count h ((h + 1) mod entry_count) s)"

text \<open>
  The variant with a watchdog: every hundredth step asks \<open>watchdog\<close>, the answer of
  \<open>dynamic_watchdog()\<close> at the given call, and gives up when it is true.
\<close>

partial_function (option) probe_loop_watchdog ::
  "('s \<Rightarrow> nat \<Rightarrow> ('s \<times> 'r) option) \<Rightarrow> (nat \<Rightarrow> bool) \<Rightarrow> nat \<Rightarrow> nat \<Rightarrow> nat \<Rightarrow> nat \<Rightarrow> nat \<Rightarrow> 's \<Rightarrow>
   ('s \<times> 'r option) option" where
  "probe_loop_watchdog try_slot watchdog entry_count h h_probe countdown calls s =
     (if h_probe \<noteq> h
      then case try_slot s h_probe of
             Some (s', r) \<Rightarrow> Some (s', Some r)
           | None \<Rightarrow>
             if countdown - 1 = 0
             then if watchdog calls then Some (s, None)
                  else probe_loop_watchdog try_slot watchdog entry_count h ((h_probe + 1) mod entry_count) 100 (calls + 1) s
             else probe_loop_watchdog try_slot watchdog entry_count h ((h_probe + 1) mod entry_count) (countdown - 1) calls s
      else Some (s, None))"

definition probe_watchdog ::
  "('s \<Rightarrow> nat \<Rightarrow> ('s \<times> 'r) option) \<Rightarrow> (nat \<Rightarrow> bool) \<Rightarrow> nat \<Rightarrow> nat \<Rightarrow> 's \<Rightarrow> ('s \<times> 'r option) option" where
  "probe_watchdog try_slot watchdog entry_count h s =
     (case try_slot s h of
        Some (s', r) \<Rightarrow> Some (s', Some r)
      | None \<Rightarrow> probe_loop_watchdog try_slot watchdog entry_count h ((h + 1) mod entry_count) 100 0 s)"

section \<open>The slots in probing order\<close>

definition path :: "nat \<Rightarrow> nat \<Rightarrow> nat \<Rightarrow> nat" where
  "path n h j = (h + j) mod n"

lemma path_less: "0 < n \<Longrightarrow> path n h j < n"
  by (simp add: path_def)

lemma path_0: "h < n \<Longrightarrow> path n h 0 = h"
  by (simp add: path_def)

lemma path_Suc [simp]: "Suc (path n h j) mod n = path n h (Suc j)"
  by (simp add: path_def mod_Suc_eq)

lemma path_inj_le: "j \<le> k \<Longrightarrow> k < n \<Longrightarrow> path n h j = path n h k \<Longrightarrow> j = k"
  using mod_eq_dvd_iff_nat [of "h + j" "h + k" n] nat_dvd_not_less [of "k - j" n] by (cases "j = k") (simp_all add: path_def)

lemma path_inj: "j < n \<Longrightarrow> k < n \<Longrightarrow> path n h j = path n h k \<Longrightarrow> j = k"
  using path_inj_le [of j k n h] path_inj_le [of k j n h] by (cases "j \<le> k") simp_all

lemma path_surj:
  assumes "h < n" "i < n" obtains j where "j < n" "path n h j = i"
proof -
  have "path n h ((i + n - h) mod n) = i" using assms by (simp add: path_def mod_add_right_eq)
  then show thesis using that [of "(i + n - h) mod n"] assms(2) by simp
qed

lemma path_eq_start: "h < n \<Longrightarrow> j < n \<Longrightarrow> path n h j = h \<longleftrightarrow> j = 0"
  using path_inj [of j n 0 h] path_0 [of h n] by auto

text \<open>The loop from the j-th slot on: it stops at the first slot that matches.\<close>

lemma probe_loop_none:
  assumes "h < n" "1 \<le> j" "j \<le> n" "\<forall>k. j \<le> k \<and> k < n \<longrightarrow> t s (path n h k) = None"
  shows "probe_loop t n h (path n h j) s = Some (s, None)"
  using assms(2-)
proof (induction "n - j" arbitrary: j)
  case 0
  then have "path n h j = h" using assms(1) by (simp add: path_def)
  then show ?case by (subst probe_loop.simps) simp
next
  case (Suc m)
  then have "path n h j \<noteq> h" using assms(1) by (simp add: path_eq_start)
  moreover have "probe_loop t n h (path n h (Suc j)) s = Some (s, None)" using Suc by (intro Suc.hyps(1)) auto
  ultimately show ?case using Suc by (subst probe_loop.simps) simp
qed

lemma probe_loop_some:
  assumes "h < n" "1 \<le> j" "j \<le> k" "k < n" "t s (path n h k) = Some (s', r)"
    "\<forall>i. j \<le> i \<and> i < k \<longrightarrow> t s (path n h i) = None"
  shows "probe_loop t n h (path n h j) s = Some (s', Some r)"
  using assms(2-)
proof (induction "k - j" arbitrary: j)
  case 0
  then have "path n h j \<noteq> h" "k = j" using assms(1) by (simp_all add: path_eq_start)
  then show ?case using 0 by (subst probe_loop.simps) simp
next
  case (Suc m)
  then have "path n h j \<noteq> h" using assms(1) by (simp add: path_eq_start)
  moreover have "probe_loop t n h (path n h (Suc j)) s = Some (s', Some r)" using Suc by (intro Suc.hyps(1)) auto
  ultimately show ?case using Suc by (subst probe_loop.simps) simp
qed

lemma probe_none:
  assumes "h < n" "\<forall>k < n. t s (path n h k) = None"
  shows "probe t n h s = Some (s, None)"
proof -
  have "t s h = None" using assms path_0 [of h n] by (metis gr_implies_not0 neq0_conv)
  moreover have "probe_loop t n h (path n h 1) s = Some (s, None)"
    using assms by (intro probe_loop_none) auto
  ultimately show ?thesis using assms(1) by (simp add: probe_def path_def)
qed

lemma probe_some:
  assumes "h < n" "k < n" "t s (path n h k) = Some (s', r)" "\<forall>i < k. t s (path n h i) = None"
  shows "probe t n h s = Some (s', Some r)"
proof (cases k)
  case 0
  then show ?thesis using assms by (simp add: probe_def path_0)
next
  case (Suc m)
  then have "t s h = None" using assms path_0 [of h n] by fastforce
  moreover have "probe_loop t n h (path n h 1) s = Some (s', Some r)"
    using assms Suc by (intro probe_loop_some [of _ _ _ k]) auto
  ultimately show ?thesis using assms(1) by (simp add: probe_def path_def)
qed

text \<open>A watchdog that never fires makes no difference.\<close>

lemma probe_loop_watchdog_off:
  assumes "h < n" "1 \<le> j" "j \<le> n" "\<And>c. \<not> watchdog c"
  shows "probe_loop_watchdog t watchdog n h (path n h j) countdown calls s = probe_loop t n h (path n h j) s"
  using assms(2,3)
proof (induction "n - j" arbitrary: j countdown calls)
  case 0
  then have "path n h j = h" using assms(1) by (simp add: path_def)
  then show ?case by (subst probe_loop_watchdog.simps, subst probe_loop.simps) simp
next
  case (Suc m)
  have "probe_loop_watchdog t watchdog n h (path n h (Suc j)) c d s = probe_loop t n h (path n h (Suc j)) s" for c d
    using Suc by (intro Suc.hyps(1)) auto
  then show ?case
    by (subst probe_loop_watchdog.simps, subst probe_loop.simps)
      (simp add: assms(4) split: option.split)
qed

lemma probe_watchdog_off: "h < n \<Longrightarrow> (\<And>c. \<not> watchdog c) \<Longrightarrow> probe_watchdog t watchdog n h s = probe t n h s"
  using probe_loop_watchdog_off [of h n 1 watchdog t 100 0 s]
  by (cases "n = 0") (auto simp: probe_watchdog_def probe_def path_def split: option.split)

section \<open>Tables\<close>

text \<open>
  A table as clients see it: \<open>slot_key s i\<close> is the key in slot \<open>i\<close>, if any.  The home slot of a key
  is the first in probing order that is empty or holds the key; the invariant of a table is
  that every key is in its home slot.
\<close>

definition home_slot :: "nat \<Rightarrow> ('k \<Rightarrow> nat) \<Rightarrow> ('s \<Rightarrow> nat \<Rightarrow> 'k option) \<Rightarrow> 's \<Rightarrow> 'k \<Rightarrow> nat \<Rightarrow> bool" where
  "home_slot n hash slot_key s k i \<longleftrightarrow>
     (\<exists>j < n. i = path n (hash k) j \<and> (slot_key s i = None \<or> slot_key s i = Some k) \<and>
       (\<forall>m < j. \<exists>k'. slot_key s (path n (hash k) m) = Some k' \<and> k' \<noteq> k))"

definition table_inv ::
  "nat \<Rightarrow> ('k \<Rightarrow> nat) \<Rightarrow> ('s \<Rightarrow> bool) \<Rightarrow> ('s \<Rightarrow> nat \<Rightarrow> 'k option) \<Rightarrow> 's \<Rightarrow> bool" where
  "table_inv n hash valid slot_key s \<longleftrightarrow>
     valid s \<and> (\<forall>i < n. \<forall>k. slot_key s i = Some k \<longrightarrow> home_slot n hash slot_key s k i)"

definition table_keys :: "nat \<Rightarrow> ('s \<Rightarrow> nat \<Rightarrow> 'k option) \<Rightarrow> 's \<Rightarrow> 'k set" where
  "table_keys n slot_key s = {k. \<exists>i < n. slot_key s i = Some k}"

text \<open>A sequence of lookups.\<close>

primrec lookups :: "('s \<Rightarrow> 'k \<Rightarrow> ('s \<times> 'r) option) \<Rightarrow> 's \<Rightarrow> 'k list \<Rightarrow> ('s \<times> 'r list) option" where
  "lookups get s [] = Some (s, [])"
| "lookups get s (k # ks) =
     (case get s k of None \<Rightarrow> None
      | Some (s', r) \<Rightarrow> map_option (\<lambda>(s'', rs). (s'', r # rs)) (lookups get s' ks))"

lemma lookups_map:
  "lookups (\<lambda>s k. map_option (\<lambda>(s, r). (s, g r)) (get s k)) s ks = map_option (\<lambda>(s, rs). (s, map g rs)) (lookups get s ks)"
  by (induction ks arbitrary: s) (auto simp: option.map_comp o_def case_prod_beta split: option.split prod.split)

text \<open>
  What a table promises: a slot is empty or holds a key; trying a key at an empty slot claims
  it, at a slot with the same key it finds it, and at any other slot it fails.
\<close>

locale open_table =
  fixes n :: nat and hash :: "'k \<Rightarrow> nat" and ok :: "'k \<Rightarrow> bool" and valid :: "'s \<Rightarrow> bool"
    and slot_key :: "'s \<Rightarrow> nat \<Rightarrow> 'k option" and try_slot :: "'k \<Rightarrow> 's \<Rightarrow> nat \<Rightarrow> ('s \<times> 'r) option"
    and result :: "nat \<Rightarrow> 'r"
  assumes hash_less: "valid s \<Longrightarrow> hash k < n"
    and try_empty: "valid s \<Longrightarrow> ok k \<Longrightarrow> i < n \<Longrightarrow> slot_key s i = None \<Longrightarrow>
      \<exists>s'. try_slot k s i = Some (s', result i) \<and> valid s' \<and> (\<forall>j < n. slot_key s' j = (if j = i then Some k else slot_key s j))"
    and try_match: "valid s \<Longrightarrow> ok k \<Longrightarrow> i < n \<Longrightarrow> slot_key s i = Some k \<Longrightarrow> try_slot k s i = Some (s, result i)"
    and try_other: "valid s \<Longrightarrow> ok k \<Longrightarrow> i < n \<Longrightarrow> slot_key s i = Some k' \<Longrightarrow> k' \<noteq> k \<Longrightarrow> try_slot k s i = None"
begin

abbreviation get_slot :: "'s \<Rightarrow> 'k \<Rightarrow> ('s \<times> 'r option) option" where
  "get_slot s k \<equiv> probe (try_slot k) n (hash k) s"

abbreviation home :: "'s \<Rightarrow> 'k \<Rightarrow> nat \<Rightarrow> bool" where
  "home \<equiv> home_slot n hash slot_key"

abbreviation inv :: "'s \<Rightarrow> bool" where
  "inv \<equiv> table_inv n hash valid slot_key"

abbreviation keys :: "'s \<Rightarrow> 'k set" where
  "keys \<equiv> table_keys n slot_key"

lemmas home_def = home_slot_def [of n hash slot_key]

lemmas inv_def = table_inv_def [of n hash valid slot_key]

lemmas keys_def = table_keys_def [of n slot_key]

lemma home_less: "home s k i \<Longrightarrow> i < n"
  by (auto simp: home_def intro: path_less)

lemma home_unique:
  assumes "home s k i" "home s k i'" shows "i = i'"
proof -
  obtain j where j: "j < n" "i = path n (hash k) j" "slot_key s i = None \<or> slot_key s i = Some k"
    "\<forall>m < j. \<exists>k'. slot_key s (path n (hash k) m) = Some k' \<and> k' \<noteq> k" using assms(1) by (auto simp: home_def)
  obtain j' where j': "j' < n" "i' = path n (hash k) j'" "slot_key s i' = None \<or> slot_key s i' = Some k"
    "\<forall>m < j'. \<exists>k'. slot_key s (path n (hash k) m) = Some k' \<and> k' \<noteq> k" using assms(2) by (auto simp: home_def)
  have "\<not> j < j'" "\<not> j' < j" using j j' by force+
  then show ?thesis using j(2) j'(2) by simp
qed

lemma home_exists:
  assumes "valid s" "\<exists>i < n. slot_key s i = None \<or> slot_key s i = Some k" shows "\<exists>i. home s k i"
proof -
  obtain i where "i < n" "slot_key s i = None \<or> slot_key s i = Some k" using assms(2) by blast
  moreover obtain j where "j < n" "path n (hash k) j = i" using path_surj [OF hash_less [OF assms(1)] \<open>i < n\<close>] by blast
  ultimately have e: "\<exists>j. j < n \<and> (slot_key s (path n (hash k) j) = None \<or> slot_key s (path n (hash k) j) = Some k)" by blast
  then obtain j where j: "j < n" "slot_key s (path n (hash k) j) = None \<or> slot_key s (path n (hash k) j) = Some k"
    "\<forall>m < j. \<not> (m < n \<and> (slot_key s (path n (hash k) m) = None \<or> slot_key s (path n (hash k) m) = Some k))"
    unfolding exists_least_iff [of "\<lambda>j. j < n \<and> P j" for P] by blast
  have "\<exists>k'. slot_key s (path n (hash k) m) = Some k' \<and> k' \<noteq> k" if "m < j" for m
    using j that by (cases "slot_key s (path n (hash k) m)") fastforce+
  then show ?thesis using j by (auto simp: home_def)
qed

text \<open>The lookup returns: the home slot, claimed when it was empty, or nothing when there is none.\<close>

lemma get_slot_home:
  assumes "valid s" "ok k" "home s k i"
  shows "\<exists>s'. get_slot s k = Some (s', Some (result i)) \<and> valid s' \<and>
    (\<forall>j < n. slot_key s' j = (if j = i then Some k else slot_key s j)) \<and> (slot_key s i = Some k \<longrightarrow> s' = s)"
proof -
  obtain j where j: "j < n" "i = path n (hash k) j" "slot_key s i = None \<or> slot_key s i = Some k"
    "\<forall>m < j. \<exists>k'. slot_key s (path n (hash k) m) = Some k' \<and> k' \<noteq> k" using assms(3) by (auto simp: home_def)
  have i: "i < n" using home_less assms(3) .
  have before: "\<forall>m < j. try_slot k s (path n (hash k) m) = None"
    using j(1,4) try_other [OF assms(1,2)] path_less [of n] by fastforce
  obtain s' where s': "try_slot k s i = Some (s', result i)" "valid s'"
    "\<forall>j < n. slot_key s' j = (if j = i then Some k else slot_key s j)" "slot_key s i = Some k \<longrightarrow> s' = s"
    using j(3) try_empty [OF assms(1,2) i] try_match [OF assms(1,2) i] assms(1) by (cases "slot_key s i") auto
  have "get_slot s k = Some (s', Some (result i))"
    using hash_less [OF assms(1)] j(1) s'(1) before by (intro probe_some [of _ _ j]) (simp_all add: j(2))
  then show ?thesis using s'(2-4) by blast
qed

lemma get_slot_full:
  assumes "valid s" "ok k" "\<forall>i < n. slot_key s i \<noteq> None \<and> slot_key s i \<noteq> Some k"
  shows "get_slot s k = Some (s, None)"
proof (rule probe_none [OF hash_less [OF assms(1)]], intro allI impI)
  fix m assume "m < n"
  then have "path n (hash k) m < n" by (intro path_less) simp
  then obtain k' where "slot_key s (path n (hash k) m) = Some k'" "k' \<noteq> k" using assms(3) by blast
  then show "try_slot k s (path n (hash k) m) = None" using try_other [OF assms(1,2)] \<open>path n (hash k) m < n\<close> by blast
qed

lemma inv_claim:
  assumes "inv s" "home s k i" "valid s'" "\<forall>j < n. slot_key s' j = (if j = i then Some k else slot_key s j)"
  shows "inv s'"
  unfolding inv_def
proof (intro conjI allI impI assms(3))
  fix l k' assume l: "l < n" "slot_key s' l = Some k'"
  have keep: "\<exists>k''. slot_key s' (path n h m) = Some k'' \<and> k'' \<noteq> k'"
    if "\<exists>k''. slot_key s (path n h m) = Some k'' \<and> k'' \<noteq> k'" "path n h m = i \<longrightarrow> k \<noteq> k'" for h m
    using that assms(4) path_less [of n h m] l(1) by auto
  show "home s' k' l"
  proof (cases "l = i")
    case True
    then have k': "k' = k" using l assms(4) by simp
    obtain j where j: "j < n" "i = path n (hash k) j" "\<forall>m < j. \<exists>k'. slot_key s (path n (hash k) m) = Some k' \<and> k' \<noteq> k"
      using assms(2) by (auto simp: home_def)
    have "path n (hash k) m \<noteq> i" if "m < j" for m using path_inj [of m n j "hash k"] that j by auto
    then have "\<forall>m < j. \<exists>k''. slot_key s' (path n (hash k) m) = Some k'' \<and> k'' \<noteq> k" using keep j(3) k' by blast
    then show ?thesis using j l True k' by (auto simp: home_def)
  next
    case False
    then have o: "slot_key s l = Some k'" using l assms(4) by simp
    then have "home s k' l" using assms(1) l(1) by (simp add: inv_def)
    then obtain j where j: "j < n" "l = path n (hash k') j" "\<forall>m < j. \<exists>k''. slot_key s (path n (hash k') m) = Some k'' \<and> k'' \<noteq> k'"
      by (auto simp: home_def)
    have "k \<noteq> k'" if "path n (hash k') m = i" "m < j" for m
    proof
      assume "k = k'"
      then have "l = i" using home_unique [OF \<open>home s k' l\<close>] assms(2) by simp
      then show False using False by simp
    qed
    then have "\<forall>m < j. \<exists>k''. slot_key s' (path n (hash k') m) = Some k'' \<and> k'' \<noteq> k'" using keep j(3) by blast
    then show ?thesis using j l(2) by (auto simp: home_def)
  qed
qed

lemma key_home: "inv s \<Longrightarrow> i < n \<Longrightarrow> slot_key s i = Some k \<Longrightarrow> home s k i"
  by (simp add: inv_def)

lemma keys_image: "keys s = the ` slot_key s ` {i. i < n \<and> slot_key s i \<noteq> None}"
proof
  show "keys s \<subseteq> the ` slot_key s ` {i. i < n \<and> slot_key s i \<noteq> None}"
  proof
    fix k assume "k \<in> keys s"
    then obtain i where i: "i < n" "slot_key s i = Some k" unfolding keys_def by blast
    then have "i \<in> {i. i < n \<and> slot_key s i \<noteq> None}" "k = the (slot_key s i)" by simp_all
    then show "k \<in> the ` slot_key s ` {i. i < n \<and> slot_key s i \<noteq> None}" by blast
  qed
  show "the ` slot_key s ` {i. i < n \<and> slot_key s i \<noteq> None} \<subseteq> keys s" by (auto simp: keys_def)
qed

lemma card_keys:
  assumes "inv s" shows "card (keys s) = card {i. i < n \<and> slot_key s i \<noteq> None}"
proof -
  define U where "U = {i. i < n \<and> slot_key s i \<noteq> None}"
  have "inj_on (\<lambda>i. the (slot_key s i)) U"
  proof (rule inj_onI)
    fix x y assume x: "x \<in> U" and y: "y \<in> U" and e: "the (slot_key s x) = the (slot_key s y)"
    obtain k where k: "x < n" "slot_key s x = Some k" using x by (auto simp: U_def)
    obtain k' where k': "y < n" "slot_key s y = Some k'" using y by (auto simp: U_def)
    have "k' = k" using e k(2) k'(2) by simp
    then show "x = y" using home_unique key_home [OF assms k] key_home [OF assms k'] by blast
  qed
  then have "card ((\<lambda>i. the (slot_key s i)) ` U) = card U" by (rule card_image)
  then show ?thesis unfolding keys_image U_def image_image .
qed

lemma room_iff:
  assumes "inv s"
  shows "(\<exists>i < n. slot_key s i = None \<or> slot_key s i = Some k) \<longleftrightarrow> k \<in> keys s \<or> card (keys s) < n"
proof -
  define U where "U = {i. i < n \<and> slot_key s i \<noteq> None}"
  have U: "card (keys s) = card U" unfolding U_def by (rule card_keys [OF assms])
  have "U \<subseteq> {..<n}" unfolding U_def by blast
  then have "card U < n \<longleftrightarrow> U \<noteq> {..<n}"
    using psubset_card_mono [of "{..<n}" U] by (cases "U = {..<n}") (simp_all add: psubset_eq)
  also have "\<dots> \<longleftrightarrow> (\<exists>i < n. slot_key s i = None)"
  proof -
    have "(\<not> (\<forall>x. (x < n \<and> \<not> P x) = (x < n))) = (\<exists>i < n. P i)" for P by blast
    from this [of "\<lambda>i. slot_key s i = None"] show ?thesis
      unfolding U_def set_eq_iff mem_Collect_eq lessThan_iff .
  qed
  finally have "card (keys s) < n \<longleftrightarrow> (\<exists>i < n. slot_key s i = None)" by (simp only: U)
  moreover have "k \<in> keys s \<longleftrightarrow> (\<exists>i < n. slot_key s i = Some k)" by (simp only: keys_def mem_Collect_eq)
  moreover have "(\<exists>i < n. P i \<or> Q i) \<longleftrightarrow> (\<exists>i < n. Q i) \<or> (\<exists>i < n. P i)" for P Q by blast
  ultimately show ?thesis by simp
qed

lemma keys_claim:
  assumes "i < n" "slot_key s i = None \<or> slot_key s i = Some k"
    "\<forall>j < n. slot_key s' j = (if j = i then Some k else slot_key s j)"
  shows "keys s' = insert k (keys s)" "\<forall>l < n. \<forall>k'. slot_key s l = Some k' \<longrightarrow> slot_key s' l = Some k'"
proof -
  show m: "\<forall>l < n. \<forall>k'. slot_key s l = Some k' \<longrightarrow> slot_key s' l = Some k'" using assms(2,3) by auto
  show "keys s' = insert k (keys s)"
  proof
    show "keys s' \<subseteq> insert k (keys s)"
    proof
      fix x assume "x \<in> keys s'"
      then obtain l where l: "l < n" "slot_key s' l = Some x" by (auto simp: keys_def)
      then show "x \<in> insert k (keys s)" using assms(3) by (cases "l = i") (auto simp: keys_def)
    qed
    show "insert k (keys s) \<subseteq> keys s'" using m assms(1,3) by (auto simp: keys_def)
  qed
qed

text \<open>One lookup, in terms of the set of keys: the interface of the group-by operator.\<close>

lemma get_slot_found:
  assumes "inv s" "ok k" "k \<in> keys s \<or> card (keys s) < n"
  obtains s' i where "get_slot s k = Some (s', Some (result i))" "inv s'" "i < n" "slot_key s' i = Some k"
    "keys s' = insert k (keys s)" "\<forall>l < n. \<forall>k'. slot_key s l = Some k' \<longrightarrow> slot_key s' l = Some k'"
    "k \<in> keys s \<longrightarrow> s' = s"
proof -
  have w: "valid s" using assms(1) by (simp add: inv_def)
  have "\<exists>i < n. slot_key s i = None \<or> slot_key s i = Some k" by (simp only: room_iff [OF assms(1)] assms(3))
  then obtain i where i: "home s k i" using home_exists [OF w] by blast
  have hl: "i < n" using home_less [OF i] .
  have i': "slot_key s i = None \<or> slot_key s i = Some k" using i by (auto simp: home_def)
  obtain s' where s': "get_slot s k = Some (s', Some (result i))" "valid s'"
    "\<forall>j < n. slot_key s' j = (if j = i then Some k else slot_key s j)" "slot_key s i = Some k \<longrightarrow> s' = s"
    using get_slot_home [OF w assms(2) i] by blast
  have "slot_key s i = Some k" if present: "k \<in> keys s"
  proof -
    obtain l where "l < n" "slot_key s l = Some k" using present by (auto simp: keys_def)
    then have "home s k l" "slot_key s l = Some k" using assms(1) by (simp_all add: inv_def)
    then show ?thesis using home_unique [OF i, of l] by simp
  qed
  then have same: "k \<in> keys s \<longrightarrow> s' = s" using s'(4) by simp
  have "slot_key s' i = Some k" using s'(3) hl by simp
  then show thesis
    using same by (intro that [OF s'(1) inv_claim [OF assms(1) i s'(2,3)] hl _ keys_claim [OF hl i' s'(3)]])
qed

lemma get_slot_none:
  assumes "inv s" "ok k" "k \<notin> keys s" "n \<le> card (keys s)"
  shows "get_slot s k = Some (s, None)"
proof (rule get_slot_full)
  show "\<forall>i < n. slot_key s i \<noteq> None \<and> slot_key s i \<noteq> Some k" using room_iff [OF assms(1), of k] assms(3,4) by auto
qed (use assms in \<open>simp_all add: inv_def\<close>)

lemma slot_unique: "inv s \<Longrightarrow> i < n \<Longrightarrow> j < n \<Longrightarrow> slot_key s i = Some k \<Longrightarrow> slot_key s j = Some k \<Longrightarrow> i = j"
  using home_unique [of s k i j] by (simp add: key_home)

text \<open>
  As long as the keys fit, every lookup succeeds, equal keys get the same slot and different
  keys different ones.
\<close>

lemma lookups_spec:
  assumes "inv s" "\<forall>k \<in> set ks. ok k" "card (keys s \<union> set ks) \<le> n"
  shows "\<exists>s' f. lookups get_slot s ks = Some (s', map (\<lambda>k. Some (result (f k))) ks) \<and> inv s' \<and> keys s' = keys s \<union> set ks \<and>
    (\<forall>k \<in> set ks. f k < n \<and> slot_key s' (f k) = Some k) \<and>
    (\<forall>l < n. \<forall>k'. slot_key s l = Some k' \<longrightarrow> slot_key s' l = Some k')"
  using assms
proof (induction ks arbitrary: s)
  case (Cons k ks)
  have fin: "finite (keys s)"
  proof -
    have "keys s = the ` slot_key s ` {i. i < n \<and> slot_key s i \<noteq> None}" by (rule keys_image)
    then show ?thesis by simp
  qed
  have room: "k \<in> keys s \<or> card (keys s) < n"
  proof (rule disjCI)
    assume "\<not> card (keys s) < n"
    then have "keys s = keys s \<union> set (k # ks)" using Cons.prems(3) fin by (intro card_seteq) auto
    then show "k \<in> keys s" by (metis UnCI list.set_intros(1))
  qed
  have "ok k" by (simp add: Cons.prems(2))
  obtain s1 i where s1: "get_slot s k = Some (s1, Some (result i))" "inv s1" "i < n" "slot_key s1 i = Some k"
    "keys s1 = insert k (keys s)" "\<forall>l < n. \<forall>k'. slot_key s l = Some k' \<longrightarrow> slot_key s1 l = Some k'"
    by (rule get_slot_found [OF Cons.prems(1) \<open>ok k\<close> room])
  have "card (keys s1 \<union> set ks) \<le> n" using Cons.prems(3) s1(5) by simp
  then obtain s' f where f: "lookups get_slot s1 ks = Some (s', map (\<lambda>k. Some (result (f k))) ks)" "inv s'"
    "keys s' = keys s1 \<union> set ks" "\<forall>k \<in> set ks. f k < n \<and> slot_key s' (f k) = Some k"
    "\<forall>l < n. \<forall>k'. slot_key s1 l = Some k' \<longrightarrow> slot_key s' l = Some k'"
    using Cons.IH [OF s1(2)] Cons.prems(2) by auto
  define g where "g = f(k := i)"
  have g: "g x < n \<and> slot_key s' (g x) = Some x" if "x \<in> set (k # ks)" for x
    using that f(4,5) s1(3,4) by (auto simp: g_def)
  have "g x = f x" if "x \<in> set ks" for x
    using slot_unique [OF f(2), of "g x" "f x" x] g [of x] f(4) that by simp
  then have "map (\<lambda>k. Some (result (g k))) (k # ks) = Some (result i) # map (\<lambda>k. Some (result (f k))) ks"
    by (simp add: g_def)
  moreover have "lookups get_slot s (k # ks) = Some (s', Some (result i) # map (\<lambda>k. Some (result (f k))) ks)"
    by (simp add: s1(1) f(1))
  moreover have "keys s' = keys s \<union> set (k # ks)" using f(3) s1(5) by auto
  moreover have "\<forall>l < n. \<forall>k'. slot_key s l = Some k' \<longrightarrow> slot_key s' l = Some k'" using s1(6) f(5) by simp
  ultimately show ?case using f(2) g by (intro exI [of _ s'] exI [of _ g] conjI ballI) simp_all
qed simp

end

section \<open>Two tables with the same keys\<close>

text \<open>
  Tables with the same number of entries, the same hash and the same admissible keys behave
  alike whatever their layout: lookups in two tables whose slots hold the same keys succeed
  or fail together and find the same slots.
\<close>

locale same_tables =
  a: open_table n hash ok valid key_a try_a res_a + b: open_table n hash ok valid' key_b try_b res_b
  for n :: nat and hash :: "'k \<Rightarrow> nat" and ok :: "'k \<Rightarrow> bool"
    and valid :: "'s \<Rightarrow> bool" and key_a :: "'s \<Rightarrow> nat \<Rightarrow> 'k option"
    and try_a :: "'k \<Rightarrow> 's \<Rightarrow> nat \<Rightarrow> ('s \<times> 'r) option" and res_a :: "nat \<Rightarrow> 'r"
    and valid' :: "'t \<Rightarrow> bool" and key_b :: "'t \<Rightarrow> nat \<Rightarrow> 'k option"
    and try_b :: "'k \<Rightarrow> 't \<Rightarrow> nat \<Rightarrow> ('t \<times> 'q) option" and res_b :: "nat \<Rightarrow> 'q"
begin

definition agree :: "'s \<Rightarrow> 't \<Rightarrow> bool" where
  "agree s t \<longleftrightarrow> valid s \<and> valid' t \<and> (\<forall>i < n. key_a s i = key_b t i)"

lemma home_agree: "agree s t \<Longrightarrow> a.home s k i \<longleftrightarrow> b.home t k i"
proof -
  assume "agree s t"
  then have e: "key_a s i = key_b t i" if "i < n" for i using that by (simp add: agree_def)
  have p: "key_a s (path n (hash k) m) = key_b t (path n (hash k) m)" if "j < n" for j m
    by (rule e [OF path_less]) (use that in simp)
  show ?thesis unfolding home_slot_def using p by (intro iffI; elim exE conjE; hypsubst; intro exI conjI) auto
qed

lemma lookup_agree:
  assumes "agree s t" "ok k"
  shows "\<exists>s' t' i. agree s' t' \<and> a.get_slot s k = Some (s', map_option res_a i) \<and> b.get_slot t k = Some (t', map_option res_b i)"
proof (cases "\<exists>i. a.home s k i")
  case True
  have v: "valid s" "valid' t" using assms(1) by (simp_all add: agree_def)
  obtain i where i: "a.home s k i" "b.home t k i" using True home_agree [OF assms(1)] by blast
  obtain s' where s': "a.get_slot s k = Some (s', Some (res_a i))" "valid s'"
    "\<forall>j < n. key_a s' j = (if j = i then Some k else key_a s j)" using a.get_slot_home [OF v(1) assms(2) i(1)] by blast
  obtain t' where t': "b.get_slot t k = Some (t', Some (res_b i))" "valid' t'"
    "\<forall>j < n. key_b t' j = (if j = i then Some k else key_b t j)" using b.get_slot_home [OF v(2) assms(2) i(2)] by blast
  have "agree s' t'" using assms(1) s'(2,3) t'(2,3) by (simp add: agree_def)
  then show ?thesis using s'(1) t'(1) by (intro exI [of _ s'] exI [of _ t'] exI [of _ "Some i"]) simp
next
  case False
  have v: "valid s" "valid' t" "\<forall>i < n. key_a s i = key_b t i" using assms(1) by (simp_all add: agree_def)
  have "\<not> (\<exists>i < n. key_a s i = None \<or> key_a s i = Some k)" using False a.home_exists [OF v(1)] by blast
  then have f: "\<forall>i < n. key_a s i \<noteq> None \<and> key_a s i \<noteq> Some k" by simp
  then have "\<forall>i < n. key_b t i \<noteq> None \<and> key_b t i \<noteq> Some k" using v(3) by simp
  then show ?thesis using a.get_slot_full [OF v(1) assms(2) f] b.get_slot_full [OF v(2) assms(2)] assms(1)
    by (intro exI [of _ s] exI [of _ t] exI [of _ None]) simp
qed

lemma lookups_agree:
  assumes "agree s t" "\<forall>k \<in> set ks. ok k"
  shows "\<exists>s' t' is. agree s' t' \<and> lookups a.get_slot s ks = Some (s', map (map_option res_a) is) \<and>
    lookups b.get_slot t ks = Some (t', map (map_option res_b) is)"
  using assms
proof (induction ks arbitrary: s t)
  case (Cons k ks)
  obtain s1 t1 i where 1: "agree s1 t1" "a.get_slot s k = Some (s1, map_option res_a i)"
    "b.get_slot t k = Some (t1, map_option res_b i)" using lookup_agree [OF Cons.prems(1), of k] Cons.prems(2) by auto
  obtain s' t' "is" where "agree s' t'" "lookups a.get_slot s1 ks = Some (s', map (map_option res_a) is)"
    "lookups b.get_slot t1 ks = Some (t', map (map_option res_b) is)" using Cons.IH [OF 1(1)] Cons.prems(2) by auto
  then show ?case using 1 by (intro exI [of _ s'] exI [of _ t'] exI [of _ "i # is"]) simp
qed auto

end

end
