(* ===== verification/Group_By.thy ===== *)
theory Group_By
  imports Probing Murmur_Hash
begin

text \<open>
  The group-by tables of \<open>function/aggregate/GroupByRuntime.cpp\<close> with the matching functions of
  \<open>function/scalar/RuntimeFunctions.cpp\<close>.  A buffer that holds keys of 4 or 8 bytes is a list of
  32-bit words; a key is the list of the 32-bit words of its components.  A pointer into the
  buffer is an index: in 32-bit words inside a definition, in 64-bit words (the \<open>int64_t*\<close> of the
  source) in a result.  The buffer starts at an 8-byte boundary.  Buffers that are only read
  as 64-bit integers (the perfect-hash functions) are lists of integers.
\<close>

section \<open>Keys\<close>

definition empty_key_64 :: int where
  "empty_key_64 = 9223372036854775807"

text \<open>\<open>get_empty_key<T>\<close> as the 32-bit words of the value, for \<open>T\<close> of the given width in bytes.\<close>

definition get_empty_key :: "nat \<Rightarrow> 32 word list" where
  "get_empty_key width = (if width = 4 then [0x7fffffff] else [0xffffffff, 0x7fffffff])"

definition word_bytes :: "32 word \<Rightarrow> 8 word list" where
  "word_bytes u = map (\<lambda>j. ucast (drop_bit (8 * j) u)) [0..<4]"

definition key_hash :: "32 word list \<Rightarrow> nat \<Rightarrow> nat \<Rightarrow> nat" where
  "key_hash key key_count key_byte_width =
     unat (MurmurHash3 (take (key_byte_width * key_count) (concat (map word_bytes key))) 0)"

text \<open>\<open>memcpy\<close> of words to a position, and the words of the \<open>T\<close> at an index.\<close>

definition put_words :: "32 word list \<Rightarrow> nat \<Rightarrow> 32 word list \<Rightarrow> 32 word list" where
  "put_words buf p ws = take p buf @ ws @ drop (p + length ws) buf"

definition load_key :: "nat \<Rightarrow> 32 word list \<Rightarrow> nat \<Rightarrow> 32 word list" where
  "load_key width buf i = take (width div 4) (drop (width div 4 * i) buf)"

section \<open>Row-wise tables\<close>

definition get_matching_group_value_T ::
  "nat \<Rightarrow> 32 word list \<Rightarrow> nat \<Rightarrow> 32 word list \<Rightarrow> nat \<Rightarrow> nat \<Rightarrow> (32 word list \<times> nat) option" where
  "get_matching_group_value_T width groups_buffer h key key_count row_size_quad =
     (let off = h * row_size_quad mod 2 ^ 32;
          row_ptr = 2 * off;
          m = key_count * (width div 4);
          slot = (row_ptr + m + 1) div 2
      in if take (width div 4) (drop row_ptr groups_buffer) = get_empty_key width
         then Some (put_words groups_buffer row_ptr (take m key), slot)
         else if take m (drop row_ptr groups_buffer) = take m key then Some (groups_buffer, slot)
         else None)"

definition get_matching_group_value ::
  "32 word list \<Rightarrow> nat \<Rightarrow> 32 word list \<Rightarrow> nat \<Rightarrow> nat \<Rightarrow> nat \<Rightarrow> (32 word list \<times> nat) option" where
  "get_matching_group_value groups_buffer h key key_count key_width row_size_quad =
     (if key_width = 4 then get_matching_group_value_T 4 groups_buffer h key key_count row_size_quad
      else if key_width = 8 then get_matching_group_value_T 8 groups_buffer h key key_count row_size_quad
      else None)"

definition get_group_value ::
  "32 word list \<Rightarrow> nat \<Rightarrow> 32 word list \<Rightarrow> nat \<Rightarrow> nat \<Rightarrow> nat \<Rightarrow> (32 word list \<times> nat option) option" where
  "get_group_value groups_buffer entry_count key key_count key_width row_size_quad =
     (let h = key_hash key key_count key_width mod entry_count
      in probe (\<lambda>s i. get_matching_group_value s i key key_count key_width row_size_quad) entry_count h groups_buffer)"

definition get_group_value_with_watchdog ::
  "(nat \<Rightarrow> bool) \<Rightarrow> 32 word list \<Rightarrow> nat \<Rightarrow> 32 word list \<Rightarrow> nat \<Rightarrow> nat \<Rightarrow> nat \<Rightarrow> (32 word list \<times> nat option) option" where
  "get_group_value_with_watchdog dynamic_watchdog groups_buffer entry_count key key_count key_width row_size_quad =
     (let h = key_hash key key_count key_width mod entry_count
      in probe_watchdog (\<lambda>s i. get_matching_group_value s i key key_count key_width row_size_quad)
           dynamic_watchdog entry_count h groups_buffer)"

section \<open>Columnar tables\<close>

definition key_component :: "nat \<Rightarrow> 32 word list \<Rightarrow> nat \<Rightarrow> 32 word list" where
  "key_component width key i = take (width div 4) (drop (width div 4 * i) key)"

text \<open>The loop that writes the components of the key, and the one that compares them.\<close>

fun columnar_store :: "nat \<Rightarrow> nat \<Rightarrow> 32 word list \<Rightarrow> nat \<Rightarrow> 32 word list list \<Rightarrow> 32 word list" where
  "columnar_store width entry_count buf off [] = buf"
| "columnar_store width entry_count buf off (k # ks) =
     columnar_store width entry_count (put_words buf (width div 4 * off) k) ((off + entry_count) mod 2 ^ 32) ks"

fun columnar_equal :: "nat \<Rightarrow> nat \<Rightarrow> 32 word list \<Rightarrow> nat \<Rightarrow> 32 word list list \<Rightarrow> bool" where
  "columnar_equal width entry_count buf off [] = True"
| "columnar_equal width entry_count buf off (k # ks) =
     (if load_key width buf off \<noteq> k then False
      else columnar_equal width entry_count buf ((off + entry_count) mod 2 ^ 32) ks)"

definition get_matching_group_value_columnar_slot_T ::
  "nat \<Rightarrow> 32 word list \<Rightarrow> nat \<Rightarrow> nat \<Rightarrow> 32 word list \<Rightarrow> nat \<Rightarrow> 32 word list \<times> int" where
  "get_matching_group_value_columnar_slot_T width groups_buffer entry_count h key key_count =
     (let ks = map (key_component width key) [0..<key_count]
      in if load_key width groups_buffer h = get_empty_key width
         then (columnar_store width entry_count groups_buffer h ks, s32 (int h))
         else if columnar_equal width entry_count groups_buffer h ks then (groups_buffer, s32 (int h))
         else (groups_buffer, - 1))"

definition get_matching_group_value_columnar_slot ::
  "32 word list \<Rightarrow> nat \<Rightarrow> nat \<Rightarrow> 32 word list \<Rightarrow> nat \<Rightarrow> nat \<Rightarrow> 32 word list \<times> int" where
  "get_matching_group_value_columnar_slot groups_buffer entry_count h key key_count key_width =
     (if key_width = 4 then get_matching_group_value_columnar_slot_T 4 groups_buffer entry_count h key key_count
      else if key_width = 8 then get_matching_group_value_columnar_slot_T 8 groups_buffer entry_count h key key_count
      else (groups_buffer, - 1))"

text \<open>The body of the loop over the slots: the slot is taken unless the match returns -1.\<close>

definition columnar_slot_try :: "nat \<Rightarrow> nat \<Rightarrow> nat \<Rightarrow> 32 word list \<Rightarrow> 32 word list \<Rightarrow> nat \<Rightarrow> (32 word list \<times> int) option" where
  "columnar_slot_try entry_count key_count key_width key s i =
     (let (s', matching_slot) = get_matching_group_value_columnar_slot s entry_count i key key_count key_width
      in if matching_slot \<noteq> - 1 then Some (s', s32 (int i)) else None)"

definition get_group_value_columnar_slot ::
  "32 word list \<Rightarrow> nat \<Rightarrow> 32 word list \<Rightarrow> nat \<Rightarrow> nat \<Rightarrow> (32 word list \<times> int) option" where
  "get_group_value_columnar_slot groups_buffer entry_count key key_count key_width =
     (let h = key_hash key key_count key_width mod entry_count
      in map_option (\<lambda>(s, r). (s, case r of Some i \<Rightarrow> i | None \<Rightarrow> - 1))
           (probe (columnar_slot_try entry_count key_count key_width key) entry_count h groups_buffer))"

definition get_group_value_columnar_slot_with_watchdog ::
  "(nat \<Rightarrow> bool) \<Rightarrow> 32 word list \<Rightarrow> nat \<Rightarrow> 32 word list \<Rightarrow> nat \<Rightarrow> nat \<Rightarrow> (32 word list \<times> int) option" where
  "get_group_value_columnar_slot_with_watchdog dynamic_watchdog groups_buffer entry_count key key_count key_width =
     (let h = key_hash key key_count key_width mod entry_count
      in map_option (\<lambda>(s, r). (s, case r of Some i \<Rightarrow> i | None \<Rightarrow> - 1))
           (probe_watchdog (columnar_slot_try entry_count key_count key_width key) dynamic_watchdog entry_count h groups_buffer))"

text \<open>\<open>&groups_buffer[off]\<close> behind the last component, in 64-bit words.\<close>

definition get_matching_group_value_columnar ::
  "32 word list \<Rightarrow> nat \<Rightarrow> 32 word list \<Rightarrow> nat \<Rightarrow> nat \<Rightarrow> (32 word list \<times> nat) option" where
  "get_matching_group_value_columnar groups_buffer h key key_qw_count entry_count =
     (let ks = map (key_component 8 key) [0..<key_qw_count];
          off = ((\<lambda>off. (off + entry_count) mod 2 ^ 32) ^^ key_qw_count) h
      in if load_key 8 groups_buffer h = get_empty_key 8
         then Some (columnar_store 8 entry_count groups_buffer h ks, off)
         else if columnar_equal 8 entry_count groups_buffer h ks then Some (groups_buffer, off)
         else None)"

definition get_group_value_columnar ::
  "32 word list \<Rightarrow> nat \<Rightarrow> 32 word list \<Rightarrow> nat \<Rightarrow> (32 word list \<times> nat option) option" where
  "get_group_value_columnar groups_buffer entry_count key key_qw_count =
     (let h = key_hash key key_qw_count 8 mod entry_count
      in probe (\<lambda>s i. get_matching_group_value_columnar s i key key_qw_count entry_count) entry_count h groups_buffer)"

definition get_group_value_columnar_with_watchdog ::
  "(nat \<Rightarrow> bool) \<Rightarrow> 32 word list \<Rightarrow> nat \<Rightarrow> 32 word list \<Rightarrow> nat \<Rightarrow> (32 word list \<times> nat option) option" where
  "get_group_value_columnar_with_watchdog dynamic_watchdog groups_buffer entry_count key key_qw_count =
     (let h = key_hash key key_qw_count 8 mod entry_count
      in probe_watchdog (\<lambda>s i. get_matching_group_value_columnar s i key key_qw_count entry_count)
           dynamic_watchdog entry_count h groups_buffer)"

section \<open>Perfect hashing\<close>

definition get_matching_group_value_perfect_hash :: "int list \<Rightarrow> nat \<Rightarrow> int list \<Rightarrow> nat \<Rightarrow> nat \<Rightarrow> int list \<times> nat" where
  "get_matching_group_value_perfect_hash groups_buffer hashed_index key key_count row_size_quad =
     (let off = hashed_index * row_size_quad mod 2 ^ 32;
          groups_buffer =
            (if groups_buffer ! off = empty_key_64
             then fold (\<lambda>i buf. buf[(off + i) mod 2 ^ 32 := key ! i]) [0..<key_count] groups_buffer else groups_buffer)
      in (groups_buffer, off + key_count))"

definition get_matching_group_value_perfect_hash_keyless :: "nat \<Rightarrow> nat \<Rightarrow> nat" where
  "get_matching_group_value_perfect_hash_keyless hashed_index row_size_quad = row_size_quad * hashed_index mod 2 ^ 32"

definition set_matching_group_value_perfect_hash_columnar :: "int list \<Rightarrow> nat \<Rightarrow> int list \<Rightarrow> nat \<Rightarrow> nat \<Rightarrow> int list" where
  "set_matching_group_value_perfect_hash_columnar groups_buffer hashed_index key key_count entry_count =
     (if groups_buffer ! hashed_index = empty_key_64
      then fold (\<lambda>i buf. buf[(i * entry_count + hashed_index) mod 2 ^ 32 := key ! i]) [0..<key_count] groups_buffer
      else groups_buffer)"

text \<open>A negative index is outside the buffer.\<close>

definition get_group_value_fast :: "int list \<Rightarrow> int \<Rightarrow> int \<Rightarrow> int \<Rightarrow> nat \<Rightarrow> int list \<times> int" where
  "get_group_value_fast groups_buffer key min_key bucket row_size_quad =
     (let key_diff = s64 (key - min_key);
          key_diff = (if bucket \<noteq> 0 then key_diff sdiv bucket else key_diff);
          off = s64 (key_diff * int row_size_quad);
          groups_buffer = (if groups_buffer ! nat off = empty_key_64 then groups_buffer[nat off := key] else groups_buffer)
      in (groups_buffer, off + 1))"

definition get_group_value_fast_with_original_key :: "int list \<Rightarrow> int \<Rightarrow> int \<Rightarrow> int \<Rightarrow> int \<Rightarrow> nat \<Rightarrow> int list \<times> int" where
  "get_group_value_fast_with_original_key groups_buffer key orig_key min_key bucket row_size_quad =
     (let key_diff = s64 (key - min_key);
          key_diff = (if bucket \<noteq> 0 then key_diff sdiv bucket else key_diff);
          off = s64 (key_diff * int row_size_quad);
          groups_buffer = (if groups_buffer ! nat off = empty_key_64 then groups_buffer[nat off := orig_key] else groups_buffer)
      in (groups_buffer, off + 1))"

definition get_columnar_group_bin_offset :: "int list \<Rightarrow> int \<Rightarrow> int \<Rightarrow> int \<Rightarrow> int list \<times> int" where
  "get_columnar_group_bin_offset key_base_ptr key min_key bucket =
     (let off = s64 (key - min_key);
          off = (if bucket \<noteq> 0 then off sdiv bucket else off);
          key_base_ptr = (if key_base_ptr ! nat off = empty_key_64 then key_base_ptr[nat off := key] else key_base_ptr)
      in (key_base_ptr, u32 off))"

definition get_group_value_fast_keyless :: "int \<Rightarrow> int \<Rightarrow> nat \<Rightarrow> int" where
  "get_group_value_fast_keyless key min_key row_size_quad = s64 (int row_size_quad * (key - min_key))"

definition get_group_value_fast_keyless_semiprivate :: "int \<Rightarrow> int \<Rightarrow> nat \<Rightarrow> nat \<Rightarrow> nat \<Rightarrow> int" where
  "get_group_value_fast_keyless_semiprivate key min_key row_size_quad thread_warp_idx warp_size =
     s64 (int row_size_quad * (int warp_size * (key - min_key) + int thread_warp_idx))"

definition get_scan_output_slot :: "int list \<Rightarrow> nat \<Rightarrow> nat \<Rightarrow> int \<Rightarrow> nat \<Rightarrow> int list \<times> nat option" where
  "get_scan_output_slot output_buffer entry_count pos offset_in_fragment row_size_quad =
     (let off = pos * row_size_quad mod 2 ^ 64
      in if pos < entry_count then (output_buffer[off := offset_in_fragment], Some (off + 1)) else (output_buffer, None))"

definition get_columnar_scan_output_offset :: "int list \<Rightarrow> nat \<Rightarrow> nat \<Rightarrow> int \<Rightarrow> int list \<times> int" where
  "get_columnar_scan_output_offset output_buffer entry_count pos offset_in_fragment =
     (if pos < entry_count then (output_buffer[pos := offset_in_fragment], s32 (int pos)) else (output_buffer, - 1))"

text \<open>\<open>set_group_key_slot_int32\<close> and \<open>set_group_key_slot_int64\<close>.\<close>

definition set_group_key_slot :: "int list \<Rightarrow> bit_vector \<Rightarrow> nat \<Rightarrow> int \<Rightarrow> bool \<Rightarrow> int list \<times> bit_vector" where
  "set_group_key_slot value_vector null_vector index val is_null =
     (if is_null then (value_vector[index := 0], null_vector)
      else (value_vector[index := val], setBitAt null_vector index))"

section \<open>Writing and reading words\<close>

lemma put_words_length: "p + length ws \<le> length buf \<Longrightarrow> length (put_words buf p ws) = length buf"
  by (simp add: put_words_def)

lemma put_words_same: "p + length ws \<le> length buf \<Longrightarrow> m \<le> length ws \<Longrightarrow> take m (drop p (put_words buf p ws)) = take m ws"
  by (simp add: put_words_def)

lemma put_words_other:
  assumes "p + length ws \<le> length buf" "q + m \<le> p \<or> p + length ws \<le> q"
  shows "take m (drop q (put_words buf p ws)) = take m (drop q buf)"
  using assms(2)
proof
  assume "q + m \<le> p"
  then show ?thesis using assms(1) by (simp add: put_words_def take_drop add.commute)
next
  assume "p + length ws \<le> q"
  then obtain d where d: "q = p + length ws + d" using le_Suc_ex by blast
  show ?thesis using assms(1) by (simp add: put_words_def d add.commute add.left_commute)
qed

definition key_width_ok :: "nat \<Rightarrow> bool" where
  "key_width_ok width \<longleftrightarrow> width = 4 \<or> width = 8"

lemma width_pos: "key_width_ok width \<Longrightarrow> 0 < width div 4"
  by (auto simp: key_width_ok_def)

definition good_key :: "nat \<Rightarrow> nat \<Rightarrow> 32 word list \<Rightarrow> bool" where
  "good_key width key_count k \<longleftrightarrow>
     length k = key_count * (width div 4) \<and> take (width div 4) k \<noteq> get_empty_key width"

abbreviation group_hash :: "nat \<Rightarrow> nat \<Rightarrow> nat \<Rightarrow> 32 word list \<Rightarrow> nat" where
  "group_hash width key_count n k \<equiv> key_hash k key_count width mod n"

section \<open>Row-wise tables are tables\<close>

definition row_valid :: "nat \<Rightarrow> nat \<Rightarrow> nat \<Rightarrow> nat \<Rightarrow> 32 word list \<Rightarrow> bool" where
  "row_valid width key_count row_size n buf \<longleftrightarrow> key_width_ok width \<and> 0 < n \<and> 0 < key_count \<and>
     key_count * (width div 4) \<le> 2 * row_size \<and> n * row_size < 2 ^ 32 \<and> 2 * (n * row_size) \<le> length buf"

definition row_key :: "nat \<Rightarrow> nat \<Rightarrow> nat \<Rightarrow> 32 word list \<Rightarrow> nat \<Rightarrow> 32 word list option" where
  "row_key width key_count row_size buf i =
     (let row = take (key_count * (width div 4)) (drop (2 * (i * row_size)) buf)
      in if take (width div 4) row = get_empty_key width then None else Some row)"

definition row_slot :: "nat \<Rightarrow> nat \<Rightarrow> nat \<Rightarrow> nat \<Rightarrow> nat" where
  "row_slot width key_count row_size i = (2 * (i * row_size) + key_count * (width div 4) + 1) div 2"

lemma row_bounds:
  assumes "row_valid width key_count row_size n buf" "i < n"
  shows "i * row_size mod 2 ^ 32 = i * row_size"
    "2 * (i * row_size) + key_count * (width div 4) \<le> length buf"
    "width div 4 \<le> key_count * (width div 4)"
proof -
  have "Suc i * row_size \<le> n * row_size" using assms(2) by (intro mult_le_mono1) simp
  then have b: "i * row_size + row_size \<le> n * row_size" by simp
  then show "i * row_size mod 2 ^ 32 = i * row_size" using assms(1) by (simp add: row_valid_def)
  show "2 * (i * row_size) + key_count * (width div 4) \<le> length buf" using b assms(1) unfolding row_valid_def by linarith
  show "width div 4 \<le> key_count * (width div 4)" using assms(1) by (simp add: row_valid_def)
qed

lemma row_disjoint:
  assumes "row_valid width key_count row_size n buf" "i \<noteq> j"
  defines "m \<equiv> key_count * (width div 4)"
  shows "2 * (j * row_size) + m \<le> 2 * (i * row_size) \<or> 2 * (i * row_size) + m \<le> 2 * (j * row_size)"
proof -
  have m: "m \<le> 2 * row_size" using assms(1) by (simp add: row_valid_def m_def)
  have "Suc j * row_size \<le> i * row_size \<or> Suc i * row_size \<le> j * row_size"
    using assms(2) mult_le_mono1 [of "Suc j" i row_size] mult_le_mono1 [of "Suc i" j row_size]
    by (cases "j < i") simp_all
  then show ?thesis using m by auto
qed

text \<open>The matching function in terms of the key in the slot.\<close>

lemma match_row:
  assumes "row_valid width key_count row_size n buf" "good_key width key_count k" "i < n"
  shows "get_matching_group_value buf i k key_count width row_size =
    (case row_key width key_count row_size buf i of
       None \<Rightarrow> Some (put_words buf (2 * (i * row_size)) k, row_slot width key_count row_size i)
     | Some k' \<Rightarrow> if k' = k then Some (buf, row_slot width key_count row_size i) else None)"
proof -
  note b = row_bounds [OF assms(1,3)]
  have w: "width = 4 \<or> width = 8" using assms(1) by (simp add: row_valid_def key_width_ok_def)
  have k: "take (key_count * (width div 4)) k = k" using assms(2) by (simp add: good_key_def)
  have u: "min (width div 4) (key_count * (width div 4)) = width div 4" using b(3) by (rule min_absorb1)
  have "get_matching_group_value buf i k key_count width row_size =
      get_matching_group_value_T width buf i k key_count row_size" using w by (auto simp: get_matching_group_value_def)
  also have "\<dots> = (case row_key width key_count row_size buf i of
       None \<Rightarrow> Some (put_words buf (2 * (i * row_size)) k, row_slot width key_count row_size i)
     | Some k' \<Rightarrow> if k' = k then Some (buf, row_slot width key_count row_size i) else None)"
    unfolding get_matching_group_value_T_def Let_def b(1) k row_key_def take_take u
    by (simp add: row_slot_def)
  finally show ?thesis .
qed

lemma row_key_put:
  assumes "row_valid width key_count row_size n buf" "good_key width key_count k" "i < n" "j < n"
  defines "buf' \<equiv> put_words buf (2 * (i * row_size)) k"
  shows "row_valid width key_count row_size n buf'"
    "row_key width key_count row_size buf' j = (if j = i then Some k else row_key width key_count row_size buf j)"
proof -
  have l: "2 * (i * row_size) + length k \<le> length buf" using row_bounds(2) [OF assms(1,3)] assms(2) by (simp add: good_key_def)
  show "row_valid width key_count row_size n buf'"
    using assms(1) put_words_length [OF l] by (simp add: row_valid_def buf'_def)
  show "row_key width key_count row_size buf' j = (if j = i then Some k else row_key width key_count row_size buf j)"
  proof (cases "j = i")
    case True
    have "take (key_count * (width div 4)) (drop (2 * (i * row_size)) buf') = k"
      using put_words_same [OF l, of "length k"] assms(2) by (simp add: buf'_def good_key_def)
    then show ?thesis using True assms(2) by (simp add: row_key_def good_key_def)
  next
    case False
    have "take (key_count * (width div 4)) (drop (2 * (j * row_size)) buf') =
        take (key_count * (width div 4)) (drop (2 * (j * row_size)) buf)"
      using put_words_other [OF l] row_disjoint [OF assms(1), of i j] False assms(2)
      by (simp add: buf'_def good_key_def)
    then show ?thesis using False by (simp add: row_key_def)
  qed
qed

interpretation rows: open_table n "group_hash width key_count n" "good_key width key_count"
  "row_valid width key_count row_size n" "row_key width key_count row_size"
  "\<lambda>k s i. get_matching_group_value s i k key_count width row_size" "row_slot width key_count row_size"
  for width key_count row_size n
proof
  show "group_hash width key_count n k < n" if "row_valid width key_count row_size n s" for s k
    using that by (simp add: row_valid_def)
next
  fix s k i assume a: "row_valid width key_count row_size n s" "good_key width key_count k" "i < n"
    and e: "row_key width key_count row_size s i = None"
  show "\<exists>s'. get_matching_group_value s i k key_count width row_size = Some (s', row_slot width key_count row_size i) \<and>
      row_valid width key_count row_size n s' \<and>
      (\<forall>j < n. row_key width key_count row_size s' j = (if j = i then Some k else row_key width key_count row_size s j))"
    using match_row [OF a] row_key_put [OF a] a(3) by (simp add: e)
qed (simp_all add: match_row)

section \<open>Columnar tables are tables\<close>

definition col_valid :: "nat \<Rightarrow> nat \<Rightarrow> nat \<Rightarrow> 32 word list \<Rightarrow> bool" where
  "col_valid width key_count n buf \<longleftrightarrow> key_width_ok width \<and> 0 < n \<and> 0 < key_count \<and> key_count * n < 2 ^ 31 \<and>
     width div 4 * (key_count * n) \<le> length buf"

definition col_key :: "nat \<Rightarrow> nat \<Rightarrow> nat \<Rightarrow> 32 word list \<Rightarrow> nat \<Rightarrow> 32 word list option" where
  "col_key width key_count n buf i =
     (if load_key width buf i = get_empty_key width then None
      else Some (concat (map (\<lambda>j. load_key width buf (i + j * n)) [0..<key_count])))"

lemma load_key_put:
  assumes "length k = width div 4" "width div 4 * Suc p \<le> length buf"
  shows "load_key width (put_words buf (width div 4 * p) k) q = (if q = p then k else load_key width buf q)"
proof (cases "q = p")
  case True
  then show ?thesis using put_words_same [of "width div 4 * p" k buf "width div 4"] assms by (simp add: load_key_def)
next
  case False
  define u where "u = width div 4"
  have "u * q + u \<le> u * p \<or> u * p + u \<le> u * q"
    using False mult_le_mono2 [of "Suc q" p u] mult_le_mono2 [of "Suc p" q u] by (cases "q < p") simp_all
  then show ?thesis using put_words_other [of "u * p" k buf "u * q" u] assms False by (simp add: load_key_def u_def)
qed

lemma columnar_store_load:
  assumes "\<forall>k \<in> set ks. length k = width div 4" "\<forall>j < length ks. off + j * n < m" "m \<le> 2 ^ 31"
    "width div 4 * m \<le> length buf" "0 < n"
  shows "length (columnar_store width n buf off ks) = length buf \<and>
    (\<forall>j < length ks. load_key width (columnar_store width n buf off ks) (off + j * n) = ks ! j) \<and>
    (\<forall>q. (\<forall>j < length ks. q \<noteq> off + j * n) \<longrightarrow> load_key width (columnar_store width n buf off ks) q = load_key width buf q)"
  using assms
proof (induction ks arbitrary: buf off)
  case (Cons k ks)
  define b where "b = put_words buf (width div 4 * off) k"
  define r where "r = columnar_store width n b (off + n) ks"
  have "width div 4 * Suc off \<le> width div 4 * m" using Cons.prems(2) by (intro mult_le_mono2) auto
  then have l: "width div 4 * Suc off \<le> length buf" using Cons.prems(4) by simp
  have b: "length b = length buf" "load_key width b p = (if p = off then k else load_key width buf p)" for p
    using l Cons.prems(1) put_words_length [of "width div 4 * off" k buf] load_key_put [of k width off buf p]
    by (simp_all add: b_def)
  have m: "off + n + j * n < m" if "j < length ks" for j using Cons.prems(2) [rule_format, of "Suc j"] that by simp
  have e: "columnar_store width n buf off (k # ks) = r"
    using m [of 0] Cons.prems(3) by (cases ks) (simp_all add: b_def r_def)
  have ih: "length r = length b" "\<And>j. j < length ks \<Longrightarrow> load_key width r (off + n + j * n) = ks ! j"
    "\<And>q. (\<forall>j < length ks. q \<noteq> off + n + j * n) \<Longrightarrow> load_key width r q = load_key width b q"
    using Cons.IH [of "off + n" b] Cons.prems m b(1) unfolding r_def by simp_all
  have "load_key width r (off + j * n) = (k # ks) ! j" if "j < length (k # ks)" for j
  proof (cases j)
    case 0
    then show ?thesis using ih(3) [of off] Cons.prems(5) b(2) by simp
  next
    case (Suc i)
    then show ?thesis using ih(2) [of i] that by (simp add: add.assoc)
  qed
  moreover have "load_key width r q = load_key width buf q" if "\<forall>j < length (k # ks). q \<noteq> off + j * n" for q
  proof -
    have "q \<noteq> off" using that [rule_format, of 0] by simp
    moreover have "\<forall>j < length ks. q \<noteq> off + n + j * n"
      using that [rule_format, of "Suc j" for j] by (simp add: add.assoc)
    ultimately show ?thesis using ih(3) b(2) by simp
  qed
  ultimately show ?case unfolding e using ih(1) b(1) by simp
qed simp

lemma columnar_equal_iff:
  assumes "\<forall>j < length ks. off + j * n < m" "m \<le> 2 ^ 31"
  shows "columnar_equal width n buf off ks \<longleftrightarrow> (\<forall>j < length ks. load_key width buf (off + j * n) = ks ! j)"
  using assms
proof (induction ks arbitrary: off)
  case (Cons k ks)
  have m: "off + n + j * n < m" if "j < length ks" for j using Cons.prems(1) [rule_format, of "Suc j"] that by simp
  have e: "columnar_equal width n buf ((off + n) mod 2 ^ 32) ks = columnar_equal width n buf (off + n) ks"
    using m [of 0] Cons.prems(2) by (cases ks) simp_all
  have "columnar_equal width n buf (off + n) ks \<longleftrightarrow> (\<forall>j < length ks. load_key width buf (off + n + j * n) = ks ! j)"
    using Cons.IH [of "off + n"] m Cons.prems(2) by blast
  then show ?case unfolding columnar_equal.simps e by (simp add: All_less_Suc2 add.assoc)
qed simp

lemma min_rest: "u + x \<le> l \<Longrightarrow> min (l - x) u = (u :: nat)"
  by linarith

lemma slot_in_column:
  assumes "(i :: nat) < n" "j < c" shows "i + j * n < c * n"
proof -
  have "i + j * n < Suc j * n" using assms(1) by simp
  also have "\<dots> \<le> c * n" using assms(2) by (intro mult_le_mono1) simp
  finally show ?thesis .
qed

lemma slots_distinct: "(i :: nat) < n \<Longrightarrow> i' < n \<Longrightarrow> i + j * n = i' + j' * n \<Longrightarrow> i = i' \<and> j = j'"
  by (metis add.commute div_mult_self3 div_less mod_mult_self3 mod_less less_nat_zero_code add_0 neq0_conv)

text \<open>The components of a key.\<close>

lemma components:
  assumes "length k = key_count * (width div 4)" "0 < width div 4"
  defines "ks \<equiv> map (key_component width k) [0..<key_count]"
  shows "concat ks = k" "\<forall>c \<in> set ks. length c = width div 4"
proof -
  define u where "u = width div 4"
  have "concat (map (\<lambda>i. take u (drop (u * i) k)) [0..<c]) = take (c * u) k" for c
  proof (induction c)
    case (Suc c)
    have "take (c * u + u) k = take (c * u) k @ take u (drop (c * u) k)" by (rule take_add)
    then show ?case using Suc by (simp add: mult.commute add.commute [of u])
  qed simp
  from this [of key_count] show "concat ks = k" using assms(1) by (simp add: ks_def key_component_def [abs_def] u_def)
  have "u * Suc i \<le> length k" if "i < key_count" for i
    using mult_le_mono2 [of "Suc i" key_count u] that assms(1) by (simp add: u_def mult.commute)
  then show "\<forall>c \<in> set ks. length c = width div 4" by (fastforce simp: ks_def key_component_def u_def [symmetric])
qed

lemma col_key_eq:
  assumes "col_valid width key_count n buf" "good_key width key_count k" "i < n"
  shows "col_key width key_count n buf i =
    (if load_key width buf i = get_empty_key width then None
     else Some (concat (map (\<lambda>j. load_key width buf (i + j * n)) [0..<key_count])))"
    "concat (map (\<lambda>j. load_key width buf (i + j * n)) [0..<key_count]) = k \<longleftrightarrow>
     (\<forall>j < key_count. load_key width buf (i + j * n) = key_component width k j)"
proof -
  show "col_key width key_count n buf i =
    (if load_key width buf i = get_empty_key width then None
     else Some (concat (map (\<lambda>j. load_key width buf (i + j * n)) [0..<key_count])))" by (simp add: col_key_def)
  define ks where "ks = map (key_component width k) [0..<key_count]"
  have u: "0 < width div 4" using assms(1) by (intro width_pos) (simp add: col_valid_def)
  have ks: "concat ks = k" "\<forall>c \<in> set ks. length c = width div 4"
    using components [of k key_count width] assms(2) u by (simp_all add: ks_def good_key_def)
  define ls where "ls = map (\<lambda>j. load_key width buf (i + j * n)) [0..<key_count]"
  have "length (load_key width buf (i + j * n)) = width div 4" if "j < key_count" for j
  proof -
    have "width div 4 * Suc (i + j * n) \<le> width div 4 * (key_count * n)"
      using slot_in_column [OF assms(3) that] by (intro mult_le_mono2) simp
    also have "\<dots> \<le> length buf" using assms(1) by (simp add: col_valid_def)
    finally have "width div 4 + width div 4 * (i + j * n) \<le> length buf" by simp
    then show ?thesis unfolding load_key_def length_take length_drop by (rule min_rest)
  qed
  then have ls: "\<forall>c \<in> set ls. length c = width div 4" by (simp add: ls_def)
  have "concat ls = concat ks \<longleftrightarrow> ls = ks"
  proof
    assume c: "concat ls = concat ks"
    have "length x = length y" if "(x, y) \<in> set (zip ls ks)" for x y
      using ls ks(2) set_zip_leftD [OF that] set_zip_rightD [OF that] by simp
    then show "ls = ks" by (intro concat_injective [OF c]) (auto simp: ls_def ks_def)
  qed simp
  also have "\<dots> \<longleftrightarrow> (\<forall>j < key_count. load_key width buf (i + j * n) = key_component width k j)"
    by (auto simp: ls_def ks_def list_eq_iff_nth_eq)
  finally show "concat (map (\<lambda>j. load_key width buf (i + j * n)) [0..<key_count]) = k \<longleftrightarrow>
     (\<forall>j < key_count. load_key width buf (i + j * n) = key_component width k j)" by (simp add: ks(1) ls_def)
qed

lemma col_store:
  assumes "col_valid width key_count n buf" "good_key width key_count k" "i < n"
  defines "buf' \<equiv> columnar_store width n buf i (map (key_component width k) [0..<key_count])"
  shows "col_valid width key_count n buf'"
    "\<forall>j < n. col_key width key_count n buf' j = (if j = i then Some k else col_key width key_count n buf j)"
proof -
  define ks where "ks = map (key_component width k) [0..<key_count]"
  have u: "0 < width div 4" using assms(1) by (intro width_pos) (simp add: col_valid_def)
  have ks: "\<forall>c \<in> set ks. length c = width div 4"
    using components(2) [of k key_count width] assms(2) u by (simp add: ks_def good_key_def)
  have c: "\<forall>j < length ks. i + j * n < key_count * n" "key_count * n \<le> 2 ^ 31" "width div 4 * (key_count * n) \<le> length buf"
    "0 < n" "0 < key_count" using assms(1) slot_in_column [OF assms(3)] by (simp_all add: col_valid_def ks_def)
  note st = columnar_store_load [OF ks c(1-4), folded buf'_def [folded ks_def]]
  show v: "col_valid width key_count n buf'" using assms(1) st by (simp add: col_valid_def)
  show "\<forall>j < n. col_key width key_count n buf' j = (if j = i then Some k else col_key width key_count n buf j)"
  proof (intro allI impI)
    fix j assume j: "j < n"
    show "col_key width key_count n buf' j = (if j = i then Some k else col_key width key_count n buf j)"
    proof (cases "j = i")
      case True
      have l: "\<forall>l < key_count. load_key width buf' (i + l * n) = key_component width k l" using st by (simp add: ks_def)
      then have "load_key width buf' i = take (width div 4) k" using c(5) by (auto simp: key_component_def dest: spec [of _ 0])
      then show ?thesis using True col_key_eq [OF v assms(2,3)] l assms(2) by (simp add: good_key_def)
    next
      case False
      have "load_key width buf' (j + l * n) = load_key width buf (j + l * n)" for l
        using st slots_distinct [OF j assms(3)] False by blast
      from this [of 0] this show ?thesis using False by (simp add: col_key_def)
    qed
  qed
qed

text \<open>Both columnar matching functions in terms of the key in the slot.\<close>

lemma match_col:
  assumes "col_valid width key_count n buf" "good_key width key_count k" "i < n"
  defines "ks \<equiv> map (key_component width k) [0..<key_count]"
  shows "(if load_key width buf i = get_empty_key width then a
      else if columnar_equal width n buf i ks then b else c) =
    (case col_key width key_count n buf i of None \<Rightarrow> a | Some k' \<Rightarrow> if k' = k then b else c)"
proof -
  have "\<forall>j < length ks. i + j * n < key_count * n" "key_count * n \<le> 2 ^ 31"
    using assms(1) slot_in_column [OF assms(3)] by (simp_all add: col_valid_def ks_def)
  then have "columnar_equal width n buf i ks \<longleftrightarrow> (\<forall>j < key_count. load_key width buf (i + j * n) = key_component width k j)"
    by (subst columnar_equal_iff) (simp_all add: ks_def)
  then show ?thesis using col_key_eq [OF assms(1-3)] by simp
qed

lemma columnar_slot_try_eq:
  assumes "col_valid width key_count n buf" "good_key width key_count k" "i < n"
  shows "columnar_slot_try n key_count width k buf i =
    (case col_key width key_count n buf i of
       None \<Rightarrow> Some (columnar_store width n buf i (map (key_component width k) [0..<key_count]), int i)
     | Some k' \<Rightarrow> if k' = k then Some (buf, int i) else None)"
proof -
  have w: "width = 4 \<or> width = 8" using assms(1) by (simp add: col_valid_def key_width_ok_def)
  have "n \<le> key_count * n" "key_count * n < 2 ^ 31" using assms(1) by (simp_all add: col_valid_def)
  then have "i < 2 ^ 31" using assms(3) by linarith
  then have i: "s32 (int i) = int i" by (intro wrap_s_id) simp_all
  have "get_matching_group_value_columnar_slot buf n i k key_count width =
      get_matching_group_value_columnar_slot_T width buf n i k key_count"
    using w by (auto simp: get_matching_group_value_columnar_slot_def)
  also have "\<dots> = (case col_key width key_count n buf i of
       None \<Rightarrow> (columnar_store width n buf i (map (key_component width k) [0..<key_count]), int i)
     | Some k' \<Rightarrow> if k' = k then (buf, int i) else (buf, - 1))"
    unfolding get_matching_group_value_columnar_slot_T_def Let_def i by (rule match_col [OF assms])
  finally show ?thesis by (simp add: columnar_slot_try_def i split: option.split)
qed

interpretation columns: open_table n "group_hash width key_count n" "good_key width key_count"
  "col_valid width key_count n" "col_key width key_count n" "columnar_slot_try n key_count width" int
  for width key_count n
proof
  show "group_hash width key_count n k < n" if "col_valid width key_count n s" for s k
    using that by (simp add: col_valid_def)
next
  fix s k i assume a: "col_valid width key_count n s" "good_key width key_count k" "i < n"
    and e: "col_key width key_count n s i = None"
  show "\<exists>s'. columnar_slot_try n key_count width k s i = Some (s', int i) \<and> col_valid width key_count n s' \<and>
      (\<forall>j < n. col_key width key_count n s' j = (if j = i then Some k else col_key width key_count n s j))"
    using columnar_slot_try_eq [OF a] col_store [OF a] by (simp add: e)
qed (simp_all add: columnar_slot_try_eq)

definition col_slot :: "nat \<Rightarrow> nat \<Rightarrow> nat \<Rightarrow> nat" where
  "col_slot key_count n i = ((\<lambda>off. (off + n) mod 2 ^ 32) ^^ key_count) i"

lemma match_columnar_eq:
  assumes "col_valid 8 key_count n buf" "good_key 8 key_count k" "i < n"
  shows "get_matching_group_value_columnar buf i k key_count n =
    (case col_key 8 key_count n buf i of
       None \<Rightarrow> Some (columnar_store 8 n buf i (map (key_component 8 k) [0..<key_count]), col_slot key_count n i)
     | Some k' \<Rightarrow> if k' = k then Some (buf, col_slot key_count n i) else None)"
  unfolding get_matching_group_value_columnar_def Let_def col_slot_def by (rule match_col [OF assms])

interpretation columns64: open_table n "group_hash 8 key_count n" "good_key 8 key_count"
  "col_valid 8 key_count n" "col_key 8 key_count n"
  "\<lambda>k s i. get_matching_group_value_columnar s i k key_count n" "col_slot key_count n"
  for key_count n
proof
  show "group_hash 8 key_count n k < n" if "col_valid 8 key_count n s" for s k
    using that by (simp add: col_valid_def)
next
  fix s k i assume a: "col_valid 8 key_count n s" "good_key 8 key_count k" "i < n"
    and e: "col_key 8 key_count n s i = None"
  show "\<exists>s'. get_matching_group_value_columnar s i k key_count n = Some (s', col_slot key_count n i) \<and>
      col_valid 8 key_count n s' \<and>
      (\<forall>j < n. col_key 8 key_count n s' j = (if j = i then Some k else col_key 8 key_count n s j))"
    using match_columnar_eq [OF a] col_store [OF a] by (simp add: e)
qed (simp_all add: match_columnar_eq)

interpretation row_column: same_tables n "group_hash width key_count n" "good_key width key_count"
  "row_valid width key_count row_size n" "row_key width key_count row_size"
  "\<lambda>k s i. get_matching_group_value s i k key_count width row_size" "row_slot width key_count row_size"
  "col_valid width key_count n" "col_key width key_count n" "columnar_slot_try n key_count width" int
  for width key_count row_size n ..

section \<open>Properties\<close>

lemma rows_get: "get_group_value s n k key_count width row_size =
    probe (\<lambda>s i. get_matching_group_value s i k key_count width row_size) n (group_hash width key_count n k) s"
  by (simp add: get_group_value_def)

abbreviation rows_inv :: "nat \<Rightarrow> nat \<Rightarrow> nat \<Rightarrow> nat \<Rightarrow> 32 word list \<Rightarrow> bool" where
  "rows_inv width key_count row_size n \<equiv>
     table_inv n (group_hash width key_count n) (row_valid width key_count row_size n) (row_key width key_count row_size)"

abbreviation rows_keys :: "nat \<Rightarrow> nat \<Rightarrow> nat \<Rightarrow> nat \<Rightarrow> 32 word list \<Rightarrow> 32 word list set" where
  "rows_keys width key_count row_size n \<equiv> table_keys n (row_key width key_count row_size)"

text \<open>A fresh buffer for keys of four bytes is an empty table.\<close>

lemma empty_rows:
  assumes "0 < n" "0 < key_count" "key_count \<le> 2 * row_size" "n * row_size < 2 ^ 32"
  defines "buf \<equiv> replicate (2 * (n * row_size)) 0x7fffffff"
  shows "rows_inv 4 key_count row_size n buf" "rows_keys 4 key_count row_size n buf = {}"
proof -
  have v: "row_valid 4 key_count row_size n buf" using assms(1-4) by (simp add: row_valid_def key_width_ok_def buf_def)
  have e: "row_key 4 key_count row_size buf i = None" if "i < n" for i
  proof -
    have "take 1 (drop (2 * (i * row_size)) buf) = [0x7fffffff]"
      using row_bounds(2,3) [OF v that] by (simp add: buf_def min_def)
    then show ?thesis using row_bounds(3) [OF v that] by (simp add: row_key_def get_empty_key_def min_absorb1)
  qed
  show "rows_inv 4 key_count row_size n buf" using v e by (simp add: table_inv_def)
  show "rows_keys 4 key_count row_size n buf = {}" using e by (auto simp: table_keys_def)
qed

text \<open>
  C11: a lookup in a row-wise group-by table always returns.  It keeps the invariant of the
  table (every key is in the first slot of its probing sequence that was not taken by another
  key), it returns NULL exactly when the key is new and the table is full, and then it leaves
  the buffer alone; a watchdog that does not fire changes nothing.
\<close>

theorem group_lookup_total:
  assumes "rows_inv width key_count row_size n buf" "good_key width key_count k"
  shows "\<exists>buf' r. get_group_value buf n k key_count width row_size = Some (buf', r) \<and>
    rows_inv width key_count row_size n buf' \<and>
    (r = None \<longleftrightarrow> k \<notin> rows_keys width key_count row_size n buf \<and> n \<le> card (rows_keys width key_count row_size n buf)) \<and>
    (r = None \<longrightarrow> buf' = buf) \<and>
    (r \<noteq> None \<longrightarrow> rows_keys width key_count row_size n buf' = insert k (rows_keys width key_count row_size n buf)) \<and>
    get_group_value_with_watchdog (\<lambda>_. False) buf n k key_count width row_size = Some (buf', r)"
proof -
  have w: "get_group_value_with_watchdog (\<lambda>_. False) buf n k key_count width row_size = get_group_value buf n k key_count width row_size"
    using rows.hash_less [of width key_count row_size n buf k] assms(1)
    unfolding get_group_value_with_watchdog_def get_group_value_def Let_def table_inv_def
    by (intro probe_watchdog_off) simp_all
  show ?thesis
  proof (cases "k \<in> rows_keys width key_count row_size n buf \<or> card (rows_keys width key_count row_size n buf) < n")
    case True
    obtain buf' i where "get_group_value buf n k key_count width row_size = Some (buf', Some (row_slot width key_count row_size i))"
      "rows_inv width key_count row_size n buf'"
      "rows_keys width key_count row_size n buf' = insert k (rows_keys width key_count row_size n buf)"
      unfolding rows_get by (rule rows.get_slot_found [OF assms True])
    then show ?thesis unfolding w using True by auto
  next
    case False
    then have "get_group_value buf n k key_count width row_size = Some (buf, None)"
      unfolding rows_get by (intro rows.get_slot_none [OF assms]) auto
    then show ?thesis unfolding w using False assms(1) by auto
  qed
qed

theorem group_lookup_total_witness:
  "\<exists>buf' r. get_group_value (replicate 8 0x7fffffff) 2 [5] 1 4 2 = Some (buf', Some r)"
proof -
  have i: "rows_inv 4 1 2 2 (replicate 8 0x7fffffff)" "rows_keys 4 1 2 2 (replicate 8 0x7fffffff) = {}"
    using empty_rows [of 2 1 2] by simp_all
  have g: "good_key 4 1 [5]" by (simp add: good_key_def get_empty_key_def)
  show ?thesis using group_lookup_total [OF i(1) g] i(2) by auto
qed

text \<open>
  C2: as long as the groups fit into the table, every row gets a group: looking up the keys
  of a sequence of rows succeeds for all of them, rows with equal keys get the same slot and
  rows with different keys different slots, and the table holds exactly the keys seen.
\<close>

theorem group_by_assigns_groups:
  assumes "rows_inv width key_count row_size n buf" "\<forall>k \<in> set ks. good_key width key_count k"
    "card (rows_keys width key_count row_size n buf \<union> set ks) \<le> n"
  shows "\<exists>buf' f. lookups (\<lambda>s k. get_group_value s n k key_count width row_size) buf ks =
      Some (buf', map (\<lambda>k. Some (row_slot width key_count row_size (f k))) ks) \<and>
    inj_on f (set ks) \<and> f ` set ks \<subseteq> {..<n} \<and>
    rows_inv width key_count row_size n buf' \<and>
    rows_keys width key_count row_size n buf' = rows_keys width key_count row_size n buf \<union> set ks"
proof -
  obtain buf' f where f: "lookups (\<lambda>s k. get_group_value s n k key_count width row_size) buf ks =
      Some (buf', map (\<lambda>k. Some (row_slot width key_count row_size (f k))) ks)"
    "rows_inv width key_count row_size n buf'"
    "rows_keys width key_count row_size n buf' = rows_keys width key_count row_size n buf \<union> set ks"
    "\<forall>k \<in> set ks. f k < n \<and> row_key width key_count row_size buf' (f k) = Some k"
    using rows.lookups_spec [OF assms] unfolding rows_get by blast
  have "inj_on f (set ks)" using f(4) by (metis inj_onI option.inject)
  then show ?thesis using f by blast
qed

theorem group_by_assigns_groups_witness:
  "\<exists>buf' f. lookups (\<lambda>s k. get_group_value s 2 k 1 4 2) (replicate 8 0x7fffffff) [[5], [9], [5]] =
     Some (buf', map (\<lambda>k. Some (row_slot 4 1 2 (f k))) [[5], [9], [5 :: 32 word]]) \<and> f [5] \<noteq> f [9]"
proof -
  have i: "rows_inv 4 1 2 2 (replicate 8 0x7fffffff)" "rows_keys 4 1 2 2 (replicate 8 0x7fffffff) = {}"
    using empty_rows [of 2 1 2] by simp_all
  have g: "\<forall>k \<in> set [[5], [9], [5]]. good_key 4 1 k" by (simp add: good_key_def get_empty_key_def)
  have c: "card (rows_keys 4 1 2 2 (replicate 8 0x7fffffff) \<union> set [[5], [9], [5 :: 32 word]]) \<le> 2"
    unfolding i(2) by (simp add: card_insert_if)
  obtain buf' f where f: "lookups (\<lambda>s k. get_group_value s 2 k 1 4 2) (replicate 8 0x7fffffff) [[5], [9], [5]] =
     Some (buf', map (\<lambda>k. Some (row_slot 4 1 2 (f k))) [[5], [9], [5]])" "inj_on f (set [[5], [9], [5 :: 32 word]])"
    using group_by_assigns_groups [OF i(1) g c] by (elim exE conjE) (rule that, assumption+)
  have "f [5] \<noteq> f [9]" using inj_on_eq_iff [OF f(2), of "[5]" "[9]"] by simp
  with f(1) show ?thesis by (intro exI conjI)
qed

text \<open>
  C17: the row-wise and the columnar layout group alike: from tables with the same keys in the
  same slots, any sequence of lookups finds the same slots in both, and fails for the same
  keys, so that the two layouts compute the same groups.
\<close>

theorem row_columnar_agree:
  assumes "row_valid width key_count row_size n rb" "col_valid width key_count n cb"
    "\<forall>i < n. row_key width key_count row_size rb i = col_key width key_count n cb i"
    "\<forall>k \<in> set ks. good_key width key_count k"
  shows "\<exists>rb' cb' is. lookups (\<lambda>s k. get_group_value s n k key_count width row_size) rb ks =
      Some (rb', map (map_option (row_slot width key_count row_size)) is) \<and>
    lookups (\<lambda>s k. get_group_value_columnar_slot s n k key_count width) cb ks =
      Some (cb', map (case_option (- 1) int) is) \<and>
    (\<forall>i < n. row_key width key_count row_size rb' i = col_key width key_count n cb' i)"
proof -
  have a: "row_column.agree n width key_count row_size rb cb" using assms(1-3) by (simp add: row_column.agree_def)
  obtain rb' cb' "is" where r: "row_column.agree n width key_count row_size rb' cb'"
    "lookups (\<lambda>s k. get_group_value s n k key_count width row_size) rb ks =
      Some (rb', map (map_option (row_slot width key_count row_size)) is)"
    "lookups (\<lambda>s k. probe (columnar_slot_try n key_count width k) n (group_hash width key_count n k) s) cb ks =
      Some (cb', map (map_option int) is)"
    using row_column.lookups_agree [OF a assms(4)] unfolding rows_get by blast
  have "lookups (\<lambda>s k. get_group_value_columnar_slot s n k key_count width) cb ks =
      Some (cb', map (case_option (- 1) int) is)"
    unfolding get_group_value_columnar_slot_def Let_def lookups_map r(3)
    by (simp add: option.case_eq_if) (auto split: option.split)
  then show ?thesis using r(1,2) unfolding row_column.agree_def by blast
qed

theorem row_columnar_agree_witness:
  "\<exists>rb' cb' is. lookups (\<lambda>s k. get_group_value s 2 k 1 4 2) (replicate 8 0x7fffffff) [[5], [9], [7]] =
      Some (rb', map (map_option (row_slot 4 1 2)) is) \<and>
    lookups (\<lambda>s k. get_group_value_columnar_slot s 2 k 1 4) (replicate 2 0x7fffffff) [[5], [9], [7]] =
      Some (cb', map (case_option (- 1) int) is)"
proof -
  have v: "row_valid 4 1 2 2 (replicate 8 0x7fffffff)" "col_valid 4 1 2 (replicate 2 0x7fffffff)"
    by (simp_all add: row_valid_def col_valid_def key_width_ok_def)
  have "row_key 4 1 2 (replicate 8 0x7fffffff) i = None \<and> col_key 4 1 2 (replicate 2 0x7fffffff) i = None" if "i < 2" for i
    using that by (cases "i = 0") (simp_all add: row_key_def col_key_def load_key_def get_empty_key_def)
  then have e: "\<forall>i < 2. row_key 4 1 2 (replicate 8 0x7fffffff) i = col_key 4 1 2 (replicate 2 0x7fffffff) i" by simp
  have g: "\<forall>k \<in> set [[5], [9], [7]]. good_key 4 1 k" by (simp add: good_key_def get_empty_key_def)
  show ?thesis using row_columnar_agree [OF v e g] by blast
qed

end
