(* ===== verification/Threads.thy ===== *)
theory Threads
  imports Cider_Prelude "HOL-Library.Multiset"
begin

text \<open>
  The worker threads that build join tables.  A worker runs a loop over its own items; an
  iteration is one atomic access to the shared table (a compare-and-swap or a fetch-and-add)
  and returns 0, or an error code that ends the worker.  Workers take their steps in any
  order.  The lemmas reduce every complete run to one sequence of iterations, and show that
  every run can be completed and that none is infinite.
\<close>

section \<open>Workers\<close>

datatype 'i worker = Running "'i list" | Returned int

inductive worker_step ::
  "('s \<Rightarrow> 'i \<Rightarrow> 's \<times> int) \<Rightarrow> 's \<times> 'i worker list \<Rightarrow> 's \<times> 'i worker list \<Rightarrow> bool"
  for body where
  iterate: "t < length ws \<Longrightarrow> ws ! t = Running (x # xs) \<Longrightarrow> body s x = (s', 0) \<Longrightarrow>
    worker_step body (s, ws) (s', ws[t := Running xs])"
| stop: "t < length ws \<Longrightarrow> ws ! t = Running (x # xs) \<Longrightarrow> body s x = (s', rc) \<Longrightarrow> rc \<noteq> 0 \<Longrightarrow>
    worker_step body (s, ws) (s', ws[t := Returned rc])"
| finish: "t < length ws \<Longrightarrow> ws ! t = Running [] \<Longrightarrow> worker_step body (s, ws) (s, ws[t := Returned 0])"

text \<open>A complete run of workers with the given items, and what they return.\<close>

definition parallel :: "('s \<Rightarrow> 'i \<Rightarrow> 's \<times> int) \<Rightarrow> 'i list list \<Rightarrow> 's \<Rightarrow> 's \<Rightarrow> int list \<Rightarrow> bool" where
  "parallel body iss s s' rcs \<longleftrightarrow> (worker_step body)\<^sup>*\<^sup>* (s, map Running iss) (s', map Returned rcs)"

text \<open>The loop of a single worker, and a sequence of iterations of any workers.\<close>

fun loop :: "('s \<Rightarrow> 'i \<Rightarrow> 's \<times> int) \<Rightarrow> 's \<Rightarrow> 'i list \<Rightarrow> 's \<times> int" where
  "loop body s [] = (s, 0)"
| "loop body s (x # xs) = (let (s', rc) = body s x in if rc \<noteq> 0 then (s', rc) else loop body s' xs)"

fun iterations :: "('s \<Rightarrow> 'i \<Rightarrow> 's \<times> int) \<Rightarrow> 's \<Rightarrow> 'i list \<Rightarrow> 's \<times> int list" where
  "iterations body s [] = (s, [])"
| "iterations body s (x # xs) = (let (s', rc) = body s x; (s'', rcs) = iterations body s' xs in (s'', rc # rcs))"

lemma iterations_snoc:
  "iterations body s (xs @ [x]) =
     (let (s', rcs) = iterations body s xs; (s'', rc) = body s' x in (s'', rcs @ [rc]))"
  by (induction xs arbitrary: s) (simp_all add: case_prod_beta Let_def)

lemma length_iterations: "length (snd (iterations body s xs)) = length xs"
  by (induction xs arbitrary: s) (simp_all add: case_prod_beta Let_def)

section \<open>Every run is a sequence of iterations\<close>

primrec pending1 :: "'i worker \<Rightarrow> 'i multiset" where
  "pending1 (Running xs) = mset xs"
| "pending1 (Returned rc) = {#}"

definition pending :: "'i worker list \<Rightarrow> 'i multiset" where
  "pending ws = sum_list (map pending1 ws)"

definition codes :: "'i worker list \<Rightarrow> int set" where
  "codes ws = {rc. rc \<noteq> 0 \<and> Returned rc \<in> set ws}"

lemma pending_update:
  assumes "t < length ws" "pending1 (ws ! t) = m + pending1 w"
  shows "pending ws = m + pending (ws[t := w])"
proof -
  have w: "ws = take t ws @ ws ! t # drop (Suc t) ws" by (rule id_take_nth_drop [OF assms(1)])
  have u: "ws[t := w] = take t ws @ w # drop (Suc t) ws" by (rule upd_conv_take_nth_drop [OF assms(1)])
  show ?thesis unfolding pending_def u by (subst w) (simp add: assms(2))
qed

lemma codes_update:
  assumes "t < length ws" "ws ! t = Running xs"
  shows "codes (ws[t := w]) = codes ws \<union> codes [w]"
proof -
  have w: "ws = take t ws @ ws ! t # drop (Suc t) ws" by (rule id_take_nth_drop [OF assms(1)])
  have u: "ws[t := w] = take t ws @ w # drop (Suc t) ws" by (rule upd_conv_take_nth_drop [OF assms(1)])
  show ?thesis unfolding u codes_def by (subst (3) w) (auto simp: assms(2))
qed

lemma codes_single [simp]: "codes [Running xs] = {}" "codes [Returned rc] = {rc} - {0}"
  by (auto simp: codes_def)

lemma run_iterations:
  assumes "(worker_step body)\<^sup>*\<^sup>* (s, ws) (s', ws')"
  shows "\<exists>xs dropped rcs. iterations body s xs = (s', rcs) \<and> mset xs + dropped + pending ws' = pending ws \<and>
    codes ws' = codes ws \<union> (set rcs - {0}) \<and> (set rcs \<subseteq> {0} \<longrightarrow> dropped = {#})"
  using assms
proof (induction "(s', ws')" arbitrary: s' ws' rule: rtranclp_induct)
  case base
  have "iterations body s [] = (s, [])" by simp
  then show ?case by fastforce
next
  case (step y)
  obtain s1 ws1 where y: "y = (s1, ws1)" by (cases y)
  obtain xs dropped rcs where IH: "iterations body s xs = (s1, rcs)" "mset xs + dropped + pending ws1 = pending ws"
    "codes ws1 = codes ws \<union> (set rcs - {0})" "set rcs \<subseteq> {0} \<longrightarrow> dropped = {#}"
    using step.hyps(3) [OF y] by blast
  from step.hyps(2) [unfolded y] show ?case
  proof cases
    case (iterate t x ys)
    have "pending ws1 = {#x#} + pending ws'" unfolding iterate by (rule pending_update) (use iterate in simp_all)
    moreover have "iterations body s (xs @ [x]) = (s', rcs @ [0])" using IH(1) iterate by (simp add: iterations_snoc)
    moreover have "codes ws' = codes ws1" using iterate by (simp add: codes_update)
    ultimately show ?thesis using IH by (intro exI [of _ "xs @ [x]"] exI [of _ dropped] exI [of _ "rcs @ [0]"]) auto
  next
    case (stop t x ys rc)
    have "pending ws1 = mset (x # ys) + pending ws'" unfolding stop by (rule pending_update) (use stop in simp_all)
    moreover have "iterations body s (xs @ [x]) = (s', rcs @ [rc])" using IH(1) stop by (simp add: iterations_snoc)
    moreover have "codes ws' = codes ws1 \<union> {rc}" using stop by (simp add: codes_update)
    ultimately show ?thesis using IH stop(5)
      by (intro exI [of _ "xs @ [x]"] exI [of _ "dropped + mset ys"] exI [of _ "rcs @ [rc]"])
        (auto simp: ac_simps)
  next
    case (finish t)
    have "pending ws1 = {#} + pending ws'" unfolding finish by (rule pending_update) (use finish in simp_all)
    moreover have "codes ws' = codes ws1" using finish by (simp add: codes_update)
    ultimately show ?thesis using IH finish(1) by (intro exI [of _ xs] exI [of _ dropped] exI [of _ rcs]) auto
  qed
qed

lemma pending_simps [simp]:
  "pending (map Running iss) = mset (concat iss)" "pending (map Returned rcs) = {#}"
  by (induction iss) (simp_all add: pending_def, induction rcs, simp_all)

lemma codes_simps [simp]: "codes (map Running iss) = {}" "codes (map Returned rcs) = set rcs - {0}"
  by (auto simp: codes_def)

text \<open>The workers of a complete run either do all iterations, or one of them returns an error.\<close>

lemma parallel_iterations:
  assumes "parallel body iss s s' rcs"
  obtains xs cs where "iterations body s xs = (s', cs)" "mset xs \<subseteq># mset (concat iss)"
    "set rcs - {0} = set cs - {0}" "set cs \<subseteq> {0} \<Longrightarrow> mset xs = mset (concat iss)"
proof -
  obtain xs dropped cs where r: "iterations body s xs = (s', cs)" "mset xs + dropped = mset (concat iss)"
    "set rcs - {0} = set cs - {0}" "set cs \<subseteq> {0} \<longrightarrow> dropped = {#}"
    using run_iterations [OF assms [unfolded parallel_def]] by auto
  have "mset xs \<subseteq># mset (concat iss)" by (metis mset_subset_eq_add_left r(2))
  then show thesis using that [of xs cs] r by auto
qed

section \<open>Runs end\<close>

primrec work :: "'i worker \<Rightarrow> nat" where
  "work (Running xs) = Suc (length xs)"
| "work (Returned rc) = 0"

lemma work_update: "t < length ws \<Longrightarrow> work w < work (ws ! t) \<Longrightarrow> sum_list (map work (ws[t := w])) < sum_list (map work ws)"
  by (simp add: map_update sum_list_update) (use elem_le_sum_list [of t "map work ws"] in fastforce)

lemma step_decreases: "worker_step body c c' \<Longrightarrow> sum_list (map work (snd c')) < sum_list (map work (snd c))"
  by (cases rule: worker_step.cases) (auto intro!: work_update)

lemma step_terminates: "wfp (worker_step body)\<inverse>\<inverse>"
  by (rule wfp_if_convertible_to_nat [of _ "\<lambda>c. sum_list (map work (snd c))"]) (simp add: step_decreases)

lemma run_completes: "\<exists>s' rcs. (worker_step body)\<^sup>*\<^sup>* (s, ws) (s', map Returned rcs)"
proof (induction "sum_list (map work ws)" arbitrary: s ws rule: less_induct)
  case less
  show ?case
  proof (cases "\<exists>t < length ws. \<exists>xs. ws ! t = Running xs")
    case True
    then obtain t xs where t: "t < length ws" "ws ! t = Running xs" by blast
    have "\<exists>s1 ws1. worker_step body (s, ws) (s1, ws1)"
    proof (cases xs)
      case Nil
      then show ?thesis using t worker_step.finish [of t ws body s] by auto
    next
      case (Cons x ys)
      then show ?thesis using t worker_step.iterate [of t ws x ys body s "fst (body s x)"]
          worker_step.stop [of t ws x ys body s "fst (body s x)" "snd (body s x)"]
        by (cases "snd (body s x) = 0") (metis prod.collapse)+
    qed
    then obtain s1 ws1 where st: "worker_step body (s, ws) (s1, ws1)" by blast
    have "sum_list (map work ws1) < sum_list (map work ws)" using step_decreases [OF st] by simp
    then obtain s' rcs where "(worker_step body)\<^sup>*\<^sup>* (s1, ws1) (s', map Returned rcs)" using less by blast
    then have "(worker_step body)\<^sup>*\<^sup>* (s, ws) (s', map Returned rcs)" using st by (rule converse_rtranclp_into_rtranclp [rotated])
    then show ?thesis by blast
  next
    case False
    have "\<exists>rcs. ws = map Returned rcs"
    proof (intro exI nth_equalityI)
      show "ws ! t = map Returned (map (\<lambda>w. case w of Returned rc \<Rightarrow> rc | _ \<Rightarrow> 0) ws) ! t" if "t < length ws" for t
        using False that by (cases "ws ! t") auto
    qed simp
    then show ?thesis by blast
  qed
qed

lemma parallel_completes: "\<exists>s' rcs. parallel body iss s s' rcs"
  using run_completes [of body s "map Running iss"] by (simp add: parallel_def)

lemma parallel_length: "parallel body iss s s' rcs \<Longrightarrow> length rcs = length iss"
proof -
  have "length (snd c') = length (snd c)" if "(worker_step body)\<^sup>*\<^sup>* c c'" for c c'
    using that by (induction rule: rtranclp_induct) (auto elim!: worker_step.cases)
  from this [of "(s, map Running iss)" "(s', map Returned rcs)"]
  show "parallel body iss s s' rcs \<Longrightarrow> length rcs = length iss" by (simp add: parallel_def)
qed

text \<open>A single worker is its loop.\<close>

lemma parallel_single:
  assumes "parallel body [xs] s s' rcs"
  shows "loop body s xs = (s', hd rcs)"
proof -
  have inv: "(\<exists>ys. snd c = [Running ys] \<and> loop body s xs = loop body (fst c) ys) \<or>
      (\<exists>rc. snd c = [Returned rc] \<and> loop body s xs = (fst c, rc))"
    if "(worker_step body)\<^sup>*\<^sup>* (s, [Running xs]) c" for c
    using that
  proof (induction rule: rtranclp_induct)
    case (step c c')
    from step.hyps(2) step.IH show ?case by (cases rule: worker_step.cases) auto
  qed simp
  then show ?thesis using inv [of "(s', map Returned rcs)"] assms by (auto simp: parallel_def)
qed

end
