(* ===== verification/Join_Column.thy ===== *)
theory Join_Column
  imports Null_Values "HOL-Library.Multiset"
begin

text \<open>
  The columns that the hash-join builders read: the fixed-width decoders of
  \<open>DecodersImpl.h\<close>, and \<open>JoinColumnIterator\<close>, which walks over the chunks of a column with the
  start and the step of one builder thread.  The theorem says that the threads share the rows
  of the column out among them, whatever the sizes of the chunks are.
\<close>

section \<open>Decoders\<close>

definition fixed_width_int_decode :: "8 word list \<Rightarrow> nat \<Rightarrow> nat \<Rightarrow> int" where
  "fixed_width_int_decode byte_stream byte_width pos =
     (if byte_width \<in> {1, 2, 4, 8} then load_signed byte_width (drop (pos * byte_width) byte_stream)
      else - 9223372036854775807)"

definition fixed_width_unsigned_decode :: "8 word list \<Rightarrow> nat \<Rightarrow> nat \<Rightarrow> int" where
  "fixed_width_unsigned_decode byte_stream byte_width pos =
     (if byte_width \<in> {1, 2, 4, 8}
      then s64 (uint (load_le (take byte_width (drop (pos * byte_width) byte_stream)) :: 64 word))
      else - 9223372036854775807)"

definition diff_fixed_width_int_decode :: "8 word list \<Rightarrow> nat \<Rightarrow> int \<Rightarrow> nat \<Rightarrow> int" where
  "diff_fixed_width_int_decode byte_stream byte_width baseline pos =
     s64 (fixed_width_int_decode byte_stream byte_width pos + baseline)"

definition fixed_width_small_date_decode :: "8 word list \<Rightarrow> nat \<Rightarrow> int \<Rightarrow> int \<Rightarrow> nat \<Rightarrow> int" where
  "fixed_width_small_date_decode byte_stream byte_width null_val ret_null_val pos =
     (let val = fixed_width_int_decode byte_stream byte_width pos
      in if val = null_val then ret_null_val else s64 (val * 86400))"

section \<open>Columns\<close>

datatype ColumnType = SmallDate | Signed | Unsigned | Double

definition is_unsigned_type :: "SQLTypeInfo \<Rightarrow> bool" where
  "is_unsigned_type ti \<longleftrightarrow> get_compression ti = kENCODING_DICT \<and> get_size ti < get_logical_size ti"

definition get_join_column_type_kind :: "SQLTypeInfo \<Rightarrow> ColumnType" where
  "get_join_column_type_kind ti =
     (if is_date_in_days ti then SmallDate else if is_unsigned_type ti then Unsigned else Signed)"

text \<open>A chunk without data is \<^term>\<open>None\<close>.\<close>

record JoinChunk =
  col_buff :: "8 word list option"
  chunk_num_elems :: nat

record JoinColumn =
  col_chunks_buff :: "JoinChunk list"
  num_chunks :: nat
  num_elems :: nat
  elem_sz :: nat

record JoinColumnTypeInfo =
  ti_elem_sz :: nat
  min_val :: int
  max_val :: int
  null_val :: int
  uses_bw_eq :: bool
  translated_null_val :: int
  column_type :: ColumnType

section \<open>The iterator\<close>

record JoinColumnIterator =
  join_column :: JoinColumn
  type_info :: JoinColumnTypeInfo
  chunk_data :: "8 word list option"
  index_of_chunk :: nat
  index_inside_chunk :: nat
  it_index :: nat
  it_start :: nat
  it_step :: nat

text \<open>
  The element of a row of a chunk.  Floating-point columns are read by \<open>double_decode\<close>, the
  conversion of the stored double to a 64-bit integer.
\<close>

definition element_at :: "(8 word list \<Rightarrow> nat \<Rightarrow> int) \<Rightarrow> JoinColumnTypeInfo \<Rightarrow> 8 word list \<Rightarrow> nat \<Rightarrow> int" where
  "element_at double_decode ti data i =
     (let null = (if ti_elem_sz ti = 4 then NULL_INT else NULL_SMALLINT)
      in case column_type ti of
        SmallDate \<Rightarrow> fixed_width_small_date_decode data (ti_elem_sz ti) null null i
      | Signed \<Rightarrow> fixed_width_int_decode data (ti_elem_sz ti) i
      | Unsigned \<Rightarrow> fixed_width_unsigned_decode data (ti_elem_sz ti) i
      | Double \<Rightarrow> double_decode data i)"

definition getElementSwitch :: "(8 word list \<Rightarrow> nat \<Rightarrow> int) \<Rightarrow> JoinColumnIterator \<Rightarrow> int" where
  "getElementSwitch double_decode it =
     element_at double_decode (type_info it) (the (chunk_data it)) (index_inside_chunk it)"

text \<open>The loop of \<open>operator++\<close>, which leaves the chunks that the cursor has passed.\<close>

function skip_chunks :: "JoinColumnIterator \<Rightarrow> JoinColumnIterator" where
  "skip_chunks it =
     (let join_chunk_array = col_chunks_buff (join_column it);
          n = chunk_num_elems (join_chunk_array ! index_of_chunk it);
          i = index_of_chunk it + 1
      in if chunk_data it \<noteq> None \<and> n \<le> index_inside_chunk it
         then skip_chunks (it\<lparr>index_inside_chunk := index_inside_chunk it - n, index_of_chunk := i,
                chunk_data := if i < num_chunks (join_column it) then col_buff (join_chunk_array ! i) else None\<rparr>)
         else it)"
  by pat_completeness auto

termination
  by (relation "measure (\<lambda>it. if chunk_data it = None then 0 else Suc (num_chunks (join_column it) - index_of_chunk it))") auto

declare skip_chunks.simps [simp del]

definition it_next :: "JoinColumnIterator \<Rightarrow> JoinColumnIterator" where
  "it_next it = skip_chunks (it\<lparr>it_index := it_index it + it_step it,
     index_inside_chunk := index_inside_chunk it + it_step it\<rparr>)"

definition it_begin :: "JoinColumn \<Rightarrow> JoinColumnTypeInfo \<Rightarrow> nat \<Rightarrow> nat \<Rightarrow> JoinColumnIterator" where
  "it_begin col ti start step =
     (let it = \<lparr>join_column = col, type_info = ti,
                chunk_data = if 0 < num_elems col then col_buff (col_chunks_buff col ! 0) else None,
                index_of_chunk = 0, index_inside_chunk = 0, it_index = 0, it_start = start, it_step = step\<rparr>;
          temp = it_step it;
          it = it_next (it\<lparr>it_step := it_start it\<rparr>)
      in it\<lparr>it_step := temp\<rparr>)"

text \<open>
  The items that a loop \<open>for (auto item : col.slice(start, step))\<close> visits; the iterator equals
  the end iterator when it has no chunk data.
\<close>

partial_function (option) slice_from :: "(8 word list \<Rightarrow> nat \<Rightarrow> int) \<Rightarrow> JoinColumnIterator \<Rightarrow> (nat \<times> int) list option" where
  "slice_from double_decode it =
     (if chunk_data it = None then Some []
      else Option.bind (slice_from double_decode (it_next it))
             (\<lambda>items. Some ((it_index it, getElementSwitch double_decode it) # items)))"

definition slice :: "(8 word list \<Rightarrow> nat \<Rightarrow> int) \<Rightarrow> JoinColumn \<Rightarrow> JoinColumnTypeInfo \<Rightarrow> nat \<Rightarrow> nat \<Rightarrow> (nat \<times> int) list option" where
  "slice double_decode col ti start step = slice_from double_decode (it_begin col ti start step)"

section \<open>The rows of a column\<close>

definition column_ok :: "JoinColumn \<Rightarrow> bool" where
  "column_ok col \<longleftrightarrow> num_chunks col = length (col_chunks_buff col) \<and>
     num_elems col = sum_list (map chunk_num_elems (col_chunks_buff col)) \<and>
     (\<forall>c \<in> set (col_chunks_buff col). col_buff c \<noteq> None)"

definition column_elems :: "(8 word list \<Rightarrow> nat \<Rightarrow> int) \<Rightarrow> JoinColumnTypeInfo \<Rightarrow> JoinColumn \<Rightarrow> int list" where
  "column_elems double_decode ti col =
     concat (map (\<lambda>c. map (element_at double_decode ti (the (col_buff c))) [0..<chunk_num_elems c]) (col_chunks_buff col))"

lemma length_column_elems: "column_ok col \<Longrightarrow> length (column_elems dd ti col) = num_elems col"
  by (simp add: column_elems_def column_ok_def length_concat o_def)

definition chunk_start :: "JoinColumn \<Rightarrow> nat \<Rightarrow> nat" where
  "chunk_start col k = sum_list (map chunk_num_elems (take k (col_chunks_buff col)))"

lemma chunk_start_simps [simp]:
  "chunk_start col 0 = 0"
  "k < length (col_chunks_buff col) \<Longrightarrow> chunk_start col (Suc k) = chunk_start col k + chunk_num_elems (col_chunks_buff col ! k)"
  by (simp_all add: chunk_start_def take_Suc_conv_app_nth)

lemma chunk_start_all: "column_ok col \<Longrightarrow> chunk_start col (length (col_chunks_buff col)) = num_elems col"
  by (simp add: chunk_start_def column_ok_def)

lemma nth_concat_map:
  "k < length xs \<Longrightarrow> j < length (f (xs ! k)) \<Longrightarrow>
   concat (map f xs) ! (sum_list (map (length \<circ> f) (take k xs)) + j) = f (xs ! k) ! j"
proof (induction xs arbitrary: k)
  case (Cons x xs)
  then show ?case by (cases k) (simp_all add: nth_append)
qed simp

lemma column_elems_nth:
  assumes "k < length (col_chunks_buff col)" "j < chunk_num_elems (col_chunks_buff col ! k)"
  shows "column_elems dd ti col ! (chunk_start col k + j) = element_at dd ti (the (col_buff (col_chunks_buff col ! k))) j"
proof -
  have l: "length \<circ> (\<lambda>c. map (element_at dd ti (the (col_buff c))) [0..<chunk_num_elems c]) = chunk_num_elems" by auto
  show ?thesis
    using nth_concat_map [of k "col_chunks_buff col" j "\<lambda>c. map (element_at dd ti (the (col_buff c))) [0..<chunk_num_elems c]"] assms
    unfolding l chunk_start_def column_elems_def by simp
qed

section \<open>The iterator visits the rows of its thread\<close>

text \<open>An iterator that stands at row \<open>i\<close> of a column.\<close>

definition it_at :: "JoinColumn \<Rightarrow> JoinColumnIterator \<Rightarrow> nat \<Rightarrow> bool" where
  "it_at col it i \<longleftrightarrow> join_column it = col \<and> it_index it = i \<and>
     (if i < num_elems col
      then index_of_chunk it < num_chunks col \<and> chunk_data it = col_buff (col_chunks_buff col ! index_of_chunk it) \<and>
        index_inside_chunk it < chunk_num_elems (col_chunks_buff col ! index_of_chunk it) \<and>
        i = chunk_start col (index_of_chunk it) + index_inside_chunk it
      else chunk_data it = None)"

lemma skip_chunks_const [simp]:
  "join_column (skip_chunks it) = join_column it" "type_info (skip_chunks it) = type_info it"
  "it_index (skip_chunks it) = it_index it" "it_step (skip_chunks it) = it_step it"
  by (induction it rule: skip_chunks.induct; subst skip_chunks.simps; simp add: Let_def)+

lemma chunk_start_mono: "chunk_start col k \<le> chunk_start col (length (col_chunks_buff col))"
proof -
  have "map chunk_num_elems (col_chunks_buff col) =
      map chunk_num_elems (take k (col_chunks_buff col)) @ map chunk_num_elems (drop k (col_chunks_buff col))"
    by (metis append_take_drop_id map_append)
  then show ?thesis by (simp add: chunk_start_def)
qed

lemma skip_chunks_at:
  assumes "column_ok col" "join_column it = col" "index_of_chunk it < num_chunks col"
    "chunk_data it = col_buff (col_chunks_buff col ! index_of_chunk it)"
    "it_index it = chunk_start col (index_of_chunk it) + index_inside_chunk it"
  shows "it_at col (skip_chunks it) (it_index it)"
  using assms(2-)
proof (induction it rule: skip_chunks.induct)
  case (1 it)
  let ?i = "index_of_chunk it" and ?n = "chunk_num_elems (col_chunks_buff col ! index_of_chunk it)"
  have l: "num_chunks col = length (col_chunks_buff col)" using assms(1) by (simp add: column_ok_def)
  have d: "chunk_data it \<noteq> None" using 1 assms(1) by (simp add: column_ok_def)
  have s: "chunk_start col (Suc ?i) = chunk_start col ?i + ?n" using 1 l by simp
  show ?case
  proof (cases "?n \<le> index_inside_chunk it")
    case False
    then have "it_index it < num_elems col"
      using 1 s chunk_start_mono [of col "Suc ?i"] chunk_start_all [OF assms(1)] by simp
    then show ?thesis using False 1 by (subst skip_chunks.simps) (simp add: Let_def it_at_def)
  next
    case True
    define it' where "it' = it\<lparr>index_inside_chunk := index_inside_chunk it - ?n, index_of_chunk := Suc ?i,
      chunk_data := if Suc ?i < num_chunks col then col_buff (col_chunks_buff col ! Suc ?i) else None\<rparr>"
    have e: "skip_chunks it = skip_chunks it'"
      using True d 1 by (subst skip_chunks.simps) (simp add: Let_def it'_def)
    show ?thesis
    proof (cases "Suc ?i < num_chunks col")
      case sm: True
      have "it_at col (skip_chunks it') (it_index it')"
        unfolding it'_def using True d sm s 1 by (intro "1.IH" [unfolded Suc_eq_plus1 [symmetric] 1(2)]) auto
      then show ?thesis unfolding e by (simp add: it'_def)
    next
      case False
      then have "Suc ?i = length (col_chunks_buff col)" using 1 l by simp
      then have "num_elems col \<le> it_index it" using chunk_start_all [OF assms(1)] s True 1 by simp
      moreover have "skip_chunks it' = it'" using False by (subst skip_chunks.simps) (simp add: it'_def)
      ultimately show ?thesis using False 1(2) unfolding e by (simp add: it_at_def it'_def)
    qed
  qed
qed

lemma it_next_at:
  assumes "column_ok col" "it_at col it i" "i < num_elems col"
  shows "it_at col (it_next it) (i + it_step it)"
proof -
  define it' where "it' = it\<lparr>it_index := it_index it + it_step it, index_inside_chunk := index_inside_chunk it + it_step it\<rparr>"
  have "it_at col (skip_chunks it') (it_index it')"
    using assms by (intro skip_chunks_at) (auto simp: it_at_def it'_def)
  moreover have "it_index it' = i + it_step it" using assms(2) by (simp add: it'_def it_at_def)
  ultimately show ?thesis by (simp add: it_next_def it'_def)
qed

lemma it_next_const [simp]: "type_info (it_next it) = type_info it" "it_step (it_next it) = it_step it"
  by (simp_all add: it_next_def)

lemma it_at_step [simp]: "it_at col (it\<lparr>it_step := s\<rparr>) i = it_at col it i"
  by (simp add: it_at_def)

lemma skip_chunks_no_data: "chunk_data it = None \<Longrightarrow> skip_chunks it = it"
  by (subst skip_chunks.simps) simp

lemma it_begin_at:
  assumes "column_ok col"
  shows "it_at col (it_begin col ti start step) start" "type_info (it_begin col ti start step) = ti"
    "it_step (it_begin col ti start step) = step"
proof -
  define it where "it = \<lparr>join_column = col, type_info = ti,
    chunk_data = if 0 < num_elems col then col_buff (col_chunks_buff col ! 0) else None,
    index_of_chunk = 0, index_inside_chunk = start, it_index = start, it_start = start, it_step = start\<rparr>"
  have b: "it_begin col ti start step = (skip_chunks it)\<lparr>it_step := step\<rparr>"
    by (simp add: it_begin_def it_next_def it_def Let_def)
  have "it_at col (skip_chunks it) start"
  proof (cases "0 < num_elems col")
    case True
    then have "0 < num_chunks col" using assms by (cases "col_chunks_buff col") (auto simp: column_ok_def)
    then have "it_at col (skip_chunks it) (it_index it)"
      using True assms by (intro skip_chunks_at) (auto simp: it_def)
    then show ?thesis by (simp add: it_def)
  next
    case False
    then show ?thesis by (simp add: skip_chunks_no_data it_def it_at_def)
  qed
  then show "it_at col (it_begin col ti start step) start" "type_info (it_begin col ti start step) = ti"
    "it_step (it_begin col ti start step) = step"
    by (simp_all add: b it_def)
qed

text \<open>The rows from \<open>i\<close> on in steps of \<open>step\<close>.\<close>

definition strided :: "nat \<Rightarrow> nat \<Rightarrow> nat \<Rightarrow> nat list" where
  "strided i step n = filter (\<lambda>j. i \<le> j \<and> j mod step = i mod step) [0..<n]"

lemma strided_ge: "n \<le> i \<Longrightarrow> strided i step n = []"
  by (auto simp: strided_def filter_empty_conv)

lemma mod_eq_next:
  assumes "0 < step" shows "i < j \<and> j mod step = i mod step \<longleftrightarrow> i + step \<le> j \<and> j mod step = i mod (step :: nat)"
proof
  assume a: "i < j \<and> j mod step = i mod step"
  then have "step dvd j - i" using mod_eq_dvd_iff_nat [of i j step] by auto
  then have "step \<le> j - i" using a by (intro dvd_imp_le) auto
  then show "i + step \<le> j \<and> j mod step = i mod step" using a by auto
qed (use assms in auto)

lemma strided_step: "i < n \<Longrightarrow> 0 < step \<Longrightarrow> strided i step n = i # strided (i + step) step n"
proof -
  assume a: "i < n" "0 < step"
  have u: "[0..<n] = [0..<i] @ i # [Suc i..<n]" 
    unfolding upt_conv_Cons [OF a(1), symmetric] using upt_add_eq_append [of 0 i "n - i"] a(1) by simp
  have 1: "filter (\<lambda>j. i \<le> j \<and> j mod step = i mod step) [0..<i] = []"
    "filter (\<lambda>j. i + step \<le> j \<and> j mod step = i mod step) [0..<i] = []" by (auto simp: filter_empty_conv)
  have 2: "filter (\<lambda>j. i \<le> j \<and> j mod step = i mod step) [Suc i..<n] = filter (\<lambda>j. i + step \<le> j \<and> j mod step = i mod step) [Suc i..<n]"
  proof (rule filter_cong)
    show "(i \<le> j \<and> j mod step = i mod step) = (i + step \<le> j \<and> j mod step = i mod step)" if "j \<in> set [Suc i..<n]" for j
      using mod_eq_next [OF a(2), of i j] that by (simp add: Suc_le_eq less_imp_le)
  qed simp
  show ?thesis unfolding strided_def u by (simp add: 1 2 a(2))
qed

lemma slice_from_at:
  assumes "column_ok col" "0 < step" "it_at col it i" "type_info it = ti" "it_step it = step"
  shows "slice_from dd it = Some (map (\<lambda>j. (j, column_elems dd ti col ! j)) (strided i step (num_elems col)))"
  using assms(3-)
proof (induction "num_elems col - i" arbitrary: it i rule: less_induct)
  case less
  show ?case
  proof (cases "i < num_elems col")
    case False
    then show ?thesis using less.prems by (subst slice_from.simps) (simp add: it_at_def strided_ge)
  next
    case True
    have c: "col_buff (col_chunks_buff col ! index_of_chunk it) \<noteq> None" "num_chunks col = length (col_chunks_buff col)"
      using True less.prems assms(1) by (auto simp: column_ok_def it_at_def)
    have e: "getElementSwitch dd it = column_elems dd ti col ! i"
      using True less.prems c column_elems_nth [of "index_of_chunk it" col "index_inside_chunk it" dd ti]
      by (simp add: it_at_def getElementSwitch_def)
    have "slice_from dd (it_next it) = Some (map (\<lambda>j. (j, column_elems dd ti col ! j)) (strided (i + step) step (num_elems col)))"
      using True less.prems assms(2) it_next_at [OF assms(1) less.prems(1) True] by (intro less.hyps) auto
    then show ?thesis using True less.prems c assms(2) by (subst slice_from.simps) (simp add: e it_at_def strided_step)
  qed
qed

lemma slice_eq:
  assumes "column_ok col" "0 < step"
  shows "slice dd col ti start step = Some (map (\<lambda>j. (j, column_elems dd ti col ! j)) (strided start step (num_elems col)))"
  using slice_from_at [OF assms it_begin_at [OF assms(1)]] by (simp add: slice_def)

section \<open>Sharing the rows out\<close>

lemma count_list_upt: "count_list [0..<n] i = (if i < n then 1 else 0)"
  by (induction n) auto

lemma mset_partition:
  assumes "\<forall>x \<in> set xs. g x < n"
  shows "mset (concat (map (\<lambda>t. filter (\<lambda>x. g x = t) xs) [0..<n])) = mset xs"
  using assms
proof (induction xs)
  case (Cons x xs)
  have "mset (concat (map (\<lambda>t. filter (\<lambda>y. g y = t) (x # xs)) ts)) =
      replicate_mset (count_list ts (g x)) x + mset (concat (map (\<lambda>t. filter (\<lambda>y. g y = t) xs) ts))" for ts
    by (induction ts) auto
  moreover have "count_list [0..<n] (g x) = 1" using Cons.prems by (simp add: count_list_upt)
  ultimately show ?case using Cons by simp
qed simp

lemma strided_mod: "t < n \<Longrightarrow> strided t n N = filter (\<lambda>i. i mod n = t) [0..<N]"
  unfolding strided_def by (intro filter_cong) (auto intro: order_trans [OF _ mod_less_eq_dividend])

lemma slice_items:
  assumes "column_ok col" "t < n"
  shows "slice dd col ti t n = Some (map (\<lambda>j. (j, column_elems dd ti col ! j)) (filter (\<lambda>i. i mod n = t) [0..<num_elems col]))"
  using slice_eq [OF assms(1), of n dd ti t] strided_mod [OF assms(2)] assms(2) by simp

lemma slices_mset:
  assumes "column_ok col"
  shows "0 < n \<Longrightarrow> mset (concat (map (\<lambda>t. the (slice dd col ti t n)) [0..<n])) = mset (enumerate 0 (column_elems dd ti col))"
proof -
  define f where "f = (\<lambda>j. (j, column_elems dd ti col ! j))"
  assume n: "0 < n"
  have m: "map (\<lambda>t. the (slice dd col ti t n)) [0..<n] = map (\<lambda>t. map f (filter (\<lambda>i. i mod n = t) [0..<num_elems col])) [0..<n]"
    by (simp add: slice_items [OF assms] f_def)
  have c: "concat (map (\<lambda>t. the (slice dd col ti t n)) [0..<n]) =
      map f (concat (map (\<lambda>t. filter (\<lambda>i. i mod n = t) [0..<num_elems col]) [0..<n]))"
    unfolding m by (simp add: map_concat o_def)
  have e: "map f [0..<num_elems col] = enumerate 0 (column_elems dd ti col)"
    using length_column_elems [OF assms, of dd ti] by (intro nth_equalityI) (simp_all add: f_def nth_enumerate_eq)
  have "mset (concat (map (\<lambda>t. filter (\<lambda>i. i mod n = t) [0..<num_elems col]) [0..<n])) = mset [0..<num_elems col]"
    using n by (intro mset_partition) simp
  then show ?thesis unfolding c e [symmetric] mset_map by simp
qed

text \<open>
  C15: the threads that build a join table share the rows of a column out among them: with \<open>n\<close>
  threads, the loop of every thread ends after visiting the rows whose number is congruent to
  the thread's, in order, each with its decoded element, and together the threads visit every
  row exactly once, whatever the sizes of the chunks are (chunks without rows included).
\<close>

theorem slices_partition:
  assumes "column_ok col" "0 < n"
  shows "\<exists>items. (\<forall>t < n. slice dd col ti t n = Some (items t) \<and> map fst (items t) = filter (\<lambda>i. i mod n = t) [0..<num_elems col]) \<and>
    mset (concat (map items [0..<n])) = mset (enumerate 0 (column_elems dd ti col))"
  using slices_mset [OF assms] slice_items [OF assms(1)]
  by (intro exI [of _ "\<lambda>t. the (slice dd col ti t n)"]) (simp add: o_def)

theorem slices_partition_witness:
  "let col = \<lparr>col_chunks_buff = [\<lparr>col_buff = Some [7, 8, 255], chunk_num_elems = 3\<rparr>, \<lparr>col_buff = Some [], chunk_num_elems = 0\<rparr>,
         \<lparr>col_buff = Some [5], chunk_num_elems = 1\<rparr>], num_chunks = 3, num_elems = 4, elem_sz = 1\<rparr>;
       ti = \<lparr>ti_elem_sz = 1, min_val = -1, max_val = 8, null_val = -128, uses_bw_eq = False, translated_null_val = 9, column_type = Signed\<rparr>
   in \<exists>items. slice (\<lambda>_ _. 0) col ti 0 2 = Some (items 0) \<and> slice (\<lambda>_ _. 0) col ti 1 2 = Some (items (1 :: nat)) \<and>
     mset (items 0 @ items 1) = {#(0, 7), (1, 8), (2, -1), (3, 5)#}"
proof -
  define col :: JoinColumn where "col = \<lparr>col_chunks_buff = [\<lparr>col_buff = Some [7, 8, 255], chunk_num_elems = 3\<rparr>, \<lparr>col_buff = Some [], chunk_num_elems = 0\<rparr>,
    \<lparr>col_buff = Some [5], chunk_num_elems = 1\<rparr>], num_chunks = 3, num_elems = 4, elem_sz = 1\<rparr>"
  define ti :: JoinColumnTypeInfo where "ti = \<lparr>ti_elem_sz = 1, min_val = -1, max_val = 8, null_val = -128, uses_bw_eq = False,
    translated_null_val = 9, column_type = Signed\<rparr>"
  have e: "column_elems (\<lambda>_ _. 0) ti col = [7, 8, -1, 5]"
    unfolding col_def ti_def by code_simp
  have "column_ok col" by (simp add: column_ok_def col_def)
  from slices_partition [OF this zero_less_numeral [of "Num.Bit0 Num.One"], of "\<lambda>_ _. 0" ti]
  obtain items where "\<forall>t < 2. slice (\<lambda>_ _. 0) col ti t 2 = Some (items t) \<and> map fst (items t) = filter (\<lambda>i. i mod 2 = t) [0..<num_elems col]"
    and m: "mset (concat (map items [0..<2])) = mset (enumerate 0 [7, 8, -1, 5])" unfolding e by (elim exE conjE) (rule that)
  then have "slice (\<lambda>_ _. 0) col ti 0 2 = Some (items 0)" "slice (\<lambda>_ _. 0) col ti 1 2 = Some (items 1)"
    by simp_all
  moreover have "mset (items 0 @ items 1) = {#(0, 7), (1, 8), (2, -1), (3, 5)#}" using m by (simp add: numeral_2_eq_2)
  ultimately show ?thesis unfolding Let_def col_def [symmetric] ti_def [symmetric] by (intro exI [of _ items] conjI)
qed

end
