(* ===== verification/Join_Scan.thy ===== *)
theory Join_Scan
  imports Cider_Prelude
begin

text \<open>
  The prefix sums of \<open>HashJoinRuntime.cpp\<close>: \<open>inclusive_scan\<close> adds up a vector of 32-bit
  counters in place, in one loop for a short vector, and for a long one by a thread per
  segment, whose partial sums are added in a second pass.  The segments are disjoint, so the
  threads are written one after the other.  The theorem says that the result does not depend
  on the number of threads.
\<close>

section \<open>Definitions\<close>

text \<open>The loop \<open>*out = sum += *iter\<close> over a segment, and the sum that it ends with.\<close>

fun scan_from :: "int \<Rightarrow> int list \<Rightarrow> int list" where
  "scan_from s [] = []"
| "scan_from s (x # xs) = (let s = s32 (s + x) in s # scan_from s xs)"

fun scan_sum :: "int \<Rightarrow> int list \<Rightarrow> int" where
  "scan_sum s [] = s"
| "scan_sum s (x # xs) = scan_sum (s32 (s + x)) xs"

text \<open>The first pass: every thread scans its segment and leaves its partial sum.\<close>

primrec scan_segments :: "nat \<Rightarrow> nat \<Rightarrow> nat \<Rightarrow> nat \<Rightarrow> nat \<Rightarrow> int list \<Rightarrow> int list \<times> int list" where
  "scan_segments step elem_count 0 start_off end_off out = (out, [])"
| "scan_segments step elem_count (Suc threads) start_off end_off out =
     (let seg = take (end_off - start_off) (drop start_off out);
          out = take start_off out @ scan_from 0 seg @ drop end_off out;
          start_off = min (start_off + step) elem_count;
          end_off = min (start_off + step) elem_count;
          (out, partial_sums) = scan_segments step elem_count threads start_off end_off out
      in (out, scan_sum 0 seg # partial_sums))"

text \<open>The second pass: every thread adds the sum of the segments before its segment.\<close>

primrec add_segments :: "nat \<Rightarrow> nat \<Rightarrow> int list \<Rightarrow> nat \<Rightarrow> nat \<Rightarrow> int list \<Rightarrow> int list" where
  "add_segments step elem_count [] start_off end_off out = out"
| "add_segments step elem_count (prev_sum # partial_sums) start_off end_off out =
     (let seg = take (end_off - start_off) (drop start_off out);
          out = take start_off out @ map (\<lambda>x. s32 (x + prev_sum)) seg @ drop end_off out;
          start_off = min (start_off + step) elem_count;
          end_off = min (start_off + step) elem_count
      in add_segments step elem_count partial_sums start_off end_off out)"

definition inclusive_scan :: "int list \<Rightarrow> nat \<Rightarrow> int list" where
  "inclusive_scan xs thread_count =
     (let elem_count = length xs
      in if elem_count < 10000 \<or> thread_count \<le> 1 then scan_from 0 xs
         else let step = (elem_count + thread_count - 1) div thread_count;
                  (out, partial_sums) = scan_segments step elem_count thread_count 0 (min step elem_count) xs;
                  partial_sums = scan_from 0 partial_sums;
                  start_off = min step elem_count;
                  end_off = min (start_off + step) elem_count
              in add_segments step elem_count (take (thread_count - 1) partial_sums) start_off end_off out)"

section \<open>The passes, segment by segment\<close>

fun segs :: "nat \<Rightarrow> nat \<Rightarrow> int list \<Rightarrow> int list list" where
  "segs 0 step xs = []"
| "segs (Suc k) step xs = take step xs # segs k step (drop step xs)"

lemma length_segs [simp]: "length (segs k step xs) = k"
  by (induction k arbitrary: xs) simp_all

lemma segs_Nil: "segs k step [] = replicate k []"
  by (induction k) simp_all

lemma length_scan_from [simp]: "length (scan_from s xs) = length xs"
  by (induction xs arbitrary: s) (simp_all add: Let_def)

lemma concat_segs: "length xs \<le> k * step \<Longrightarrow> concat (segs k step xs) = xs"
  by (induction k arbitrary: xs) simp_all

lemma segs_concat:
  assumes "\<And>ys. length (f ys) = length ys"
  shows "segs k step (concat (map f (segs k step xs))) = map f (segs k step xs)"
proof (induction k arbitrary: xs)
  case (Suc k)
  show ?case
  proof (cases "step \<le> length xs")
    case True
    then show ?thesis using Suc assms by simp
  next
    case False
    have "f [] = []" using assms [of "[]"] by simp
    then show ?thesis using False assms by (simp add: segs_Nil map_replicate_const)
  qed
qed simp

lemma scan_segments_eq:
  "n = length pre + length rest \<Longrightarrow>
   scan_segments step n k (length pre) (min (length pre + step) n) (pre @ rest) =
     (pre @ concat (map (scan_from 0) (segs k step rest)) @ drop (k * step) rest, map (scan_sum 0) (segs k step rest))"
proof (induction k arbitrary: pre rest)
  case (Suc k)
  have s: "take (min (length pre + step) n - length pre) rest = take step rest"
    "drop (min (length pre + step) n - length pre) rest = drop step rest"
    using Suc.prems by (simp_all add: min_def)
  have "scan_segments step n k (length (pre @ scan_from 0 (take step rest))) (min (length (pre @ scan_from 0 (take step rest)) + step) n)
      ((pre @ scan_from 0 (take step rest)) @ drop step rest) =
      ((pre @ scan_from 0 (take step rest)) @ concat (map (scan_from 0) (segs k step (drop step rest))) @ drop (k * step) (drop step rest),
        map (scan_sum 0) (segs k step (drop step rest)))"
    using Suc.prems by (intro Suc.IH) simp
  moreover have "length (pre @ scan_from 0 (take step rest)) = min (length pre + step) n" using Suc.prems by simp
  ultimately show ?case using s by (simp add: Let_def add.commute)
qed simp

lemma add_segments_eq:
  "n = length pre + length rest \<Longrightarrow>
   add_segments step n ps (length pre) (min (length pre + step) n) (pre @ rest) =
     pre @ concat (map2 (\<lambda>p. map (\<lambda>x. s32 (x + p))) ps (segs (length ps) step rest)) @ drop (length ps * step) rest"
proof (induction ps arbitrary: pre rest)
  case (Cons p ps)
  have s: "take (min (length pre + step) n - length pre) rest = take step rest"
    "drop (min (length pre + step) n - length pre) rest = drop step rest"
    using Cons.prems by (simp_all add: min_def)
  let ?seg = "map (\<lambda>x. s32 (x + p)) (take step rest)"
  have "add_segments step n ps (length (pre @ ?seg)) (min (length (pre @ ?seg) + step) n) ((pre @ ?seg) @ drop step rest) =
      (pre @ ?seg) @ concat (map2 (\<lambda>p. map (\<lambda>x. s32 (x + p))) ps (segs (length ps) step (drop step rest))) @
      drop (length ps * step) (drop step rest)"
    using Cons.prems by (intro Cons.IH) simp
  moreover have "length (pre @ ?seg) = min (length pre + step) n" using Cons.prems by simp
  ultimately show ?case using s by (simp add: Let_def add.commute)
qed simp

section \<open>Prefix sums\<close>

lemma wrap_s_add_right: "wrap_s half (x + wrap_s half y) = wrap_s half (x + y)"
  using wrap_s_add_left [of half y x] by (simp add: add.commute)

lemma scan_sum_eq: "xs \<noteq> [] \<Longrightarrow> scan_sum s xs = s32 (s + sum_list xs)"
proof (induction xs arbitrary: s)
  case (Cons x xs)
  show ?case
  proof (cases "xs = []")
    case False
    then show ?thesis using Cons.IH [of "s32 (s + x)"] by (simp add: wrap_s_add_left add.assoc)
  qed simp
qed simp

lemma scan_from_nth: "i < length xs \<Longrightarrow> scan_from s xs ! i = s32 (s + sum_list (take (Suc i) xs))"
proof (induction xs arbitrary: s i)
  case (Cons x xs)
  then show ?case by (cases i) (simp_all add: Let_def wrap_s_add_left add.assoc)
qed simp

lemma scan_from_shift: "scan_from s xs = map (\<lambda>x. s32 (x + s)) (scan_from 0 xs)"
  by (rule nth_equalityI) (simp_all add: scan_from_nth wrap_s_add_left add.commute wrap_s_add_right)

lemma scan_from_append: "scan_from s (xs @ ys) = scan_from s xs @ scan_from (scan_sum s xs) ys"
  by (induction xs arbitrary: s) (simp_all add: Let_def)

text \<open>The segments, each shifted by the sum of those before it, are the scan of the whole.\<close>

lemma scan_from_concat:
  "scan_from p (concat xss) =
   concat (map2 (\<lambda>p. map (\<lambda>x. s32 (x + p))) (p # scan_from p (map (scan_sum 0) xss)) (map (scan_from 0) xss))"
proof (induction xss arbitrary: p)
  case (Cons xs xss)
  have "scan_from (scan_sum p xs) ys = scan_from (s32 (p + scan_sum 0 xs)) ys" for ys
  proof (cases "xs = []")
    case True
    then show ?thesis
      by (intro nth_equalityI) (simp_all add: scan_from_nth wrap_s_add_left)
  next
    case False
    then show ?thesis by (simp add: scan_sum_eq wrap_s_add_right)
  qed
  then show ?case using Cons [of "s32 (p + scan_sum 0 xs)"] by (simp add: scan_from_append scan_from_shift [of p xs] Let_def)
qed simp

section \<open>The number of threads makes no difference\<close>

lemma inclusive_scan_segments:
  fixes xs :: "int list"
  assumes "xs \<noteq> []" "length xs \<le> Suc k * step"
  defines "n \<equiv> length xs"
  shows "(let (out, partial_sums) = scan_segments step n (Suc k) 0 (min step n) xs
    in add_segments step n (take k (scan_from 0 partial_sums)) (min step n) (min (min step n + step) n) out) = scan_from 0 xs"
proof -
  define s0 ss where "s0 = take step xs" and "ss = segs k step (drop step xs)"
  define pre rest where "pre = scan_from 0 s0" and "rest = concat (map (scan_from 0) ss)"
  define p where "p = s32 (scan_sum 0 s0)"
  have c: "concat ss = drop step xs" unfolding ss_def using assms(2) by (intro concat_segs) simp
  have "0 < step" using assms(1,2) by (cases step) auto
  then have p: "scan_sum 0 s0 = p"
    using assms(1) by (simp add: p_def s0_def scan_sum_eq wrap_s_in_s in_s_wrap_s)
  have d: "drop (Suc k * step) xs = []" using assms(2) by (simp del: mult_Suc)
  have 1: "scan_segments step n (Suc k) 0 (min step n) xs = (pre @ rest, p # map (scan_sum 0) ss)"
    using scan_segments_eq [of n "[]" xs step "Suc k"] p d by (simp add: n_def s0_def pre_def rest_def ss_def)
  have "length (concat (map (scan_from 0) yss)) = length (concat yss)" for yss by (induction yss) simp_all
  then have l: "length pre = min step n" "n = length pre + length rest"
    using c by (simp_all add: pre_def s0_def n_def rest_def)
  define ps where "ps = take k (p # scan_from p (map (scan_sum 0) ss))"
  have lp: "length ps = k" by (simp add: ps_def ss_def)
  have r: "segs k step rest = map (scan_from 0) ss" unfolding rest_def ss_def by (rule segs_concat) simp
  have z: "zip ps (map (scan_from 0) ss) = zip (p # scan_from p (map (scan_sum 0) ss)) (map (scan_from 0) ss)"
    unfolding ps_def using take_zip [of k "p # scan_from p (map (scan_sum 0) ss)" "map (scan_from 0) ss"] by (simp add: ss_def del: take_Suc_Cons)
  have dr: "drop (k * step) rest = []" using l assms(2) by (simp add: n_def)
  have ps: "take k (scan_from 0 (p # map (scan_sum 0) ss)) = ps"
    unfolding ps_def p_def by (simp add: Let_def wrap_s_in_s in_s_wrap_s)
  have "add_segments step n ps (length pre) (min (length pre + step) n) (pre @ rest) = pre @ scan_from p (concat ss)"
    using add_segments_eq [OF l(2), of step ps] scan_from_concat [of p ss] dr by (simp add: lp r z)
  then show ?thesis unfolding 1 using l(1) scan_from_append [of 0 s0 "drop step xs"] ps c p
    by (simp add: pre_def s0_def)
qed

lemma inclusive_scan_eq: "inclusive_scan xs thread_count = scan_from 0 xs"
proof (cases "length xs < 10000 \<or> thread_count \<le> 1")
  case False
  then obtain k where k: "thread_count = Suc k" by (cases thread_count) auto
  define step where "step = (length xs + thread_count - 1) div thread_count"
  have "length xs \<le> Suc k * step"
  proof -
    have "length xs + k = Suc k * ((length xs + k) div Suc k) + (length xs + k) mod Suc k" by (simp only: mult_div_mod_eq)
    moreover have "(length xs + k) mod Suc k \<le> k" using mod_less_divisor [of "Suc k" "length xs + k"] by linarith
    moreover have "step = (length xs + k) div Suc k" by (simp add: step_def k)
    ultimately have "length xs + k \<le> Suc k * step + k" by (metis add_left_mono)
    then show ?thesis by (rule add_le_imp_le_right)
  qed
  moreover have "xs \<noteq> []" using False by auto
  ultimately show ?thesis using inclusive_scan_segments [of xs k step] False
    unfolding inclusive_scan_def Let_def step_def [symmetric] by (simp add: k del: scan_segments.simps)
qed (simp add: inclusive_scan_def)

text \<open>
  C18: the parallel prefix sum agrees with its reference definition: for any number of threads
  and any vector, entry \<open>i\<close> of the result is the sum of the first \<open>i + 1\<close> entries, reduced to
  32 bits.
\<close>

theorem inclusive_scan_prefix_sums:
  "inclusive_scan xs thread_count = map (\<lambda>i. s32 (sum_list (take (Suc i) xs))) [0..<length xs]"
  unfolding inclusive_scan_eq by (rule nth_equalityI) (simp_all add: scan_from_nth)

end
