(* ===== verification/Join_Build.thy ===== *)
theory Join_Build
  imports Threads Join_Column Join_Scan
begin

text \<open>
  The perfect-hash join tables of \<open>HashJoinRuntime.cpp\<close>, \<open>JoinHashImpl.h\<close> and
  \<open>PerfectHashTableBuilder.h\<close>: a slot per value of the key range, which holds the row of the key
  (one-to-one), or the position and number of its rows in a list of row numbers (one-to-many).
  The tables are built by worker threads.  The theorems say that whatever the interleaving of
  the threads, the finished table answers lookups with exactly the rows of a key.
\<close>

section \<open>Slots\<close>

definition get_hash_slot :: "int \<Rightarrow> int \<Rightarrow> nat" where
  "get_hash_slot min_key key = nat (s64 (key - min_key))"

definition get_bucketized_hash_slot :: "int \<Rightarrow> int \<Rightarrow> int \<Rightarrow> nat" where
  "get_bucketized_hash_slot bucket_normalization min_key key = nat (s64 (key - min_key) sdiv bucket_normalization)"

definition fill_one_to_one_hashtable :: "nat \<Rightarrow> int list \<Rightarrow> nat \<Rightarrow> int \<Rightarrow> int list \<times> int" where
  "fill_one_to_one_hashtable idx buff entry invalid_slot_val =
     (if buff ! entry = invalid_slot_val then (buff[entry := s32 (int idx)], 0) else (buff, - 1))"

definition fill_hashtable_for_semi_join :: "nat \<Rightarrow> int list \<Rightarrow> nat \<Rightarrow> int \<Rightarrow> int list \<times> int" where
  "fill_hashtable_for_semi_join idx buff entry invalid_slot_val =
     (if buff ! entry = invalid_slot_val then (buff[entry := s32 (int idx)], 0) else (buff, 0))"

section \<open>Keys\<close>

definition INVALID_STR_ID :: int where "INVALID_STR_ID = - 1"

definition translate_str_id_to_outer_dict :: "int \<Rightarrow> int \<Rightarrow> int \<Rightarrow> (int \<Rightarrow> string) \<Rightarrow> (string \<Rightarrow> int) \<Rightarrow> int" where
  "translate_str_id_to_outer_dict elem min_elem max_elem getString getIdOfString =
     (let outer_id = getIdOfString (getString elem)
      in if max_elem < outer_id \<or> outer_id < min_elem then INVALID_STR_ID else outer_id)"

text \<open>
  The key under which a row is entered, \<^term>\<open>None\<close> when the row is skipped.  The dictionaries
  are given by their lookups, the inner one from id to string, the outer one from string to id.
\<close>

type_synonym dict_proxies = "((int \<Rightarrow> string) \<times> (string \<Rightarrow> int)) option"

definition join_key :: "dict_proxies \<Rightarrow> JoinColumnTypeInfo \<Rightarrow> int \<Rightarrow> int option" where
  "join_key proxies ti element =
     (if element = null_val ti \<and> \<not> uses_bw_eq ti then None
      else let elem = (if element = null_val ti then translated_null_val ti else element)
        in case (case proxies of
                   Some (getString, getIdOfString) \<Rightarrow>
                     if \<not> uses_bw_eq ti \<or> elem \<noteq> translated_null_val ti
                     then let outer_id = translate_str_id_to_outer_dict elem (min_val ti) (max_val ti) getString getIdOfString
                          in if outer_id = INVALID_STR_ID then None else Some outer_id
                     else Some elem
                 | None \<Rightarrow> Some elem) of
             None \<Rightarrow> None
           | Some elem \<Rightarrow> if elem < min_val ti then None else Some elem)"

section \<open>Initialisation\<close>

text \<open>Stores to the positions from \<open>start\<close> on, below \<open>end\<close>.\<close>

definition init_hash_join_buff_cpu :: "int list \<Rightarrow> int \<Rightarrow> nat \<Rightarrow> nat \<Rightarrow> int list" where
  "init_hash_join_buff_cpu groups_buffer invalid_slot_val start end_pos =
     foldl (\<lambda>b pos. b[pos := invalid_slot_val]) groups_buffer [start..<end_pos]"

text \<open>The same for AVX512: up to an aligned address, then vectors of 16 slots, then the tail.\<close>

definition init_hash_join_buff_avx512 :: "nat \<Rightarrow> int list \<Rightarrow> int \<Rightarrow> nat \<Rightarrow> nat \<Rightarrow> int list" where
  "init_hash_join_buff_avx512 address groups_buffer invalid_slot_val start end_pos =
     (let align_iters = nat ((64 - (int address + 4 * int start)) mod 64) div 4;
          align_end = min (start + align_iters) end_pos;
          b = init_hash_join_buff_cpu groups_buffer invalid_slot_val start align_end;
          pos = max start align_end;
          vec_end = pos + (end_pos - pos) div 16 * 16;
          b = foldl (\<lambda>b k. init_hash_join_buff_cpu b invalid_slot_val (pos + 16 * k) (pos + 16 * k + 16)) b [0..<(vec_end - pos) div 16];
          pos = max pos vec_end
      in init_hash_join_buff_cpu b invalid_slot_val pos end_pos)"

definition init_hash_join_buff :: "int list \<Rightarrow> nat \<Rightarrow> int \<Rightarrow> nat \<Rightarrow> nat \<Rightarrow> int list" where
  "init_hash_join_buff groups_buffer hash_entry_count invalid_slot_val cpu_thread_idx cpu_thread_count =
     (let start = hash_entry_count * cpu_thread_idx div cpu_thread_count;
          end_pos = nat (s32 (int (hash_entry_count * (cpu_thread_idx + 1) div cpu_thread_count)))
      in init_hash_join_buff_cpu groups_buffer invalid_slot_val start end_pos)"

section \<open>One-to-one tables\<close>

definition fill_iteration ::
  "(int \<Rightarrow> nat) \<Rightarrow> (nat \<Rightarrow> int list \<Rightarrow> nat \<Rightarrow> int \<Rightarrow> int list \<times> int) \<Rightarrow> int \<Rightarrow> dict_proxies \<Rightarrow> JoinColumnTypeInfo \<Rightarrow>
   int list \<Rightarrow> nat \<times> int \<Rightarrow> int list \<times> int" where
  "fill_iteration slot filling_func invalid_slot_val proxies ti buff item =
     (case join_key proxies ti (snd item) of
        None \<Rightarrow> (buff, 0)
      | Some elem \<Rightarrow>
          let (buff, rc) = filling_func (fst item) buff (slot elem) invalid_slot_val
          in if rc \<noteq> 0 then (buff, - 1) else (buff, 0))"

definition fill_func :: "bool \<Rightarrow> nat \<Rightarrow> int list \<Rightarrow> nat \<Rightarrow> int \<Rightarrow> int list \<times> int" where
  "fill_func for_semi_join = (if for_semi_join then fill_hashtable_for_semi_join else fill_one_to_one_hashtable)"

text \<open>What one thread does; \<^term>\<open>None\<close> is a loop that does not end.\<close>

definition fill_hash_join_buff_impl ::
  "(8 word list \<Rightarrow> nat \<Rightarrow> int) \<Rightarrow> (int list \<Rightarrow> nat \<times> int \<Rightarrow> int list \<times> int) \<Rightarrow> int list \<Rightarrow> JoinColumn \<Rightarrow> JoinColumnTypeInfo \<Rightarrow>
   nat \<Rightarrow> nat \<Rightarrow> (int list \<times> int) option" where
  "fill_hash_join_buff_impl double_decode iteration buff col ti cpu_thread_idx cpu_thread_count =
     map_option (loop iteration buff) (slice double_decode col ti cpu_thread_idx cpu_thread_count)"

definition fill_hash_join_buff_bucketized ::
  "(8 word list \<Rightarrow> nat \<Rightarrow> int) \<Rightarrow> int list \<Rightarrow> int \<Rightarrow> bool \<Rightarrow> JoinColumn \<Rightarrow> JoinColumnTypeInfo \<Rightarrow> dict_proxies \<Rightarrow>
   nat \<Rightarrow> nat \<Rightarrow> int \<Rightarrow> (int list \<times> int) option" where
  "fill_hash_join_buff_bucketized double_decode buff invalid_slot_val for_semi_join col ti proxies cpu_thread_idx cpu_thread_count
     bucket_normalization =
     fill_hash_join_buff_impl double_decode
       (fill_iteration (get_bucketized_hash_slot bucket_normalization (min_val ti)) (fill_func for_semi_join) invalid_slot_val proxies ti)
       buff col ti cpu_thread_idx cpu_thread_count"

definition fill_hash_join_buff ::
  "(8 word list \<Rightarrow> nat \<Rightarrow> int) \<Rightarrow> int list \<Rightarrow> int \<Rightarrow> bool \<Rightarrow> JoinColumn \<Rightarrow> JoinColumnTypeInfo \<Rightarrow> dict_proxies \<Rightarrow>
   nat \<Rightarrow> nat \<Rightarrow> (int list \<times> int) option" where
  "fill_hash_join_buff double_decode buff invalid_slot_val for_semi_join col ti proxies cpu_thread_idx cpu_thread_count =
     fill_hash_join_buff_impl double_decode
       (fill_iteration (get_hash_slot (min_val ti)) (fill_func for_semi_join) invalid_slot_val proxies ti)
       buff col ti cpu_thread_idx cpu_thread_count"

section \<open>One-to-many tables\<close>

text \<open>The three parts of the buffer of a one-to-many table, one after the other.\<close>

record one_to_many =
  pos_buff :: "int list"
  count_buff :: "int list"
  id_buff :: "int list"

definition count_matches_iteration ::
  "(int \<Rightarrow> nat) \<Rightarrow> dict_proxies \<Rightarrow> JoinColumnTypeInfo \<Rightarrow> int list \<Rightarrow> nat \<times> int \<Rightarrow> int list \<times> int" where
  "count_matches_iteration slot proxies ti counts item =
     (case join_key proxies ti (snd item) of
        None \<Rightarrow> (counts, 0)
      | Some elem \<Rightarrow> (counts[slot elem := s32 (counts ! slot elem + 1)], 0))"

text \<open>A failed \<open>CHECK\<close> stops the thread with the code 1.\<close>

definition fill_row_ids_iteration ::
  "(int \<Rightarrow> nat) \<Rightarrow> int \<Rightarrow> dict_proxies \<Rightarrow> JoinColumnTypeInfo \<Rightarrow> one_to_many \<Rightarrow> nat \<times> int \<Rightarrow> one_to_many \<times> int" where
  "fill_row_ids_iteration slot invalid_slot_val proxies ti b item =
     (case join_key proxies ti (snd item) of
        None \<Rightarrow> (b, 0)
      | Some elem \<Rightarrow>
          let bin_idx = slot elem;
              pos = pos_buff b ! bin_idx
          in if pos = invalid_slot_val then (b, 1)
             else let id_buff_idx = s32 (count_buff b ! bin_idx + pos)
                  in (b\<lparr>count_buff := (count_buff b)[bin_idx := s32 (count_buff b ! bin_idx + 1)],
                        id_buff := (id_buff b)[nat id_buff_idx := s32 (int (fst item))]\<rparr>, 0))"

text \<open>The work of one thread in either phase.\<close>

definition count_matches_impl ::
  "(8 word list \<Rightarrow> nat \<Rightarrow> int) \<Rightarrow> (int \<Rightarrow> nat) \<Rightarrow> int list \<Rightarrow> JoinColumn \<Rightarrow> JoinColumnTypeInfo \<Rightarrow> dict_proxies \<Rightarrow> nat \<Rightarrow> nat \<Rightarrow> int list option" where
  "count_matches_impl double_decode slot counts col ti proxies cpu_thread_idx cpu_thread_count =
     map_option (\<lambda>items. fst (loop (count_matches_iteration slot proxies ti) counts items)) (slice double_decode col ti cpu_thread_idx cpu_thread_count)"

definition count_matches ::
  "(8 word list \<Rightarrow> nat \<Rightarrow> int) \<Rightarrow> int list \<Rightarrow> JoinColumn \<Rightarrow> JoinColumnTypeInfo \<Rightarrow> dict_proxies \<Rightarrow> nat \<Rightarrow> nat \<Rightarrow> int list option" where
  "count_matches double_decode counts col ti = count_matches_impl double_decode (get_hash_slot (min_val ti)) counts col ti"

definition count_matches_bucketized ::
  "(8 word list \<Rightarrow> nat \<Rightarrow> int) \<Rightarrow> int list \<Rightarrow> JoinColumn \<Rightarrow> JoinColumnTypeInfo \<Rightarrow> dict_proxies \<Rightarrow> nat \<Rightarrow> nat \<Rightarrow> int \<Rightarrow> int list option" where
  "count_matches_bucketized double_decode counts col ti proxies cpu_thread_idx cpu_thread_count bucket =
     count_matches_impl double_decode (get_bucketized_hash_slot bucket (min_val ti)) counts col ti proxies cpu_thread_idx cpu_thread_count"

definition fill_row_ids_impl ::
  "(8 word list \<Rightarrow> nat \<Rightarrow> int) \<Rightarrow> (int \<Rightarrow> nat) \<Rightarrow> int \<Rightarrow> one_to_many \<Rightarrow> JoinColumn \<Rightarrow> JoinColumnTypeInfo \<Rightarrow> dict_proxies \<Rightarrow> nat \<Rightarrow> nat \<Rightarrow>
   one_to_many result option" where
  "fill_row_ids_impl double_decode slot invalid_slot_val b col ti proxies cpu_thread_idx cpu_thread_count =
     map_option (\<lambda>items. let (b, rc) = loop (fill_row_ids_iteration slot invalid_slot_val proxies ti) b items
                          in if rc \<noteq> 0 then Inl CheckFailed else Inr b) (slice double_decode col ti cpu_thread_idx cpu_thread_count)"

definition fill_row_ids ::
  "(8 word list \<Rightarrow> nat \<Rightarrow> int) \<Rightarrow> int \<Rightarrow> one_to_many \<Rightarrow> JoinColumn \<Rightarrow> JoinColumnTypeInfo \<Rightarrow> dict_proxies \<Rightarrow> nat \<Rightarrow> nat \<Rightarrow> one_to_many result option" where
  "fill_row_ids double_decode invalid_slot_val b col ti = fill_row_ids_impl double_decode (get_hash_slot (min_val ti)) invalid_slot_val b col ti"

definition fill_row_ids_bucketized ::
  "(8 word list \<Rightarrow> nat \<Rightarrow> int) \<Rightarrow> int \<Rightarrow> one_to_many \<Rightarrow> JoinColumn \<Rightarrow> JoinColumnTypeInfo \<Rightarrow> dict_proxies \<Rightarrow> nat \<Rightarrow> nat \<Rightarrow> int \<Rightarrow>
   one_to_many result option" where
  "fill_row_ids_bucketized double_decode invalid_slot_val b col ti proxies cpu_thread_idx cpu_thread_count bucket =
     fill_row_ids_impl double_decode (get_bucketized_hash_slot bucket (min_val ti)) invalid_slot_val b col ti proxies
       cpu_thread_idx cpu_thread_count"

text \<open>The threads that write the positions; thread \<open>t\<close> has the entries congruent to \<open>t\<close>.\<close>

definition write_positions :: "nat \<Rightarrow> nat \<Rightarrow> int list \<Rightarrow> int list \<Rightarrow> int list \<Rightarrow> int list" where
  "write_positions hash_entry_count thread_count counts count_copy pos =
     fold (\<lambda>t. fold (\<lambda>i pos. if counts ! i \<noteq> 0 then pos[i := count_copy ! i] else pos) (strided t thread_count hash_entry_count))
       [0..<thread_count] pos"

text \<open>
  The whole construction, from the buffer before to a buffer that some interleaving of the
  threads leads to; \<open>items\<close> are the rows that each thread visits.  A vector of no entries fails a
  \<open>CHECK\<close>, so there is no result then.
\<close>

definition fill_one_to_many_hash_table_impl ::
  "nat \<Rightarrow> (nat \<times> int) list list \<Rightarrow> (int list \<Rightarrow> nat \<times> int \<Rightarrow> int list \<times> int) \<Rightarrow>
   (one_to_many \<Rightarrow> nat \<times> int \<Rightarrow> one_to_many \<times> int) \<Rightarrow> one_to_many \<Rightarrow> one_to_many \<Rightarrow> bool" where
  "fill_one_to_many_hash_table_impl hash_entry_count items count_matches_func fill_row_ids_func b b' \<longleftrightarrow>
     0 < hash_entry_count \<and>
     (\<exists>counts count_rcs rcs. parallel count_matches_func items (replicate hash_entry_count 0) counts count_rcs \<and>
       (let count_copy = inclusive_scan (0 # take (hash_entry_count - 1) counts) (length items);
            pos = write_positions hash_entry_count (length items) counts count_copy (pos_buff b)
        in parallel fill_row_ids_func items (b\<lparr>pos_buff := pos, count_buff := replicate hash_entry_count 0\<rparr>) b' rcs \<and>
           (\<forall>rc \<in> set rcs. rc = 0)))"

record HashEntryInfo =
  hash_entry_count :: nat
  bucket_normalization :: int

definition getNormalizedHashEntryCount :: "HashEntryInfo \<Rightarrow> nat result" where
  "getNormalizedHashEntryCount info =
     (if bucket_normalization info \<le> 0 then Inl CheckFailed
      else let modulo_res = hash_entry_count info mod nat (bucket_normalization info);
               entry_count = hash_entry_count info div nat (bucket_normalization info)
           in Inr (if modulo_res \<noteq> 0 then entry_count + 1 else entry_count))"

text \<open>The items of the threads of a table build.\<close>

definition thread_items :: "(8 word list \<Rightarrow> nat \<Rightarrow> int) \<Rightarrow> JoinColumn \<Rightarrow> JoinColumnTypeInfo \<Rightarrow> nat \<Rightarrow> (nat \<times> int) list list" where
  "thread_items double_decode col ti cpu_thread_count =
     map (\<lambda>t. the (slice double_decode col ti t cpu_thread_count)) [0..<cpu_thread_count]"

definition fill_one_to_many_hash_table ::
  "(8 word list \<Rightarrow> nat \<Rightarrow> int) \<Rightarrow> HashEntryInfo \<Rightarrow> int \<Rightarrow> JoinColumn \<Rightarrow> JoinColumnTypeInfo \<Rightarrow> dict_proxies \<Rightarrow> nat \<Rightarrow>
   one_to_many \<Rightarrow> one_to_many \<Rightarrow> bool" where
  "fill_one_to_many_hash_table double_decode info invalid_slot_val col ti proxies cpu_thread_count b b' \<longleftrightarrow>
     fill_one_to_many_hash_table_impl (hash_entry_count info) (thread_items double_decode col ti cpu_thread_count)
       (count_matches_iteration (get_hash_slot (min_val ti)) proxies ti)
       (fill_row_ids_iteration (get_hash_slot (min_val ti)) invalid_slot_val proxies ti) b b'"

definition fill_one_to_many_hash_table_bucketized ::
  "(8 word list \<Rightarrow> nat \<Rightarrow> int) \<Rightarrow> HashEntryInfo \<Rightarrow> int \<Rightarrow> JoinColumn \<Rightarrow> JoinColumnTypeInfo \<Rightarrow> dict_proxies \<Rightarrow> nat \<Rightarrow>
   one_to_many \<Rightarrow> one_to_many \<Rightarrow> bool" where
  "fill_one_to_many_hash_table_bucketized double_decode info invalid_slot_val col ti proxies cpu_thread_count b b' \<longleftrightarrow>
     (case getNormalizedHashEntryCount info of
        Inl _ \<Rightarrow> False
      | Inr n \<Rightarrow>
          let slot = get_bucketized_hash_slot (bucket_normalization info) (min_val ti)
          in fill_one_to_many_hash_table_impl n (thread_items double_decode col ti cpu_thread_count)
               (count_matches_iteration slot proxies ti) (fill_row_ids_iteration slot invalid_slot_val proxies ti) b b')"

section \<open>The builder\<close>

datatype JoinType = INNER | LEFT | SEMI | ANTI | INVALID

definition for_semi_anti_join :: "JoinType \<Rightarrow> bool" where
  "for_semi_anti_join join_type \<longleftrightarrow> join_type = SEMI \<or> join_type = ANTI"

definition get_entries_per_shard :: "nat \<Rightarrow> nat \<Rightarrow> nat result" where
  "get_entries_per_shard total_entry_count shard_count =
     (if shard_count = 0 then Inl CheckFailed else Inr ((total_entry_count + shard_count - 1) div shard_count))"

text \<open>The type information that the builder passes on, from the column's type and its range.\<close>

definition join_type_info :: "SQLTypeInfo \<Rightarrow> int \<Rightarrow> int \<Rightarrow> bool \<Rightarrow> JoinColumnTypeInfo result" where
  "join_type_info ti range_min range_max is_bitwise_eq =
     (case inline_fixed_encoding_null_val ti of
        Inl e \<Rightarrow> Inl e
      | Inr null \<Rightarrow> Inr \<lparr>ti_elem_sz = nat (get_size ti), min_val = range_min, max_val = range_max, null_val = null,
          uses_bw_eq = is_bitwise_eq, translated_null_val = s64 (range_max + 1), column_type = get_join_column_type_kind ti\<rparr>)"

text \<open>One thread builds the table; \<open>mem\<close> is the memory that \<open>new int32_t[n]\<close> returns.\<close>

definition initOneToOneHashTableOnCpu ::
  "(8 word list \<Rightarrow> nat \<Rightarrow> int) \<Rightarrow> JoinColumn \<Rightarrow> int \<Rightarrow> int \<Rightarrow> bool \<Rightarrow> SQLTypeInfo \<Rightarrow> dict_proxies \<Rightarrow> JoinType \<Rightarrow> HashEntryInfo \<Rightarrow>
   int \<Rightarrow> int list \<Rightarrow> int list result option" where
  "initOneToOneHashTableOnCpu double_decode col range_min range_max is_bitwise_eq ti proxies join_type info hash_join_invalid_val mem =
     (case getNormalizedHashEntryCount info of
        Inl e \<Rightarrow> Some (Inl e)
      | Inr n \<Rightarrow>
          let buff = init_hash_join_buff mem n hash_join_invalid_val 0 1
          in case join_type_info ti range_min range_max is_bitwise_eq of
               Inl e \<Rightarrow> Some (Inl e)
             | Inr info' \<Rightarrow>
                 map_option (\<lambda>(buff, err). if err \<noteq> 0 then Inl CiderOneToMoreHashException else Inr buff)
                   (fill_hash_join_buff_bucketized double_decode buff hash_join_invalid_val (for_semi_anti_join join_type) col info'
                      proxies 0 1 (bucket_normalization info)))"

text \<open>The builder of one-to-many tables; \<open>mem\<close> is the new buffer, in its three parts.\<close>

definition initOneToManyHashTableOnCpu ::
  "(8 word list \<Rightarrow> nat \<Rightarrow> int) \<Rightarrow> JoinColumn \<Rightarrow> int \<Rightarrow> int \<Rightarrow> bool \<Rightarrow> SQLTypeInfo \<Rightarrow> dict_proxies \<Rightarrow> HashEntryInfo \<Rightarrow> int \<Rightarrow>
   one_to_many \<Rightarrow> one_to_many \<Rightarrow> bool" where
  "initOneToManyHashTableOnCpu double_decode col range_min range_max is_bitwise_eq ti proxies info hash_join_invalid_val mem t \<longleftrightarrow>
     (case getNormalizedHashEntryCount info of
        Inl _ \<Rightarrow> False
      | Inr n \<Rightarrow>
          let b = mem\<lparr>pos_buff := init_hash_join_buff (pos_buff mem) n hash_join_invalid_val 0 1\<rparr>
          in case join_type_info ti range_min range_max is_bitwise_eq of
               Inl _ \<Rightarrow> False
             | Inr info' \<Rightarrow>
                 if get_type ti = kDATE
                 then fill_one_to_many_hash_table_bucketized double_decode info hash_join_invalid_val col info' proxies 1 b t
                 else fill_one_to_many_hash_table double_decode info hash_join_invalid_val col info' proxies 1 b t)"

text \<open>Filling a one-to-one table with any number of threads, each of which fills in the rows of its slice.\<close>

definition fill_threads ::
  "(8 word list \<Rightarrow> nat \<Rightarrow> int) \<Rightarrow> int \<Rightarrow> bool \<Rightarrow> JoinColumn \<Rightarrow> JoinColumnTypeInfo \<Rightarrow> dict_proxies \<Rightarrow> nat \<Rightarrow> int \<Rightarrow>
   int list \<Rightarrow> int list \<Rightarrow> int list \<Rightarrow> bool" where
  "fill_threads double_decode invalid_slot_val for_semi_join col ti proxies thread_count bucket buff buff' errs \<longleftrightarrow>
     parallel (fill_iteration (get_bucketized_hash_slot bucket (min_val ti)) (fill_func for_semi_join) invalid_slot_val proxies ti)
       (thread_items double_decode col ti thread_count) buff buff' errs"

section \<open>Lookups\<close>

definition bucketized_hash_join_idx :: "int list \<Rightarrow> int \<Rightarrow> int \<Rightarrow> int \<Rightarrow> int \<Rightarrow> int" where
  "bucketized_hash_join_idx hash_buff key min_key max_key bucket =
     (if min_key \<le> key \<and> key \<le> max_key then hash_buff ! get_bucketized_hash_slot bucket min_key key else - 1)"

definition hash_join_idx :: "int list \<Rightarrow> int \<Rightarrow> int \<Rightarrow> int \<Rightarrow> int" where
  "hash_join_idx hash_buff key min_key max_key =
     (if min_key \<le> key \<and> key \<le> max_key then hash_buff ! get_hash_slot min_key key else - 1)"

definition bucketized_hash_join_idx_nullable :: "int list \<Rightarrow> int \<Rightarrow> int \<Rightarrow> int \<Rightarrow> int \<Rightarrow> int \<Rightarrow> int" where
  "bucketized_hash_join_idx_nullable hash_buff key min_key max_key null bucket =
     (if key \<noteq> null then bucketized_hash_join_idx hash_buff key min_key max_key bucket else - 1)"

definition hash_join_idx_nullable :: "int list \<Rightarrow> int \<Rightarrow> int \<Rightarrow> int \<Rightarrow> int \<Rightarrow> int" where
  "hash_join_idx_nullable hash_buff key min_key max_key null =
     (if key \<noteq> null then hash_join_idx hash_buff key min_key max_key else - 1)"

definition hash_join_idx_nullable_cider :: "int list \<Rightarrow> int \<Rightarrow> int \<Rightarrow> int \<Rightarrow> bool \<Rightarrow> int" where
  "hash_join_idx_nullable_cider hash_buff key min_key max_key is_null =
     (if is_null then - 1 else hash_join_idx hash_buff key min_key max_key)"

definition bucketized_hash_join_idx_bitwise :: "int list \<Rightarrow> int \<Rightarrow> int \<Rightarrow> int \<Rightarrow> int \<Rightarrow> int \<Rightarrow> int \<Rightarrow> int" where
  "bucketized_hash_join_idx_bitwise hash_buff key min_key max_key null translated_val bucket =
     (if key \<noteq> null then bucketized_hash_join_idx hash_buff key min_key max_key bucket
      else bucketized_hash_join_idx hash_buff translated_val min_key translated_val bucket)"

definition hash_join_idx_bitwise :: "int list \<Rightarrow> int \<Rightarrow> int \<Rightarrow> int \<Rightarrow> int \<Rightarrow> int \<Rightarrow> int" where
  "hash_join_idx_bitwise hash_buff key min_key max_key null translated_val =
     (if key \<noteq> null then hash_join_idx hash_buff key min_key max_key
      else hash_join_idx hash_buff translated_val min_key translated_val)"

definition translate_null_key :: "int \<Rightarrow> int \<Rightarrow> int \<Rightarrow> int" where
  "translate_null_key key null translated_val = (if key = null then translated_val else key)"

end
