(* ===== verification/Join_Correct.thy ===== *)
theory Join_Correct
  imports Join_Build
begin

text \<open>
  Correctness of the perfect-hash join tables: the iterations of the builder threads, in
  whatever order, leave the same information behind, so that the lookups of a finished table
  return exactly the rows of a key.
\<close>

section \<open>Rows and their slots\<close>

definition item_slot :: "(int \<Rightarrow> nat) \<Rightarrow> dict_proxies \<Rightarrow> JoinColumnTypeInfo \<Rightarrow> nat \<times> int \<Rightarrow> nat option" where
  "item_slot slot proxies ti item = map_option slot (join_key proxies ti (snd item))"

text \<open>No two different rows have the same slot.\<close>

definition no_clash :: "('i \<Rightarrow> nat option) \<Rightarrow> 'i set \<Rightarrow> bool" where
  "no_clash sl S \<longleftrightarrow> (\<forall>x \<in> S. \<forall>y \<in> S. \<forall>j. sl x = Some j \<longrightarrow> sl y = Some j \<longrightarrow> x = y)"

lemma no_clash_subset: "no_clash sl S \<Longrightarrow> T \<subseteq> S \<Longrightarrow> no_clash sl T"
  unfolding no_clash_def by blast

lemma no_clash_insert: "no_clash sl (insert x S) \<longleftrightarrow> no_clash sl S \<and> (\<forall>y \<in> S. \<forall>j. sl x = Some j \<longrightarrow> sl y = Some j \<longrightarrow> x = y)"
  unfolding no_clash_def by auto

section \<open>One-to-one tables\<close>

lemma fill_iteration_eq:
  "fill_iteration slot (fill_func semi) iv proxies ti buff x =
    (case item_slot slot proxies ti x of
       None \<Rightarrow> (buff, 0)
     | Some j \<Rightarrow> if buff ! j = iv then (buff[j := s32 (int (fst x))], 0) else (buff, if semi then 0 else - 1))"
  by (simp add: fill_iteration_def item_slot_def fill_func_def fill_one_to_one_hashtable_def fill_hashtable_for_semi_join_def
      split: option.split)

text \<open>The table after any sequence of iterations: every slot with a row holds one of its rows.\<close>

definition holds_rows :: "('i \<Rightarrow> nat option) \<Rightarrow> ('i \<Rightarrow> int) \<Rightarrow> int \<Rightarrow> nat \<Rightarrow> int list \<Rightarrow> 'i set \<Rightarrow> bool" where
  "holds_rows sl val iv n buff S \<longleftrightarrow> length buff = n \<and>
     (\<forall>j < n. if \<exists>x \<in> S. sl x = Some j then \<exists>x \<in> S. sl x = Some j \<and> buff ! j = val x else buff ! j = iv)"

lemma holds_rows_cong: "S = T \<Longrightarrow> (\<And>x. x \<in> T \<Longrightarrow> val x = val' x) \<Longrightarrow> holds_rows sl val iv n buff S = holds_rows sl val' iv n buff T"
  unfolding holds_rows_def by (simp cong: bex_cong conj_cong)

lemma holds_rows_insert:
  assumes "holds_rows sl val iv n buff S" "sl x = Some j" "j < n" "buff ! j = iv" "\<forall>y \<in> S. val y \<noteq> iv"
  shows "holds_rows sl val iv n (buff[j := val x]) (insert x S)" "\<forall>y \<in> S. sl y \<noteq> Some j"
proof -
  show f: "\<forall>y \<in> S. sl y \<noteq> Some j" using assms unfolding holds_rows_def by metis
  show "holds_rows sl val iv n (buff[j := val x]) (insert x S)"
    unfolding holds_rows_def
  proof (intro conjI allI impI)
    fix i assume i: "i < n"
    show "if \<exists>y \<in> insert x S. sl y = Some i then \<exists>y \<in> insert x S. sl y = Some i \<and> buff[j := val x] ! i = val y
        else buff[j := val x] ! i = iv"
    proof (cases "i = j")
      case True
      then show ?thesis using assms(1-3) by (auto simp: holds_rows_def)
    next
      case False
      then show ?thesis using assms(1,2) i unfolding holds_rows_def by (auto split: if_split_asm)
    qed
  qed (use assms(1) in \<open>simp add: holds_rows_def\<close>)
qed

lemma one_to_one_iterations:
  assumes "distinct xs" "\<forall>x \<in> set xs. \<forall>j. sl x = Some j \<longrightarrow> j < n" "\<forall>x \<in> set xs. val x \<noteq> iv"
    and body: "\<And>buff x. body buff x = (case sl x of None \<Rightarrow> (buff, 0) | Some j \<Rightarrow> if buff ! j = iv then (buff[j := val x], 0) else (buff, if semi then 0 else - 1))"
    and it: "iterations body (replicate n iv) xs = (buff, rcs)"
  shows "holds_rows sl val iv n buff (set xs) \<and> (set rcs \<subseteq> {0} \<longleftrightarrow> semi \<or> no_clash sl (set xs))"
  using assms(1-3) it
proof (induction xs arbitrary: buff rcs rule: rev_induct)
  case Nil
  then show ?case by (auto simp: holds_rows_def no_clash_def)
next
  case (snoc x xs)
  obtain b cs where b: "iterations body (replicate n iv) xs = (b, cs)" by (cases "iterations body (replicate n iv) xs")
  have IH: "holds_rows sl val iv n b (set xs)" "set cs \<subseteq> {0} \<longleftrightarrow> semi \<or> no_clash sl (set xs)" using snoc b by auto
  have st: "body b x = (buff, last rcs)" "rcs = cs @ [last rcs]"
    using snoc.prems(4) by (auto simp: iterations_snoc b case_prod_beta Let_def)
  have s: "set rcs \<subseteq> {0} \<longleftrightarrow> set cs \<subseteq> {0} \<and> last rcs = 0" by (subst st(2)) auto
  show ?case
  proof (cases "sl x")
    case None
    then have "buff = b" "last rcs = 0" using st(1) by (simp_all add: body)
    moreover have "holds_rows sl val iv n b (insert x (set xs))" using IH(1) None by (simp add: holds_rows_def)
    ultimately show ?thesis using IH None s by (simp add: no_clash_insert)
  next
    case (Some j)
    then have j: "j < n" using snoc.prems by simp
    show ?thesis
    proof (cases "b ! j = iv")
      case True
      then have "buff = b[j := val x]" "last rcs = 0" using st(1) Some by (simp_all add: body)
      then show ?thesis using holds_rows_insert [OF IH(1) Some j True] snoc.prems(3) IH(2) Some s
        by (auto simp: no_clash_insert)
    next
      case False
      then have r: "buff = b" "last rcs = (if semi then 0 else - 1)" using st(1) Some by (simp_all add: body)
      obtain y where y: "y \<in> set xs" "sl y = Some j" using IH(1) j False unfolding holds_rows_def by metis
      then have "\<not> no_clash sl (insert x (set xs))" using Some snoc.prems(1) unfolding no_clash_insert by auto
      moreover have "holds_rows sl val iv n b (insert x (set xs))"
        using IH(1) y Some unfolding holds_rows_def by (auto split: if_split_asm)
      ultimately show ?thesis using r s IH(2) by simp
    qed
  qed
qed

section \<open>Keys and buckets\<close>

definition row_key :: "(8 word list \<Rightarrow> nat \<Rightarrow> int) \<Rightarrow> dict_proxies \<Rightarrow> JoinColumnTypeInfo \<Rightarrow> JoinColumn \<Rightarrow> nat \<Rightarrow> int option" where
  "row_key dd proxies ti col i = join_key proxies ti (column_elems dd ti col ! i)"

definition in_bucket :: "(8 word list \<Rightarrow> nat \<Rightarrow> int) \<Rightarrow> dict_proxies \<Rightarrow> JoinColumnTypeInfo \<Rightarrow> JoinColumn \<Rightarrow> int \<Rightarrow> nat \<Rightarrow> int \<Rightarrow> bool" where
  "in_bucket dd proxies ti col b i key \<longleftrightarrow>
     (\<exists>k. row_key dd proxies ti col i = Some k \<and> (k - min_val ti) div b = (key - min_val ti) div b)"

text \<open>
  What a build relies on: the chunks add up to the column, row numbers fit into 32 bits, the
  keys are at most \<open>hi\<close>, and the \<open>n\<close> slots of the table reach up to the bucket of \<open>hi\<close>.
\<close>

definition build_ok :: "(8 word list \<Rightarrow> nat \<Rightarrow> int) \<Rightarrow> dict_proxies \<Rightarrow> JoinColumnTypeInfo \<Rightarrow> JoinColumn \<Rightarrow> int \<Rightarrow> int \<Rightarrow> nat \<Rightarrow> bool" where
  "build_ok dd proxies ti col b hi n \<longleftrightarrow>
     column_ok col \<and> num_elems col < 2147483648 \<and> 0 < b \<and> hi - min_val ti < 9223372036854775808 \<and>
     (hi - min_val ti) div b < int n \<and> (\<forall>i < num_elems col. \<forall>k. row_key dd proxies ti col i = Some k \<longrightarrow> k \<le> hi)"

lemma slot_eq:
  "0 < b \<Longrightarrow> hi - lo < 9223372036854775808 \<Longrightarrow> lo \<le> k \<Longrightarrow> k \<le> hi \<Longrightarrow>
   get_bucketized_hash_slot b lo k = nat ((k - lo) div b)"
  by (simp add: get_bucketized_hash_slot_def wrap_s_id sdiv_nonneg)

lemma join_key_ge: "join_key proxies ti e = Some k \<Longrightarrow> min_val ti \<le> k"
  by (auto simp: join_key_def Let_def split: if_split_asm option.split_asm prod.split_asm)

lemma build_ok_slot:
  assumes "build_ok dd proxies ti col b hi n" "min_val ti \<le> k" "k \<le> hi"
  shows "get_bucketized_hash_slot b (min_val ti) k = nat ((k - min_val ti) div b)"
    "get_bucketized_hash_slot b (min_val ti) k < n" "0 \<le> (k - min_val ti) div b"
proof -
  have a: "0 < b" "hi - min_val ti < 9223372036854775808" "(hi - min_val ti) div b < int n"
    using assms(1) by (simp_all add: build_ok_def)
  show 1: "get_bucketized_hash_slot b (min_val ti) k = nat ((k - min_val ti) div b)" using slot_eq [OF a(1,2) assms(2,3)] .
  show p: "0 \<le> (k - min_val ti) div b" using assms(2) a(1) by (simp add: pos_imp_zdiv_nonneg_iff)
  have "(k - min_val ti) div b \<le> (hi - min_val ti) div b" using assms(3) a(1) by (intro zdiv_mono1) auto
  then show "get_bucketized_hash_slot b (min_val ti) k < n" unfolding 1 using a(3) p by (simp add: nat_less_iff)
qed

abbreviation bucket_slot :: "dict_proxies \<Rightarrow> JoinColumnTypeInfo \<Rightarrow> int \<Rightarrow> nat \<times> int \<Rightarrow> nat option" where
  "bucket_slot proxies ti b \<equiv> item_slot (get_bucketized_hash_slot b (min_val ti)) proxies ti"

lemma row_key_range:
  assumes "build_ok dd proxies ti col b hi n" "i < num_elems col" "row_key dd proxies ti col i = Some k"
  shows "min_val ti \<le> k \<and> k \<le> hi"
  using assms join_key_ge [of proxies ti "column_elems dd ti col ! i" k] by (simp add: build_ok_def row_key_def)

lemma bucket_slot_row:
  assumes "build_ok dd proxies ti col b hi n" "i < num_elems col"
  shows "min_val ti \<le> key \<Longrightarrow> key \<le> hi \<Longrightarrow> bucket_slot proxies ti b (i, column_elems dd ti col ! i) = Some (get_bucketized_hash_slot b (min_val ti) key) \<longleftrightarrow>
      in_bucket dd proxies ti col b i key"
    and "bucket_slot proxies ti b (i, column_elems dd ti col ! i) = Some j \<Longrightarrow>
      j < n \<and> (\<exists>k. row_key dd proxies ti col i = Some k \<and> min_val ti \<le> k \<and> k \<le> hi \<and> j = get_bucketized_hash_slot b (min_val ti) k)"
proof -
  note k = row_key_range [OF assms]
  show "bucket_slot proxies ti b (i, column_elems dd ti col ! i) = Some (get_bucketized_hash_slot b (min_val ti) key) \<longleftrightarrow>
      in_bucket dd proxies ti col b i key" if "min_val ti \<le> key" "key \<le> hi"
    using k build_ok_slot(1,3) [OF assms(1)] that
    by (auto simp: item_slot_def row_key_def [symmetric] in_bucket_def eq_nat_nat_iff)
  show "j < n \<and> (\<exists>k. row_key dd proxies ti col i = Some k \<and> min_val ti \<le> k \<and> k \<le> hi \<and> j = get_bucketized_hash_slot b (min_val ti) k)"
    if "bucket_slot proxies ti b (i, column_elems dd ti col ! i) = Some j"
    using that k build_ok_slot(2) [OF assms(1)] by (auto simp: item_slot_def row_key_def [symmetric])
qed

lemma set_rows: "column_ok col \<Longrightarrow> set (enumerate 0 (column_elems dd ti col)) = (\<lambda>i. (i, column_elems dd ti col ! i)) ` {..<num_elems col}"
  by (auto simp: in_set_enumerate_eq length_column_elems image_iff)

text \<open>Two rows whose keys are in the same bucket.\<close>

definition bucket_clash :: "(8 word list \<Rightarrow> nat \<Rightarrow> int) \<Rightarrow> dict_proxies \<Rightarrow> JoinColumnTypeInfo \<Rightarrow> JoinColumn \<Rightarrow> int \<Rightarrow> bool" where
  "bucket_clash dd proxies ti col b \<longleftrightarrow>
     (\<exists>i < num_elems col. \<exists>j < num_elems col. i \<noteq> j \<and>
       (\<exists>k. row_key dd proxies ti col i = Some k \<and> in_bucket dd proxies ti col b j k))"

lemma clash_iff:
  assumes "build_ok dd proxies ti col b hi n"
  shows "no_clash (bucket_slot proxies ti b) (set (enumerate 0 (column_elems dd ti col))) \<longleftrightarrow> \<not> bucket_clash dd proxies ti col b"
proof -
  let ?x = "\<lambda>i. (i, column_elems dd ti col ! i)"
  have c: "column_ok col" using assms by (simp add: build_ok_def)
  have e: "(\<exists>s. bucket_slot proxies ti b (?x i) = Some s \<and> bucket_slot proxies ti b (?x j) = Some s) \<longleftrightarrow>
      (\<exists>k. row_key dd proxies ti col i = Some k \<and> in_bucket dd proxies ti col b j k)" (is "?L \<longleftrightarrow> ?R")
    if ij: "i < num_elems col" "j < num_elems col" for i j
  proof
    assume ?L
    then obtain s where s: "bucket_slot proxies ti b (?x i) = Some s" "bucket_slot proxies ti b (?x j) = Some s" by auto
    obtain k where "row_key dd proxies ti col i = Some k" "min_val ti \<le> k" "k \<le> hi" "s = get_bucketized_hash_slot b (min_val ti) k"
      using bucket_slot_row(2) [OF assms ij(1) s(1)] by auto
    then show ?R using bucket_slot_row(1) [OF assms ij(2)] s(2) by auto
  next
    assume ?R
    then obtain k where k: "row_key dd proxies ti col i = Some k" "in_bucket dd proxies ti col b j k" by auto
    have s: "bucket_slot proxies ti b (?x i) = Some (get_bucketized_hash_slot b (min_val ti) k)" using k(1) by (simp add: item_slot_def row_key_def)
    have r: "min_val ti \<le> k" "k \<le> hi" using row_key_range [OF assms ij(1) k(1)] by auto
    show ?L using s bucket_slot_row(1) [OF assms ij(2) r] k(2) by auto
  qed
  have "no_clash (bucket_slot proxies ti b) (?x ` {..<num_elems col}) \<longleftrightarrow> (\<forall>i < num_elems col. \<forall>j < num_elems col. i = j \<or>
      \<not> (\<exists>s. bucket_slot proxies ti b (?x i) = Some s \<and> bucket_slot proxies ti b (?x j) = Some s))"
    unfolding no_clash_def by (simp add: Ball_def) blast
  also have "\<dots> \<longleftrightarrow> \<not> bucket_clash dd proxies ti col b" unfolding bucket_clash_def using e by simp
  finally show ?thesis unfolding set_rows [OF c] .
qed

section \<open>Building one-to-one tables\<close>

text \<open>A table that answers every lookup with the row of the key's bucket, or -1.\<close>

definition one_to_one_answers ::
  "(8 word list \<Rightarrow> nat \<Rightarrow> int) \<Rightarrow> dict_proxies \<Rightarrow> JoinColumnTypeInfo \<Rightarrow> JoinColumn \<Rightarrow> int \<Rightarrow> int \<Rightarrow> int list \<Rightarrow> bool" where
  "one_to_one_answers dd proxies ti col b hi buff \<longleftrightarrow>
     (\<forall>key. let r = bucketized_hash_join_idx buff key (min_val ti) hi b
       in if min_val ti \<le> key \<and> key \<le> hi \<and> (\<exists>i < num_elems col. in_bucket dd proxies ti col b i key)
          then \<exists>i < num_elems col. in_bucket dd proxies ti col b i key \<and> r = int i else r = - 1)"

lemma holds_rows_answers:
  assumes ok: "build_ok dd proxies ti col b hi n"
    and h: "holds_rows (bucket_slot proxies ti b) (\<lambda>x. int (fst x)) (- 1) n buff (set (enumerate 0 (column_elems dd ti col)))"
  shows "one_to_one_answers dd proxies ti col b hi buff"
  unfolding one_to_one_answers_def Let_def
proof (intro allI)
  fix key
  have c: "column_ok col" using ok by (simp add: build_ok_def)
  let ?x = "\<lambda>i. (i, column_elems dd ti col ! i)"
  show "if min_val ti \<le> key \<and> key \<le> hi \<and> (\<exists>i < num_elems col. in_bucket dd proxies ti col b i key)
    then \<exists>i < num_elems col. in_bucket dd proxies ti col b i key \<and> bucketized_hash_join_idx buff key (min_val ti) hi b = int i
    else bucketized_hash_join_idx buff key (min_val ti) hi b = - 1"
  proof (cases "min_val ti \<le> key \<and> key \<le> hi")
    case True
    define s where "s = get_bucketized_hash_slot b (min_val ti) key"
    have s: "s < n" using True build_ok_slot(2) [OF ok] by (simp add: s_def)
    have r: "bucketized_hash_join_idx buff key (min_val ti) hi b = buff ! s" using True by (simp add: bucketized_hash_join_idx_def s_def)
    have i: "bucket_slot proxies ti b (?x i) = Some s \<longleftrightarrow> in_bucket dd proxies ti col b i key" if "i < num_elems col" for i
      using bucket_slot_row(1) [OF ok that] True by (simp add: s_def)
    have "if \<exists>i < num_elems col. bucket_slot proxies ti b (?x i) = Some s
      then \<exists>i < num_elems col. bucket_slot proxies ti b (?x i) = Some s \<and> buff ! s = int i else buff ! s = - 1"
      using h s unfolding holds_rows_def set_rows [OF c] by (auto split: if_split_asm)
    then show ?thesis using True i unfolding r by (auto split: if_split_asm)
  qed (auto simp: bucketized_hash_join_idx_def)
qed

lemma distinct_enumerate_mset: "mset xs \<subseteq># mset (enumerate n ys) \<Longrightarrow> distinct xs"
  using distinct_enumerate [of n ys] by (metis distinct_append mset_append mset_eq_imp_distinct_iff mset_subset_eq_exists_conv ex_mset)

lemma one_to_one_parallel:
  assumes ok: "build_ok dd proxies ti col b hi n" "0 < threads"
    and p: "fill_threads dd (- 1) semi col ti proxies threads b (replicate n (- 1)) buff rcs"
  shows "(\<exists>rc \<in> set rcs. rc \<noteq> 0) \<longleftrightarrow> \<not> semi \<and> bucket_clash dd proxies ti col b"
    "\<forall>rc \<in> set rcs. rc = 0 \<Longrightarrow> one_to_one_answers dd proxies ti col b hi buff"
proof -
  define rows where "rows = enumerate 0 (column_elems dd ti col)"
  define body where "body = fill_iteration (get_bucketized_hash_slot b (min_val ti)) (fill_func semi) (- 1) proxies ti"
  have c: "column_ok col" "num_elems col < 2147483648" using ok by (simp_all add: build_ok_def)
  obtain xs cs where x: "iterations body (replicate n (- 1)) xs = (buff, cs)" "mset xs \<subseteq># mset rows"
    "set rcs - {0} = set cs - {0}" "set cs \<subseteq> {0} \<Longrightarrow> mset xs = mset rows"
    using parallel_iterations [OF p [unfolded fill_threads_def thread_items_def]] slices_mset [OF c(1) ok(2), of dd ti]
    unfolding body_def rows_def by metis
  have sub: "set xs \<subseteq> set rows" using x(2) by (metis set_mset_mono set_mset_mset)
  have small: "int (fst x) < 2147483648" if "x \<in> set xs" for x
    using that sub c by (auto simp: rows_def set_rows)
  have it: "holds_rows (bucket_slot proxies ti b) (\<lambda>x. s32 (int (fst x))) (- 1) n buff (set xs) \<and>
      (set cs \<subseteq> {0} \<longleftrightarrow> semi \<or> no_clash (bucket_slot proxies ti b) (set xs))"
  proof (rule one_to_one_iterations [OF _ _ _ _ x(1)])
    show "distinct xs" using x(2) unfolding rows_def by (rule distinct_enumerate_mset)
    show "\<forall>x \<in> set xs. \<forall>j. bucket_slot proxies ti b x = Some j \<longrightarrow> j < n"
      using sub bucket_slot_row(2) [OF ok(1)] c(1) by (auto simp: rows_def set_rows)
    show "\<forall>x \<in> set xs. s32 (int (fst x)) \<noteq> - 1" using small by (simp add: wrap_s_id)
    show "body bf x = (case bucket_slot proxies ti b x of None \<Rightarrow> (bf, 0)
        | Some j \<Rightarrow> if bf ! j = - 1 then (bf[j := s32 (int (fst x))], 0) else (bf, if semi then 0 else - 1))" for bf x
      unfolding body_def by (rule fill_iteration_eq)
  qed
  have rc: "(\<forall>rc \<in> set rcs. rc = 0) \<longleftrightarrow> set cs \<subseteq> {0}" using x(3) by auto
  have nc: "no_clash (bucket_slot proxies ti b) (set rows) \<longleftrightarrow> \<not> bucket_clash dd proxies ti col b"
    unfolding rows_def by (rule clash_iff [OF ok(1)])
  have all: "set xs = set rows" if "set cs \<subseteq> {0}" using x(4) [OF that] by (metis set_mset_mset)
  have "set cs \<subseteq> {0} \<longleftrightarrow> semi \<or> no_clash (bucket_slot proxies ti b) (set rows)"
    using it all no_clash_subset [OF _ sub] by metis
  then show "(\<exists>rc \<in> set rcs. rc \<noteq> 0) \<longleftrightarrow> \<not> semi \<and> bucket_clash dd proxies ti col b" using rc nc by auto
  show "one_to_one_answers dd proxies ti col b hi buff" if "\<forall>rc \<in> set rcs. rc = 0"
  proof (rule holds_rows_answers [OF ok(1)])
    have "set xs = set rows" using that rc all by simp
    then show "holds_rows (bucket_slot proxies ti b) (\<lambda>x. int (fst x)) (- 1) n buff (set (enumerate 0 (column_elems dd ti col)))"
      using it small unfolding rows_def by (auto simp: wrap_s_id cong: holds_rows_cong)
  qed
qed

text \<open>
  C5: any number of threads, in any interleaving, builds a correct one-to-one table: a build
  runs to its end, a thread returns an error exactly when two rows have keys of the same
  bucket, and otherwise every lookup returns the row of the key's bucket, -1 when there is none
  or the key is out of range.
\<close>

theorem one_to_one_build:
  assumes "build_ok dd proxies ti col b hi n" "0 < threads"
  shows "(\<exists>buff rcs. fill_threads dd (- 1) False col ti proxies threads b (replicate n (- 1)) buff rcs) \<and>
    (\<forall>buff rcs. fill_threads dd (- 1) False col ti proxies threads b (replicate n (- 1)) buff rcs \<longrightarrow>
      ((\<exists>rc \<in> set rcs. rc \<noteq> 0) \<longleftrightarrow> bucket_clash dd proxies ti col b) \<and>
      ((\<forall>rc \<in> set rcs. rc = 0) \<longrightarrow> one_to_one_answers dd proxies ti col b hi buff))"
  using one_to_one_parallel [OF assms, where semi = False] parallel_completes unfolding fill_threads_def by metis

definition sample_column :: JoinColumn where
  "sample_column = \<lparr>col_chunks_buff = [\<lparr>col_buff = Some [7, 8, 255], chunk_num_elems = 3\<rparr>,
     \<lparr>col_buff = Some [5, 128], chunk_num_elems = 2\<rparr>], num_chunks = 2, num_elems = 5, elem_sz = 1\<rparr>"

definition sample_info :: JoinColumnTypeInfo where
  "sample_info = \<lparr>ti_elem_sz = 1, min_val = -1, max_val = 8, null_val = -128, uses_bw_eq = False, translated_null_val = 9,
     column_type = Signed\<rparr>"

lemma sample_elems: "column_elems (\<lambda>_ _. 0) sample_info sample_column = [7, 8, -1, 5, -128]"
  unfolding sample_column_def sample_info_def by code_simp

lemma less_5: "(i :: nat) < 5 \<longleftrightarrow> i = 0 \<or> i = 1 \<or> i = 2 \<or> i = 3 \<or> i = 4"
  by auto

lemma sample_row_key:
  assumes "i < 5"
  shows "row_key (\<lambda>_ _. 0) None sample_info sample_column i = Some k \<longleftrightarrow> (i, k) \<in> {(0, 7), (1, 8), (2, - 1), (3, 5)}"
  using assms unfolding row_key_def sample_elems less_5 by (auto simp: join_key_def sample_info_def)

lemma sample_simps: "num_elems sample_column = 5" "min_val sample_info = - 1" "column_ok sample_column"
  by (simp_all add: sample_column_def sample_info_def column_ok_def)

lemma sample_in_bucket:
  "i < 5 \<Longrightarrow> in_bucket (\<lambda>_ _. 0) None sample_info sample_column 1 i key \<longleftrightarrow> (i, key) \<in> {(0, 7), (1, 8), (2, - 1), (3, 5)}"
  using sample_row_key [of i key] by (simp add: in_bucket_def sample_simps)

lemma sample_build_ok: "build_ok (\<lambda>_ _. 0) None sample_info sample_column 1 8 10"
  unfolding build_ok_def sample_simps using sample_row_key by (auto simp: sample_simps)

theorem one_to_one_build_witness:
  "\<exists>buff rcs. fill_threads (\<lambda>_ _. 0) (- 1) False sample_column sample_info None 2 1 (replicate 10 (- 1)) buff rcs \<and>
     bucketized_hash_join_idx buff 5 (- 1) 8 1 = 3 \<and> bucketized_hash_join_idx buff 6 (- 1) 8 1 = - 1"
proof -
  let ?f = "fill_threads (\<lambda>_ _. 0) (- 1) False sample_column sample_info None 2 1 (replicate 10 (- 1))"
  have t: "(\<exists>buff rcs. ?f buff rcs) \<and> (\<forall>buff rcs. ?f buff rcs \<longrightarrow>
      ((\<exists>rc \<in> set rcs. rc \<noteq> 0) \<longleftrightarrow> bucket_clash (\<lambda>_ _. 0) None sample_info sample_column 1) \<and>
      ((\<forall>rc \<in> set rcs. rc = 0) \<longrightarrow> one_to_one_answers (\<lambda>_ _. 0) None sample_info sample_column 1 8 buff))"
    by (rule one_to_one_build [OF sample_build_ok]) simp
  then obtain buff rcs where f: "?f buff rcs" by (elim conjE exE)
  have "\<not> bucket_clash (\<lambda>_ _. 0) None sample_info sample_column 1"
    unfolding bucket_clash_def sample_simps using sample_row_key sample_in_bucket by auto
  then have "one_to_one_answers (\<lambda>_ _. 0) None sample_info sample_column 1 8 buff" using t f by blast
  note a = this [unfolded one_to_one_answers_def Let_def sample_simps, rule_format]
  have b5: "in_bucket (\<lambda>_ _. 0) None sample_info sample_column 1 i 5 \<longleftrightarrow> i = 3" if "i < 5" for i using sample_in_bucket [OF that] by simp
  have b6: "\<not> in_bucket (\<lambda>_ _. 0) None sample_info sample_column 1 i 6" if "i < 5" for i using sample_in_bucket [OF that] by simp
  have "\<exists>i < 5. in_bucket (\<lambda>_ _. 0) None sample_info sample_column 1 i 5" using b5 [of 3] by (intro exI [of _ 3]) simp
  then obtain i where "i < 5" "in_bucket (\<lambda>_ _. 0) None sample_info sample_column 1 i 5" "bucketized_hash_join_idx buff 5 (- 1) 8 1 = int i"
    using a [of 5] by auto
  then have 5: "bucketized_hash_join_idx buff 5 (- 1) 8 1 = 3" using b5 by auto
  have "bucketized_hash_join_idx buff 6 (- 1) 8 1 = - 1" using a [of 6] b6 by auto
  with f 5 show ?thesis by (intro exI conjI)
qed

section \<open>The builder\<close>

lemma foldl_store_length [simp]: "length (foldl (\<lambda>b pos. b[pos := v]) b ps) = length b"
  by (induction ps arbitrary: b) simp_all

lemma foldl_store_nth: "i < length b \<Longrightarrow> foldl (\<lambda>b pos. b[pos := v]) b ps ! i = (if i \<in> set ps then v else b ! i)"
  by (induction ps arbitrary: b) auto

lemma init_cpu_length [simp]: "length (init_hash_join_buff_cpu b v s e) = length b"
  by (simp add: init_hash_join_buff_cpu_def)

lemma init_cpu_nth: "i < length b \<Longrightarrow> init_hash_join_buff_cpu b v s e ! i = (if s \<le> i \<and> i < e then v else b ! i)"
  by (simp add: init_hash_join_buff_cpu_def foldl_store_nth)

text \<open>The vectorised initialisation stores to the same positions, wherever the buffer is.\<close>

lemma foldl_blocks:
  "length (foldl (\<lambda>b k. init_hash_join_buff_cpu b v (p + 16 * k) (p + 16 * k + 16)) b [0..<m]) = length b"
  "i < length b \<Longrightarrow> foldl (\<lambda>b k. init_hash_join_buff_cpu b v (p + 16 * k) (p + 16 * k + 16)) b [0..<m] ! i =
     (if p \<le> i \<and> i < p + 16 * m then v else b ! i)"
proof (induction m)
  case (Suc m)
  { case 1 then show ?case using Suc by simp }
  { case 2 then show ?case using Suc by (simp add: init_cpu_nth) }
qed simp_all

lemma init_avx512_eq: "init_hash_join_buff_avx512 address b v s e = init_hash_join_buff_cpu b v s e"
proof -
  define a where "a = min (s + nat ((64 - (int address + 4 * int s)) mod 64) div 4) e"
  define p where "p = max s a"
  have "p + (e - p) div 16 * 16 \<le> max p e" using div_times_less_eq_dividend [of "e - p" 16] by linarith
  moreover have "16 * ((p + (e - p) div 16 * 16 - p) div 16) = (e - p) div 16 * 16" by simp
  moreover have "a \<le> e" by (simp add: a_def)
  ultimately show ?thesis
    unfolding init_hash_join_buff_avx512_def Let_def a_def [symmetric] p_def [symmetric]
    by (intro nth_equalityI) (auto simp: init_cpu_nth foldl_blocks p_def)
qed

lemma init_hash_join_buff_all:
  assumes "length mem = n" "n < 2147483648"
  shows "init_hash_join_buff mem n v 0 1 = replicate n v"
  using assms by (intro nth_equalityI) (simp_all add: init_hash_join_buff_def Let_def init_cpu_nth wrap_s_id)

lemma join_type_info_min: "join_type_info sti lo hi bw = Inr ti \<Longrightarrow> min_val ti = lo"
  by (auto simp: join_type_info_def split: sum.split_asm)

text \<open>
  C16: the builder of one-to-one tables always returns.  It throws the exception on which a
  one-to-many table is built exactly when two rows have keys of the same bucket and the join is
  neither a \<open>SEMI\<close> nor an \<open>ANTI\<close> join; it never fails in any other way.  A table that it returns answers
  every lookup with a row of the bucket of the key, -1 if there is none: the only such row, or, for
  \<open>SEMI\<close> and \<open>ANTI\<close> joins, which only ask if there is one, any of them.
\<close>

theorem one_to_one_builder:
  assumes "getNormalizedHashEntryCount info = Inr n" "join_type_info sti lo hi bw = Inr ti"
    "build_ok dd proxies ti col (bucket_normalization info) upper n" "length mem = n" "n < 2147483648"
  shows "\<exists>r. initOneToOneHashTableOnCpu dd col lo hi bw sti proxies join_type info (- 1) mem = Some r \<and>
    (r = Inl CiderOneToMoreHashException \<longleftrightarrow>
      join_type \<notin> {SEMI, ANTI} \<and> bucket_clash dd proxies ti col (bucket_normalization info)) \<and>
    (r \<noteq> Inl CiderOneToMoreHashException \<longrightarrow>
      (\<exists>buff. r = Inr buff \<and> one_to_one_answers dd proxies ti col (bucket_normalization info) upper buff))"
proof -
  let ?b = "bucket_normalization info" let ?semi = "for_semi_anti_join join_type"
  obtain buff rcs where f: "fill_threads dd (- 1) ?semi col ti proxies 1 ?b (replicate n (- 1)) buff rcs"
    using parallel_completes unfolding fill_threads_def by metis
  define items where "items = the (slice dd col ti 0 1)"
  have "column_ok col" using assms(3) by (simp add: build_ok_def)
  then have s: "slice dd col ti 0 1 = Some items" using slice_items [of col 0 1 dd ti] by (simp add: items_def)
  have l: "loop (fill_iteration (get_bucketized_hash_slot ?b (min_val ti)) (fill_func ?semi) (- 1) proxies ti) (replicate n (- 1)) items = (buff, hd rcs)"
    using f parallel_single unfolding fill_threads_def thread_items_def by (simp add: items_def)
  have "length rcs = 1" using parallel_length [OF f [unfolded fill_threads_def]] by (simp add: thread_items_def)
  then obtain rc where rc: "rcs = [rc]" by (cases rcs) auto
  have "initOneToOneHashTableOnCpu dd col lo hi bw sti proxies join_type info (- 1) mem =
      Some (if rc \<noteq> 0 then Inl CiderOneToMoreHashException else Inr buff)"
    using assms(1,2) l s by (simp add: initOneToOneHashTableOnCpu_def init_hash_join_buff_all [OF assms(4,5), unfolded One_nat_def] Let_def
      fill_hash_join_buff_bucketized_def fill_hash_join_buff_impl_def rc)
  moreover have "?semi \<longleftrightarrow> join_type \<in> {SEMI, ANTI}" by (auto simp: for_semi_anti_join_def)
  ultimately show ?thesis using one_to_one_parallel [OF assms(3) zero_less_one f] rc by auto
qed

theorem one_to_one_builder_witness:
  "\<exists>buff. initOneToOneHashTableOnCpu (\<lambda>_ _. 0) sample_column (- 1) 8 False (SQLTypeInfo_plain kTINYINT) None INNER
     \<lparr>hash_entry_count = 10, bucket_normalization = 1\<rparr> (- 1) (replicate 10 0) = Some (Inr buff)"
proof -
  have 1: "getNormalizedHashEntryCount \<lparr>hash_entry_count = 10, bucket_normalization = 1\<rparr> = Inr 10" by code_simp
  have 2: "join_type_info (SQLTypeInfo_plain kTINYINT) (- 1) 8 False = Inr sample_info" unfolding sample_info_def by code_simp
  have 4: "build_ok (\<lambda>_ _. 0) None sample_info sample_column (bucket_normalization \<lparr>hash_entry_count = 10, bucket_normalization = 1\<rparr>) 8 10"
    using sample_build_ok by simp
  have "\<not> bucket_clash (\<lambda>_ _. 0) None sample_info sample_column 1"
    unfolding bucket_clash_def sample_simps using sample_row_key sample_in_bucket by auto
  then show ?thesis using one_to_one_builder [OF 1 2 4, of "replicate 10 0" INNER] by auto
qed

end
