(* ===== verification/Join_Many.thy ===== *)
theory Join_Many
  imports Join_Correct
begin

text \<open>
  Correctness of one-to-many join tables.  The build counts the rows of every slot, turns the
  counts into positions by a prefix sum, and enters the row numbers; both parallel phases may
  interleave in any way.  A finished table has, for every key, the number of its rows and,
  from its position on, their numbers in some order.
\<close>

section \<open>Counting\<close>

definition cnt :: "('i \<Rightarrow> nat option) \<Rightarrow> 'i list \<Rightarrow> nat \<Rightarrow> nat" where
  "cnt sl xs j = length (filter (\<lambda>x. sl x = Some j) xs)"

lemma cnt_simps [simp]: "cnt sl [] j = 0" "cnt sl (xs @ [x]) j = cnt sl xs j + (if sl x = Some j then 1 else 0)"
  by (simp_all add: cnt_def)

lemma cnt_le: "cnt sl xs j \<le> length xs"
  by (simp add: cnt_def)

lemma cnt_mset: "mset xs = mset ys \<Longrightarrow> cnt sl xs j = cnt sl ys j"
  unfolding cnt_def by (metis mset_filter size_mset)

lemma cnt_mset_le: "mset xs \<subseteq># mset ys \<Longrightarrow> cnt sl xs j \<le> cnt sl ys j"
  unfolding cnt_def by (metis mset_filter size_mset size_mset_mono multiset_filter_mono)

lemma count_matches_iteration_eq:
  "count_matches_iteration slot proxies ti counts x =
    (case item_slot slot proxies ti x of None \<Rightarrow> (counts, 0) | Some j \<Rightarrow> (counts[j := s32 (counts ! j + 1)], 0))"
  by (simp add: count_matches_iteration_def item_slot_def split: option.split)

lemma count_iterations:
  assumes "\<forall>x \<in> set xs. \<forall>j. sl x = Some j \<longrightarrow> j < n" "length xs < 2147483648"
    and body: "\<And>counts x. body counts x = (case sl x of None \<Rightarrow> (counts, 0) | Some j \<Rightarrow> (counts[j := s32 (counts ! j + 1)], 0))"
    and it: "iterations body (replicate n 0) xs = (counts, rcs)"
  shows "counts = map (\<lambda>j. int (cnt sl xs j)) [0..<n] \<and> set rcs \<subseteq> {0}"
  using assms(1,2) it
proof (induction xs arbitrary: counts rcs rule: rev_induct)
  case Nil
  then show ?case by (auto simp: map_replicate_const)
next
  case (snoc x xs)
  obtain b cs where b: "iterations body (replicate n 0) xs = (b, cs)" by (cases "iterations body (replicate n 0) xs")
  have IH: "b = map (\<lambda>j. int (cnt sl xs j)) [0..<n]" "set cs \<subseteq> {0}" using snoc b by auto
  have st: "body b x = (counts, last rcs)" "rcs = cs @ [last rcs]"
    using snoc.prems(3) by (auto simp: iterations_snoc b case_prod_beta Let_def)
  have s: "set rcs \<subseteq> {0} \<longleftrightarrow> last rcs = 0" using IH(2) by (subst st(2)) auto
  have small: "s32 (int (cnt sl xs j) + 1) = int (cnt sl xs j) + 1" for j
    using cnt_le [of sl xs j] snoc.prems(2) by (intro wrap_s_id) simp_all
  show ?case
  proof (cases "sl x")
    case None
    then show ?thesis using st(1) s IH(1) by (simp add: body)
  next
    case (Some j)
    then have j: "j < n" using snoc.prems by simp
    then have "last rcs = 0" "counts = b[j := int (cnt sl xs j) + 1]"
      using st(1) Some small by (simp_all add: body IH(1))
    moreover have "b[j := int (cnt sl xs j) + 1] = map (\<lambda>i. int (cnt sl (xs @ [x]) i)) [0..<n]"
      using Some by (intro nth_equalityI) (auto simp: IH(1) nth_list_update)
    ultimately show ?thesis using s by simp
  qed
qed

section \<open>Positions\<close>

definition offs :: "(nat \<Rightarrow> nat) \<Rightarrow> nat \<Rightarrow> nat" where
  "offs tot j = (\<Sum>k < j. tot k)"

lemma offs_Suc [simp]: "offs tot (Suc j) = offs tot j + tot j"
  by (simp add: offs_def)

lemma offs_mono: "i \<le> j \<Longrightarrow> offs tot i \<le> offs tot j"
  unfolding offs_def by (intro sum_mono2) auto

lemma offs_cnt: "offs (cnt sl xs) n \<le> length xs"
proof (induction xs rule: rev_induct)
  case Nil
  then show ?case by (simp add: offs_def)
next
  case (snoc x xs)
  have "offs (cnt sl (xs @ [x])) n = offs (cnt sl xs) n + (\<Sum>k < n. if sl x = Some k then 1 else 0)"
    by (simp add: offs_def sum.distrib)
  moreover have "(\<Sum>k < n. if sl x = Some k then 1 else 0) \<le> (1 :: nat)"
  proof (cases "sl x")
    case (Some j)
    then have "(\<Sum>k < n. if sl x = Some k then 1 else 0) = (\<Sum>k < n. if k = j then 1 else (0 :: nat))" by (intro sum.cong) auto
    then show ?thesis by simp
  qed simp
  ultimately show ?case using snoc by (simp del: cnt_simps(2))
qed

lemma sum_list_take_counts: "i \<le> n \<Longrightarrow> sum_list (take i (map (\<lambda>j. int (tot j)) [0..<n])) = int (offs tot i)"
  by (simp add: take_map offs_def interv_sum_list_conv_sum_set_nat atLeast0LessThan)

lemma scan_counts:
  assumes "i < n" "offs tot n < 2147483648"
  shows "inclusive_scan (0 # take (n - 1) (map (\<lambda>j. int (tot j)) [0..<n])) threads ! i = int (offs tot i)"
proof -
  have "sum_list (take (Suc i) (0 # take (n - 1) (map (\<lambda>j. int (tot j)) [0..<n]))) = int (offs tot i)"
    using assms(1) sum_list_take_counts [of i n tot] by (simp add: min_absorb1 Suc_leI le_diff_conv2)
  moreover have "offs tot i < 2147483648" using assms offs_mono [of i n tot] by simp
  ultimately show ?thesis unfolding inclusive_scan_eq using assms(1)
    by (subst scan_from_nth) (simp_all only: wrap_s_id add_0, simp_all)
qed

lemma fold_store_length:
  "length (fold (\<lambda>i pos. if c i then pos[i := f i] else pos) is pos) = length pos"
  by (induction "is" arbitrary: pos) simp_all

lemma fold_store_nth:
  "j < length pos \<Longrightarrow> fold (\<lambda>i pos. if c i then pos[i := f i] else pos) is pos ! j = (if j \<in> set is \<and> c j then f j else pos ! j)"
proof (induction "is" arbitrary: pos)
  case (Cons i "is")
  then show ?case by (cases "i = j") auto
qed simp

lemma fold_concat: "fold (\<lambda>t. fold g (h t)) ts s = fold g (concat (map h ts)) s"
  by (induction ts arbitrary: s) simp_all

lemma write_positions_nth:
  assumes "0 < threads" "length pos = n"
  shows "length (write_positions n threads counts cc pos) = n"
    "j < n \<Longrightarrow> write_positions n threads counts cc pos ! j = (if counts ! j \<noteq> 0 then cc ! j else pos ! j)"
proof -
  show "length (write_positions n threads counts cc pos) = n"
    using assms(2) unfolding write_positions_def fold_concat fold_store_length .
  assume j: "j < n"
  have "j \<in> set (strided (j mod threads) threads n)" using j by (simp add: strided_def)
  then have "j \<in> set (concat (map (\<lambda>t. strided t threads n) [0..<threads]))"
    using assms(1) by (auto intro: bexI [of _ "j mod threads"])
  then show "write_positions n threads counts cc pos ! j = (if counts ! j \<noteq> 0 then cc ! j else pos ! j)"
    unfolding write_positions_def fold_concat using j assms(2) by (simp add: fold_store_nth del: set_concat)
qed

section \<open>Row numbers\<close>

lemma fill_row_ids_iteration_eq:
  "fill_row_ids_iteration slot iv proxies ti b x =
    (case item_slot slot proxies ti x of
       None \<Rightarrow> (b, 0)
     | Some j \<Rightarrow> if pos_buff b ! j = iv then (b, 1)
         else (b\<lparr>count_buff := (count_buff b)[j := s32 (count_buff b ! j + 1)],
               id_buff := (id_buff b)[nat (s32 (count_buff b ! j + pos_buff b ! j)) := s32 (int (fst x))]\<rparr>, 0))"
  by (simp add: fill_row_ids_iteration_def item_slot_def Let_def split: option.split)

lemma take_drop_update:
  "i < s \<or> s + m \<le> i \<Longrightarrow> take m (drop s (xs[i := v])) = take m (drop s xs)"
  by (auto simp: drop_update_swap)

lemma take_drop_snoc:
  assumes "s + m < length xs"
  shows "take (Suc m) (drop s (xs[s + m := v])) = take m (drop s xs) @ [v]"
proof -
  have "drop s (xs[s + m := v]) = (drop s xs)[m := v]" by (simp add: drop_update_swap)
  then show ?thesis using assms by (simp add: take_Suc_conv_app_nth)
qed

text \<open>
  After the iterations for \<open>xs\<close>: the counts are those of \<open>xs\<close>, and every slot's part of the
  list holds the numbers of its rows.
\<close>

definition rows_entered :: "('i \<Rightarrow> nat option) \<Rightarrow> ('i \<Rightarrow> int) \<Rightarrow> (nat \<Rightarrow> nat) \<Rightarrow> nat \<Rightarrow> one_to_many \<Rightarrow> one_to_many \<Rightarrow> 'i list \<Rightarrow> bool" where
  "rows_entered sl val tot n b0 b xs \<longleftrightarrow> pos_buff b = pos_buff b0 \<and> count_buff b = map (\<lambda>j. int (cnt sl xs j)) [0..<n] \<and>
     length (id_buff b) = length (id_buff b0) \<and>
     (\<forall>j < n. take (cnt sl xs j) (drop (offs tot j) (id_buff b)) = map val (filter (\<lambda>x. sl x = Some j) xs))"

lemma rows_entered_snoc:
  assumes "rows_entered sl val tot n b0 b xs" "sl x = Some j" "j < n" "cnt sl xs j < tot j" "offs tot n \<le> length (id_buff b0)"
    "\<forall>i < n. cnt sl xs i \<le> tot i"
  shows "rows_entered sl val tot n b0 (b\<lparr>count_buff := (count_buff b)[j := int (cnt sl xs j) + 1],
     id_buff := (id_buff b)[offs tot j + cnt sl xs j := val x]\<rparr>) (xs @ [x])"
  unfolding rows_entered_def
proof (intro conjI allI impI)
  let ?b = "b\<lparr>count_buff := (count_buff b)[j := int (cnt sl xs j) + 1], id_buff := (id_buff b)[offs tot j + cnt sl xs j := val x]\<rparr>"
  have b: "count_buff b = map (\<lambda>j. int (cnt sl xs j)) [0..<n]" "length (id_buff b) = length (id_buff b0)"
    "\<forall>j < n. take (cnt sl xs j) (drop (offs tot j) (id_buff b)) = map val (filter (\<lambda>x. sl x = Some j) xs)"
    using assms(1) by (simp_all add: rows_entered_def)
  show "count_buff ?b = map (\<lambda>j. int (cnt sl (xs @ [x]) j)) [0..<n]"
    using assms(2) by (intro nth_equalityI) (auto simp: b(1) nth_list_update)
  fix i assume i: "i < n"
  have m: "offs tot j + cnt sl xs j < offs tot (Suc j)" "offs tot (Suc j) \<le> length (id_buff b)"
    using assms(3-5) offs_mono [of "Suc j" n tot] b(2) by auto
  show "take (cnt sl (xs @ [x]) i) (drop (offs tot i) (id_buff ?b)) = map val (filter (\<lambda>x. sl x = Some i) (xs @ [x]))"
  proof (cases "i = j")
    case True
    then show ?thesis using assms(2,3) b(3) m take_drop_snoc [of "offs tot j" "cnt sl xs j" "id_buff b" "val x"] by simp
  next
    case False
    have "offs tot j + cnt sl xs j < offs tot i \<or> offs tot i + cnt sl xs i \<le> offs tot j + cnt sl xs j"
    proof (cases "i < j")
      case True
      then show ?thesis using offs_mono [of "Suc i" j tot] assms(6) i by (auto simp: Suc_le_eq intro: order_trans trans_le_add1)
    next
      case False
      then show ?thesis using \<open>i \<noteq> j\<close> offs_mono [of "Suc j" i tot] m(1) by auto
    qed
    then show ?thesis using False i b(3) assms(2) by (simp add: take_drop_update)
  qed
qed (use assms(1) in \<open>simp_all add: rows_entered_def\<close>)

lemma rows_iterations:
  assumes "\<forall>x \<in> set xs. \<forall>j. sl x = Some j \<longrightarrow> j < n" "\<forall>j < n. cnt sl xs j \<le> tot j" "offs tot n \<le> length (id_buff b0)"
    "offs tot n < 2147483648" "iv < 0" "count_buff b0 = replicate n 0" "\<forall>j < n. 0 < tot j \<longrightarrow> pos_buff b0 ! j = int (offs tot j)"
    and body: "\<And>b x. body b x = (case sl x of None \<Rightarrow> (b, 0) | Some j \<Rightarrow> if pos_buff b ! j = iv then (b, 1)
         else (b\<lparr>count_buff := (count_buff b)[j := s32 (count_buff b ! j + 1)],
               id_buff := (id_buff b)[nat (s32 (count_buff b ! j + pos_buff b ! j)) := val x]\<rparr>, 0))"
    and it: "iterations body b0 xs = (b, rcs)"
  shows "rows_entered sl val tot n b0 b xs \<and> set rcs \<subseteq> {0}"
  using assms(1,2) it
proof (induction xs arbitrary: b rcs rule: rev_induct)
  case Nil
  then show ?case using assms(6) by (simp add: rows_entered_def map_replicate_const)
next
  case (snoc x xs)
  obtain b1 cs where b: "iterations body b0 xs = (b1, cs)" by (cases "iterations body b0 xs")
  have le: "\<forall>j < n. cnt sl xs j \<le> tot j" using snoc.prems(2) by (auto intro: order_trans [rotated])
  have IH: "rows_entered sl val tot n b0 b1 xs" "set cs \<subseteq> {0}" using snoc.IH [OF _ le b] snoc.prems(1) by auto
  have st: "body b1 x = (b, last rcs)" "rcs = cs @ [last rcs]"
    using snoc.prems(3) by (auto simp: iterations_snoc b case_prod_beta Let_def)
  have s: "set rcs \<subseteq> {0} \<longleftrightarrow> last rcs = 0" using IH(2) by (subst st(2)) auto
  show ?case
  proof (cases "sl x")
    case None
    then show ?thesis using st(1) s IH(1) by (simp add: body rows_entered_def)
  next
    case (Some j)
    then have j: "j < n" using snoc.prems by simp
    have c: "cnt sl xs j < tot j" using snoc.prems(2) j Some by force
    have m: "offs tot j + tot j \<le> offs tot n" using offs_mono [of "Suc j" n tot] j by simp
    have p: "pos_buff b1 ! j = int (offs tot j)" "count_buff b1 ! j = int (cnt sl xs j)"
      using IH(1) j assms(7) c by (simp_all add: rows_entered_def)
    have w: "s32 (int (cnt sl xs j) + 1) = int (cnt sl xs j) + 1"
      "s32 (int (cnt sl xs j) + int (offs tot j)) = int (offs tot j + cnt sl xs j)"
      using c m assms(4) by (simp_all add: wrap_s_id)
    have "b = b1\<lparr>count_buff := (count_buff b1)[j := int (cnt sl xs j) + 1], id_buff := (id_buff b1)[offs tot j + cnt sl xs j := val x]\<rparr>"
      "last rcs = 0"
      using st(1) Some assms(5) by (simp_all only: body p w option.case if_False) (auto simp: nat_add_distrib)
    then show ?thesis using rows_entered_snoc [OF IH(1) Some j c assms(3) le] s by simp
  qed
qed

section \<open>Building one-to-many tables\<close>

text \<open>
  A table that has the rows of every key: their number, and from the key's position on, in some
  order, their row numbers.
\<close>

definition one_to_many_answers ::
  "(8 word list \<Rightarrow> nat \<Rightarrow> int) \<Rightarrow> dict_proxies \<Rightarrow> JoinColumnTypeInfo \<Rightarrow> JoinColumn \<Rightarrow> int \<Rightarrow> int \<Rightarrow> one_to_many \<Rightarrow> bool" where
  "one_to_many_answers dd proxies ti col b hi t \<longleftrightarrow>
     (\<forall>key. min_val ti \<le> key \<and> key \<le> hi \<longrightarrow>
       (let j = get_bucketized_hash_slot b (min_val ti) key;
            rows = filter (\<lambda>i. in_bucket dd proxies ti col b i key) [0..<num_elems col]
        in count_buff t ! j = int (length rows) \<and>
           (if rows = [] then pos_buff t ! j = - 1
            else 0 \<le> pos_buff t ! j \<and> mset (take (length rows) (drop (nat (pos_buff t ! j)) (id_buff t))) = mset (map int rows))))"

lemma filter_rows:
  assumes "build_ok dd proxies ti col b hi n" "min_val ti \<le> key" "key \<le> hi"
  shows "map fst (filter (\<lambda>x. bucket_slot proxies ti b x = Some (get_bucketized_hash_slot b (min_val ti) key)) (enumerate 0 (column_elems dd ti col))) =
    filter (\<lambda>i. in_bucket dd proxies ti col b i key) [0..<num_elems col]"
proof -
  have l: "length (column_elems dd ti col) = num_elems col" using assms(1) by (simp add: build_ok_def length_column_elems)
  have "enumerate 0 (column_elems dd ti col) = map (\<lambda>i. (i, column_elems dd ti col ! i)) [0..<num_elems col]"
    using l by (intro nth_equalityI) (simp_all add: nth_enumerate_eq)
  then show ?thesis using bucket_slot_row(1) [OF assms(1) _ assms(2,3)] by (auto simp: filter_map o_def intro: filter_cong)
qed

lemma mset_sub: "mset xs \<subseteq># mset ys \<Longrightarrow> set xs \<subseteq> set ys \<and> length xs \<le> length ys"
  by (metis set_mset_mono set_mset_mset size_mset size_mset_mono)

lemma counts_parallel:
  assumes "parallel body items (replicate n 0) counts rcs" "mset (concat items) = mset rows"
    "\<forall>x \<in> set rows. \<forall>j. sl x = Some j \<longrightarrow> j < n" "length rows < 2147483648"
    and body: "\<And>counts x. body counts x = (case sl x of None \<Rightarrow> (counts, 0) | Some j \<Rightarrow> (counts[j := s32 (counts ! j + 1)], 0))"
  shows "counts = map (\<lambda>j. int (cnt sl rows j)) [0..<n]"
proof -
  obtain xs cs where x: "iterations body (replicate n 0) xs = (counts, cs)" "mset xs \<subseteq># mset rows"
    "set cs \<subseteq> {0} \<Longrightarrow> mset xs = mset rows"
    using parallel_iterations [OF assms(1)] unfolding assms(2) by metis
  have "counts = map (\<lambda>j. int (cnt sl xs j)) [0..<n] \<and> set cs \<subseteq> {0}"
    using mset_sub [OF x(2)] assms(3,4) by (intro count_iterations [OF _ _ body x(1)]) auto
  then show ?thesis using x(3) cnt_mset [of xs rows sl] by simp
qed

lemma rows_parallel:
  assumes "parallel body items b0 b rcs" "mset (concat items) = mset rows" "\<forall>x \<in> set rows. \<forall>j. sl x = Some j \<longrightarrow> j < n"
    "length rows \<le> length (id_buff b0)" "length rows < 2147483648" "iv < 0" "count_buff b0 = replicate n 0"
    "\<forall>j < n. 0 < cnt sl rows j \<longrightarrow> pos_buff b0 ! j = int (offs (cnt sl rows) j)"
    and body: "\<And>b x. body b x = (case sl x of None \<Rightarrow> (b, 0) | Some j \<Rightarrow> if pos_buff b ! j = iv then (b, 1)
         else (b\<lparr>count_buff := (count_buff b)[j := s32 (count_buff b ! j + 1)],
               id_buff := (id_buff b)[nat (s32 (count_buff b ! j + pos_buff b ! j)) := val x]\<rparr>, 0))"
  obtains xs where "mset xs = mset rows" "rows_entered sl val (cnt sl rows) n b0 b xs" "\<forall>rc \<in> set rcs. rc = 0"
proof -
  obtain xs cs where x: "iterations body b0 xs = (b, cs)" "mset xs \<subseteq># mset rows"
    "set rcs - {0} = set cs - {0}" "set cs \<subseteq> {0} \<Longrightarrow> mset xs = mset rows"
    using parallel_iterations [OF assms(1)] unfolding assms(2) by metis
  have "rows_entered sl val (cnt sl rows) n b0 b xs \<and> set cs \<subseteq> {0}"
    using mset_sub [OF x(2)] assms(3-8) offs_cnt [of sl rows n] cnt_mset_le [OF x(2), of sl]
    by (intro rows_iterations [OF _ _ _ _ _ _ _ body x(1)]) auto
  then show thesis using that [of xs] x by auto
qed

lemma rows_entered_answers:
  assumes ok: "build_ok dd proxies ti col b hi n" and m: "mset xs = mset (enumerate 0 (column_elems dd ti col))"
    and r: "rows_entered (bucket_slot proxies ti b) (\<lambda>x. s32 (int (fst x))) tot n t1 t xs"
    and tot: "tot = cnt (bucket_slot proxies ti b) (enumerate 0 (column_elems dd ti col))"
    and p: "\<And>j. j < n \<Longrightarrow> pos_buff t1 ! j = (if 0 < tot j then int (offs tot j) else - 1)"
  shows "one_to_many_answers dd proxies ti col b hi t"
  unfolding one_to_many_answers_def Let_def
proof (intro allI impI)
  fix key assume key: "min_val ti \<le> key \<and> key \<le> hi"
  define j where "j = get_bucketized_hash_slot b (min_val ti) key"
  define rows where "rows = filter (\<lambda>i. in_bucket dd proxies ti col b i key) [0..<num_elems col]"
  let ?ids = "map (\<lambda>x. s32 (int (fst x))) (filter (\<lambda>x. bucket_slot proxies ti b x = Some j) xs)"
  have j: "j < n" using key build_ok_slot(2) [OF ok] by (simp add: j_def)
  have f: "map fst (filter (\<lambda>x. bucket_slot proxies ti b x = Some j) (enumerate 0 (column_elems dd ti col))) = rows"
    unfolding j_def rows_def using key by (intro filter_rows [OF ok]) auto
  have l: "tot j = length rows" unfolding tot cnt_def f [symmetric] by simp
  have c: "cnt (bucket_slot proxies ti b) xs j = length rows" unfolding cnt_mset [OF m] using l tot by simp
  have "mset ?ids = image_mset (\<lambda>i. s32 (int i)) (mset (map fst (filter (\<lambda>x. bucket_slot proxies ti b x = Some j) xs)))"
    by (simp add: image_mset.compositionality o_def)
  also have "mset (map fst (filter (\<lambda>x. bucket_slot proxies ti b x = Some j) xs)) = mset rows"
    unfolding f [symmetric] mset_map mset_filter m ..
  also have "image_mset (\<lambda>i. s32 (int i)) (mset rows) = mset (map int rows)"
    using ok by (auto simp: build_ok_def rows_def wrap_s_id intro!: image_mset_cong)
  finally have ids: "mset ?ids = mset (map int rows)" .
  have pj: "pos_buff t ! j = (if 0 < length rows then int (offs tot j) else - 1)"
    using r p [OF j] l by (simp add: rows_entered_def)
  have "count_buff t ! j = int (length rows)" using r j c by (simp add: rows_entered_def)
  moreover have "take (length rows) (drop (offs tot j) (id_buff t)) = ?ids" using r j c unfolding rows_entered_def by metis
  ultimately show "count_buff t ! get_bucketized_hash_slot b (min_val ti) key = int (length (filter (\<lambda>i. in_bucket dd proxies ti col b i key) [0..<num_elems col])) \<and>
    (if filter (\<lambda>i. in_bucket dd proxies ti col b i key) [0..<num_elems col] = [] then pos_buff t ! get_bucketized_hash_slot b (min_val ti) key = - 1
     else 0 \<le> pos_buff t ! get_bucketized_hash_slot b (min_val ti) key \<and>
       mset (take (length (filter (\<lambda>i. in_bucket dd proxies ti col b i key) [0..<num_elems col]))
         (drop (nat (pos_buff t ! get_bucketized_hash_slot b (min_val ti) key)) (id_buff t))) =
       mset (map int (filter (\<lambda>i. in_bucket dd proxies ti col b i key) [0..<num_elems col])))"
    unfolding j_def [symmetric] rows_def [symmetric] using pj ids by simp
qed

lemma positions_eq:
  assumes "pos_buff t = replicate n (- 1)" "0 < threads" "offs tot n < 2147483648"
  shows "write_positions n threads (map (\<lambda>j. int (tot j)) [0..<n])
      (inclusive_scan (0 # take (n - 1) (map (\<lambda>j. int (tot j)) [0..<n])) threads) (pos_buff t) =
    map (\<lambda>j. if 0 < tot j then int (offs tot j) else - 1) [0..<n]"
proof (rule nth_equalityI)
  have l: "length (pos_buff t) = n" using assms(1) by simp
  show "length (write_positions n threads (map (\<lambda>j. int (tot j)) [0..<n])
      (inclusive_scan (0 # take (n - 1) (map (\<lambda>j. int (tot j)) [0..<n])) threads) (pos_buff t)) =
    length (map (\<lambda>j. if 0 < tot j then int (offs tot j) else - 1) [0..<n])"
    by (simp add: write_positions_nth(1) [OF assms(2) l])
  fix j assume "j < length (write_positions n threads (map (\<lambda>j. int (tot j)) [0..<n])
      (inclusive_scan (0 # take (n - 1) (map (\<lambda>j. int (tot j)) [0..<n])) threads) (pos_buff t))"
  then have j: "j < n" by (simp add: write_positions_nth(1) [OF assms(2) l])
  then show "write_positions n threads (map (\<lambda>j. int (tot j)) [0..<n])
      (inclusive_scan (0 # take (n - 1) (map (\<lambda>j. int (tot j)) [0..<n])) threads) (pos_buff t) ! j =
    map (\<lambda>j. if 0 < tot j then int (offs tot j) else - 1) [0..<n] ! j"
    unfolding write_positions_nth(2) [OF assms(2) l j] scan_counts [OF j assms(3)] using assms(1) by simp
qed

lemma one_to_many_run:
  assumes ok: "build_ok dd proxies ti col b hi n" "0 < threads" "0 < n"
    and t: "pos_buff t = replicate n (- 1)" "num_elems col \<le> length (id_buff t)"
  defines "slot \<equiv> get_bucketized_hash_slot b (min_val ti)"
  defines "run \<equiv> fill_one_to_many_hash_table_impl n (thread_items dd col ti threads) (count_matches_iteration slot proxies ti)
    (fill_row_ids_iteration slot (- 1) proxies ti) t"
  shows "(\<exists>t'. run t') \<and> (\<forall>t'. run t' \<longrightarrow> one_to_many_answers dd proxies ti col b hi t')"
proof -
  define rows where "rows = enumerate 0 (column_elems dd ti col)"
  define sl where "sl = bucket_slot proxies ti b"
  define items where "items = thread_items dd col ti threads"
  define t1 where "t1 = t\<lparr>pos_buff := map (\<lambda>j. if 0 < cnt sl rows j then int (offs (cnt sl rows) j) else - 1) [0..<n], count_buff := replicate n 0\<rparr>"
  have c: "column_ok col" "num_elems col < 2147483648" using ok by (simp_all add: build_ok_def)
  have lr: "length rows = num_elems col" using c by (simp add: rows_def length_column_elems)
  have mi: "mset (concat items) = mset rows" unfolding items_def thread_items_def rows_def by (rule slices_mset [OF c(1) ok(2)])
  have rs: "\<forall>x \<in> set rows. \<forall>j. sl x = Some j \<longrightarrow> j < n"
    using bucket_slot_row(2) [OF ok(1)] c(1) by (auto simp: rows_def set_rows sl_def)
  have on: "offs (cnt sl rows) n < 2147483648" using offs_cnt [of sl rows n] lr c(2) by simp
  have li: "length items = threads" by (simp add: items_def thread_items_def)
  have run: "run t' \<longleftrightarrow> (\<exists>counts count_rcs rcs. parallel (count_matches_iteration slot proxies ti) items (replicate n 0) counts count_rcs \<and>
      parallel (fill_row_ids_iteration slot (- 1) proxies ti) items t1 t' rcs \<and> (\<forall>rc \<in> set rcs. rc = 0))" for t'
  proof -
    have e: "t\<lparr>pos_buff := write_positions n threads counts (inclusive_scan (0 # take (n - 1) counts) threads) (pos_buff t),
        count_buff := replicate n 0\<rparr> = t1"
      if "parallel (count_matches_iteration slot proxies ti) items (replicate n 0) counts rcs" for counts rcs
    proof -
      have "counts = map (\<lambda>j. int (cnt sl rows j)) [0..<n]"
        using lr c(2) by (intro counts_parallel [OF that mi rs]) (simp_all add: count_matches_iteration_eq sl_def slot_def)
      then show ?thesis using positions_eq [OF t(1) ok(2) on] by (simp add: t1_def)
    qed
    have ex: "(\<exists>x y z. P x y \<and> Q (F x) z) \<longleftrightarrow> (\<exists>x y z. P x y \<and> Q w z)" if "\<And>x y. P x y \<Longrightarrow> F x = w" for P Q F w using that by metis
    have "(0 < n) = True" using ok(3) by simp
    then show ?thesis
      unfolding run_def fill_one_to_many_hash_table_impl_def items_def [symmetric] Let_def li simp_thms by (simp only: simp_thms) (rule ex [OF e])
  qed
  have fill: "one_to_many_answers dd proxies ti col b hi t' \<and> (\<forall>rc \<in> set rcs. rc = 0)"
    if p: "parallel (fill_row_ids_iteration slot (- 1) proxies ti) items t1 t' rcs" for t' rcs
  proof -
    obtain xs where x: "mset xs = mset rows" "rows_entered sl (\<lambda>x. s32 (int (fst x))) (cnt sl rows) n t1 t' xs" "\<forall>rc \<in> set rcs. rc = 0"
      by (rule rows_parallel [OF p mi rs, where iv = "- 1" and val = "\<lambda>x. s32 (int (fst x))"])
        (use lr c(2) t(2) in \<open>simp_all add: fill_row_ids_iteration_eq sl_def slot_def t1_def\<close>)
    then show ?thesis using rows_entered_answers [OF ok(1), of xs "cnt sl rows" t1 t'] by (simp add: rows_def sl_def t1_def)
  qed
  obtain counts count_rcs where 1: "parallel (count_matches_iteration slot proxies ti) items (replicate n 0) counts count_rcs"
    using parallel_completes [of "count_matches_iteration slot proxies ti" items "replicate n 0"] by (elim exE)
  obtain t' rcs where 2: "parallel (fill_row_ids_iteration slot (- 1) proxies ti) items t1 t' rcs"
    using parallel_completes [of "fill_row_ids_iteration slot (- 1) proxies ti" items t1] by (elim exE)
  have "\<exists>t'. run t'" unfolding run using 1 2 fill [OF 2] by (intro exI conjI) auto
  moreover have "one_to_many_answers dd proxies ti col b hi t'" if "run t'" for t'
    using that fill unfolding run by (elim exE conjE) simp
  ultimately show ?thesis by simp
qed

text \<open>
  C1: any number of threads, in any interleaving, builds a correct one-to-many table: a build
  runs to its end without a failed check, and the finished table has for every key in range
  the number of rows in the key's bucket and, from the key's position on, exactly their row
  numbers; the position is -1 when there are none.
\<close>

theorem one_to_many_build:
  assumes "getNormalizedHashEntryCount info = Inr n" "build_ok dd proxies ti col (bucket_normalization info) hi n" "0 < threads" "0 < n"
    "pos_buff t = replicate n (- 1)" "num_elems col \<le> length (id_buff t)"
  shows "(\<exists>t'. fill_one_to_many_hash_table_bucketized dd info (- 1) col ti proxies threads t t') \<and>
    (\<forall>t'. fill_one_to_many_hash_table_bucketized dd info (- 1) col ti proxies threads t t' \<longrightarrow>
      one_to_many_answers dd proxies ti col (bucket_normalization info) hi t')"
  using one_to_many_run [OF assms(2-6)] assms(1) by (simp add: fill_one_to_many_hash_table_bucketized_def Let_def)

theorem one_to_many_build_witness:
  "\<exists>t'. fill_one_to_many_hash_table_bucketized (\<lambda>_ _. 0) \<lparr>hash_entry_count = 10, bucket_normalization = 1\<rparr> (- 1) sample_column sample_info None 3
     \<lparr>pos_buff = replicate 10 (- 1), count_buff = replicate 10 0, id_buff = replicate 5 0\<rparr> t' \<and> count_buff t' ! 6 = 1 \<and> count_buff t' ! 7 = 0"
proof -
  define info :: HashEntryInfo where "info = \<lparr>hash_entry_count = 10, bucket_normalization = 1\<rparr>"
  define t where "t = \<lparr>pos_buff = replicate 10 (- 1 :: int), count_buff = replicate 10 (0 :: int), id_buff = replicate 5 (0 :: int)\<rparr>"
  have 1: "getNormalizedHashEntryCount info = Inr 10" unfolding info_def by code_simp
  have 2: "build_ok (\<lambda>_ _. 0) None sample_info sample_column (bucket_normalization info) 8 10" using sample_build_ok by (simp add: info_def)
  have 3: "pos_buff t = replicate 10 (- 1)" "num_elems sample_column \<le> length (id_buff t)" by (simp_all add: t_def sample_simps)
  obtain t' where t': "fill_one_to_many_hash_table_bucketized (\<lambda>_ _. 0) info (- 1) sample_column sample_info None 3 t t'"
    "one_to_many_answers (\<lambda>_ _. 0) None sample_info sample_column (bucket_normalization info) 8 t'"
    using one_to_many_build [OF 1 2 _ _ 3, of 3] by auto
  have a: "count_buff t' ! get_bucketized_hash_slot 1 (- 1) key = int (length (filter (\<lambda>i. in_bucket (\<lambda>_ _. 0) None sample_info sample_column 1 i key) [0..<5]))"
    if "- 1 \<le> key" "key \<le> 8" for key
    using t'(2) that unfolding one_to_many_answers_def Let_def sample_simps by (simp add: info_def)
  have b: "filter (\<lambda>i. in_bucket (\<lambda>_ _. 0) None sample_info sample_column 1 i key) [0..<5] =
      filter (\<lambda>i. (i, key) \<in> {(0, 7), (1, 8), (2, - 1), (3, 5)}) [0..<5]" for key
    by (rule filter_cong) (simp_all add: sample_in_bucket)
  have s: "get_bucketized_hash_slot 1 (- 1) 5 = 6" "get_bucketized_hash_slot 1 (- 1) 6 = 7" by code_simp+
  have "count_buff t' ! 6 = 1" "count_buff t' ! 7 = 0" using a [of 5] a [of 6] unfolding b s by (simp_all add: upt_rec)
  then show ?thesis using t'(1) unfolding info_def t_def by (intro exI conjI)
qed

text \<open>The builder, whose buckets have more than one value only for dates.\<close>

lemma plain_bucketized:
  assumes "bucket_normalization info = 1"
  shows "fill_one_to_many_hash_table dd info iv col ti proxies threads t t' = fill_one_to_many_hash_table_bucketized dd info iv col ti proxies threads t t'"
proof -
  have "get_bucketized_hash_slot 1 lo = get_hash_slot lo" for lo by (simp add: fun_eq_iff get_bucketized_hash_slot_def get_hash_slot_def)
  moreover have "getNormalizedHashEntryCount info = Inr (hash_entry_count info)" using assms by (simp add: getNormalizedHashEntryCount_def)
  ultimately show ?thesis
    using assms by (simp add: fill_one_to_many_hash_table_def fill_one_to_many_hash_table_bucketized_def Let_def)
qed

lemma one_to_many_builder:
  assumes "getNormalizedHashEntryCount info = Inr n" "join_type_info sti lo hi bw = Inr ti" "get_type sti \<noteq> kDATE \<Longrightarrow> bucket_normalization info = 1"
    "build_ok dd proxies ti col (bucket_normalization info) upper n" "0 < n" "n < 2147483648"
    "length (pos_buff mem) = n" "num_elems col \<le> length (id_buff mem)"
  shows "(\<exists>t. initOneToManyHashTableOnCpu dd col lo hi bw sti proxies info (- 1) mem t) \<and>
    (\<forall>t. initOneToManyHashTableOnCpu dd col lo hi bw sti proxies info (- 1) mem t \<longrightarrow>
      one_to_many_answers dd proxies ti col (bucket_normalization info) upper t)"
proof -
  let ?b = "mem\<lparr>pos_buff := replicate n (- 1)\<rparr>"
  have "initOneToManyHashTableOnCpu dd col lo hi bw sti proxies info (- 1) mem t =
      fill_one_to_many_hash_table_bucketized dd info (- 1) col ti proxies 1 ?b t" for t
    using assms(1-3) plain_bucketized [of info]
    by (simp add: initOneToManyHashTableOnCpu_def init_hash_join_buff_all [OF assms(7,6), unfolded One_nat_def] Let_def)
  moreover have "fill_one_to_many_hash_table_bucketized dd info (- 1) col ti proxies 1 ?b t =
      fill_one_to_many_hash_table_impl n (thread_items dd col ti 1)
        (count_matches_iteration (get_bucketized_hash_slot (bucket_normalization info) (min_val ti)) proxies ti)
        (fill_row_ids_iteration (get_bucketized_hash_slot (bucket_normalization info) (min_val ti)) (- 1) proxies ti) ?b t" for t
    using assms(1) by (simp add: fill_one_to_many_hash_table_bucketized_def Let_def)
  ultimately show ?thesis using one_to_many_run [OF assms(4) zero_less_one assms(5), of ?b] assms(8) by simp
qed

end
