(* ===== verification/Date_Time_IR.thy ===== *)
theory Date_Time_IR
  imports Truncate_Correct Date_Add Nullable_Ops Null_Values
begin

text \<open>
  The translation of \<open>EXTRACT\<close> and \<open>DATE_TRUNC\<close>: the precision tables of
  \<open>exec/template/DateTimeUtils.h\<close>, the folding of constants of \<open>DateTimeTranslator.h\<close>, and what the
  code emitted by \<open>DateTimeIR.cpp\<close> (and, for dates, \<open>CastIR.cpp\<close>) computes from the value of the
  argument.  An emitted instruction is its effect on 64-bit values: \<open>CreateSDiv\<close> truncates,
  \<open>CreateMul\<close> wraps, a call is the runtime function of that name.
\<close>

section \<open>Operators and precisions\<close>

datatype SQLOps =
  kEQ | kBW_EQ | kNE | kLT | kGT | kLE | kGE | kAND | kOR | kNOT | kMINUS | kPLUS | kMULTIPLY | kDIVIDE
| kMODULO | kUMINUS | kISNULL | kISNOTNULL | kEXISTS | kCAST | kARRAY_AT | kUNNEST | kFUNCTION | kIN | kBW_NE
| kUNDEFINED_OP

datatype ScalingType = ScaleUp | ScaleDown

definition get_timestamp_precision_scale :: "int \<Rightarrow> int result" where
  "get_timestamp_precision_scale dimen =
     (if dimen = 0 then Inr 1 else if dimen = 3 then Inr kMilliSecsPerSec
      else if dimen = 6 then Inr kMicroSecsPerSec else if dimen = 9 then Inr kNanoSecsPerSec
      else Inl CiderCompileException)"

definition get_dateadd_timestamp_precision_scale :: "DateaddField \<Rightarrow> int result" where
  "get_dateadd_timestamp_precision_scale field =
     (case field of daMILLISECOND \<Rightarrow> Inr kMilliSecsPerSec | daMICROSECOND \<Rightarrow> Inr kMicroSecsPerSec
      | daNANOSECOND \<Rightarrow> Inr kNanoSecsPerSec | _ \<Rightarrow> Inl CiderCompileException)"

definition get_extract_timestamp_precision_scale :: "ExtractField \<Rightarrow> int result" where
  "get_extract_timestamp_precision_scale field =
     (case field of kMILLISECOND \<Rightarrow> Inr kMilliSecsPerSec | kMICROSECOND \<Rightarrow> Inr kMicroSecsPerSec
      | kNANOSECOND \<Rightarrow> Inr kNanoSecsPerSec | _ \<Rightarrow> Inl CiderCompileException)"

definition is_subsecond_extract_field :: "ExtractField \<Rightarrow> bool" where
  "is_subsecond_extract_field field \<longleftrightarrow> field = kMILLISECOND \<or> field = kMICROSECOND \<or> field = kNANOSECOND"

definition is_subsecond_dateadd_field :: "DateaddField \<Rightarrow> bool" where
  "is_subsecond_dateadd_field field \<longleftrightarrow> field = daMILLISECOND \<or> field = daMICROSECOND \<or> field = daNANOSECOND"

definition is_subsecond_datetrunc_field :: "DatetruncField \<Rightarrow> bool" where
  "is_subsecond_datetrunc_field field \<longleftrightarrow> field = dtMILLISECOND \<or> field = dtMICROSECOND \<or> field = dtNANOSECOND"

text \<open>A value-initialised pair \<open>{}\<close> is \<open>(kEQ, 0)\<close>.\<close>

definition get_dateadd_high_precision_adjusted_scale :: "DateaddField \<Rightarrow> int \<Rightarrow> (SQLOps \<times> int) result" where
  "get_dateadd_high_precision_adjusted_scale field dimen =
     (case field of
        daNANOSECOND \<Rightarrow> if dimen = 9 then Inr (kEQ, 0) else if dimen = 6 then Inr (kDIVIDE, kMilliSecsPerSec)
          else if dimen = 3 then Inr (kDIVIDE, kMicroSecsPerSec) else Inl CiderCompileException
      | daMICROSECOND \<Rightarrow> if dimen = 9 then Inr (kMULTIPLY, kMilliSecsPerSec) else if dimen = 6 then Inr (kEQ, 0)
          else if dimen = 3 then Inr (kDIVIDE, kMilliSecsPerSec) else Inl CiderCompileException
      | daMILLISECOND \<Rightarrow> if dimen = 9 then Inr (kMULTIPLY, kMicroSecsPerSec)
          else if dimen = 6 then Inr (kMULTIPLY, kMilliSecsPerSec)
          else if dimen = 3 then Inr (kEQ, 0) else Inl CiderCompileException
      | _ \<Rightarrow> Inl CiderCompileException)"

definition extract_precision_lookup :: "((int \<times> ExtractField) \<times> (SQLOps \<times> int)) list" where
  "extract_precision_lookup =
     [((3, kMICROSECOND), (kMULTIPLY, kMilliSecsPerSec)), ((3, kNANOSECOND), (kMULTIPLY, kMicroSecsPerSec)),
      ((6, kMILLISECOND), (kDIVIDE, kMilliSecsPerSec)), ((6, kNANOSECOND), (kMULTIPLY, kMilliSecsPerSec)),
      ((9, kMILLISECOND), (kDIVIDE, kMicroSecsPerSec)), ((9, kMICROSECOND), (kDIVIDE, kMilliSecsPerSec))]"

definition datetrunc_precision_lookup :: "((int \<times> DatetruncField) \<times> int) list" where
  "datetrunc_precision_lookup =
     [((6, dtMILLISECOND), kMilliSecsPerSec), ((9, dtMICROSECOND), kMilliSecsPerSec),
      ((9, dtMILLISECOND), kMicroSecsPerSec)]"

definition get_extract_high_precision_adjusted_scale :: "ExtractField \<Rightarrow> int \<Rightarrow> SQLOps \<times> int" where
  "get_extract_high_precision_adjusted_scale field dimen =
     (case map_of extract_precision_lookup (dimen, field) of Some r \<Rightarrow> r | None \<Rightarrow> (kEQ, 0))"

definition get_datetrunc_high_precision_scale :: "DatetruncField \<Rightarrow> int \<Rightarrow> int" where
  "get_datetrunc_high_precision_scale field dimen =
     (case map_of datetrunc_precision_lookup (dimen, field) of Some r \<Rightarrow> r | None \<Rightarrow> - 1)"

definition get_datetime_scaled_epoch :: "ScalingType \<Rightarrow> int \<Rightarrow> int \<Rightarrow> int result" where
  "get_datetime_scaled_epoch direction epoch dimen =
     rbind (get_timestamp_precision_scale dimen) (\<lambda>scale.
       case direction of
         ScaleUp \<Rightarrow>
           let scaled_epoch = s64 (epoch * scale)
           in if epoch \<noteq> 0 \<and> epoch \<noteq> scaled_epoch sdiv scale then Inl CiderCompileException else Inr scaled_epoch
       | ScaleDown \<Rightarrow> Inr (epoch sdiv scale))"

section \<open>Constants\<close>

definition getExtractFromTimeConstantValue :: "int \<Rightarrow> ExtractField \<Rightarrow> SQLTypeInfo \<Rightarrow> int result" where
  "getExtractFromTimeConstantValue timeval field ti =
     (if is_high_precision_timestamp ti then
        if is_subsecond_extract_field field then
          let res = get_extract_high_precision_adjusted_scale field (get_dimension ti)
          in if snd res \<noteq> 0
             then ExtractFromTime field (if fst res = kDIVIDE then floor_div timeval (snd res) else s64 (timeval * snd res))
             else ExtractFromTime field timeval
        else rbind (get_timestamp_precision_scale (get_dimension ti))
               (\<lambda>scale. ExtractFromTime field (floor_div timeval scale))
      else if is_subsecond_extract_field field
      then rbind (get_extract_timestamp_precision_scale field) (\<lambda>scale. ExtractFromTime field (s64 (timeval * scale)))
      else ExtractFromTime field timeval)"

definition getDateTruncConstantValue :: "int \<Rightarrow> DatetruncField \<Rightarrow> SQLTypeInfo \<Rightarrow> int result" where
  "getDateTruncConstantValue timeval field ti =
     (if is_high_precision_timestamp ti then
        if is_subsecond_datetrunc_field field then
          rbind (DateTruncate field timeval) (\<lambda>date_truncate.
            let res = get_datetrunc_high_precision_scale field (get_dimension ti)
            in Inr (if res \<noteq> - 1 then s64 (date_truncate - unsigned_mod date_truncate res) else date_truncate))
        else rbind (get_timestamp_precision_scale (get_dimension ti)) (\<lambda>scale.
               rbind (DateTruncate field (floor_div timeval scale)) (\<lambda>t. Inr (s64 (t * scale))))
      else DateTruncate field timeval)"

section \<open>Emitted code: casts between dates and times\<close>

text \<open>The width of a value; an untyped NULL logs and is stored like a boolean.\<close>

definition get_bit_width :: "SQLTypeInfo \<Rightarrow> bool \<Rightarrow> int result" where
  "get_bit_width ti is_arrow_format =
     (case (if is_decimal ti then kBIGINT else get_type ti) of
        kNULLT \<Rightarrow> Inr 8 | kBOOLEAN \<Rightarrow> Inr 8 | kTINYINT \<Rightarrow> Inr 8 | kSMALLINT \<Rightarrow> Inr 16 | kINT \<Rightarrow> Inr 32
      | kBIGINT \<Rightarrow> Inr 64 | kFLOAT \<Rightarrow> Inr 32 | kDOUBLE \<Rightarrow> Inr 64
      | kDATE \<Rightarrow> Inr (if is_arrow_format then 32 else 64)
      | kTIME \<Rightarrow> Inr 64 | kTIMESTAMP \<Rightarrow> Inr 64 | kINTERVAL_DAY_TIME \<Rightarrow> Inr 64 | kINTERVAL_YEAR_MONTH \<Rightarrow> Inr 64
      | kTEXT \<Rightarrow> Inr 32 | kVARCHAR \<Rightarrow> Inr 32 | kCHAR \<Rightarrow> Inr 32
      | kARRAY \<Rightarrow> if get_size ti = - 1 then Inl CiderCompileException else Inr (get_size ti * 8)
      | kCOLUMN \<Rightarrow> Inr (get_size (get_elem_type ti) * 8) | kCOLUMN_LIST \<Rightarrow> Inr (get_size (get_elem_type ti) * 8)
      | _ \<Rightarrow> Inr 0)"

definition kSecondsInOneDay :: int where "kSecondsInOneDay = 24 * 60 * 60"

definition codegenCastBetweenTimeAndDate :: "int \<Rightarrow> SQLTypeInfo \<Rightarrow> SQLTypeInfo \<Rightarrow> int result" where
  "codegenCastBetweenTimeAndDate operand operand_ti target_ti =
     rbind (get_bit_width operand_ti True) (\<lambda>operand_width.
     rbind (get_bit_width target_ti True) (\<lambda>target_width.
     rbind (get_timestamp_precision_scale \<bar>get_dimension operand_ti - get_dimension target_ti\<bar>) (\<lambda>dim_scaled.
       let cast_scaled = dim_scaled * kSecondsInOneDay
       in Inr (if target_width = operand_width then operand
               else if target_width > operand_width then wrap_s (2 ^ nat (target_width - 1)) (operand * cast_scaled)
               else wrap_s (2 ^ nat (target_width - 1)) (floor_div_lhs operand cast_scaled)))))"

definition codegenCastBetweenTimes :: "int \<Rightarrow> SQLTypeInfo \<Rightarrow> SQLTypeInfo \<Rightarrow> int result" where
  "codegenCastBetweenTimes operand operand_ti target_ti =
     (let operand_dimen = get_dimension operand_ti; target_dimen = get_dimension target_ti
      in rbind (get_timestamp_precision_scale \<bar>operand_dimen - target_dimen\<bar>) (\<lambda>scale.
           Inr (if operand_dimen = target_dimen then operand
                else if operand_dimen < target_dimen then s64 (operand * scale)
                else floor_div_lhs operand scale)))"

section \<open>Emitted code: EXTRACT\<close>

fun ExtractField_value :: "ExtractField \<Rightarrow> int" where
  "ExtractField_value kYEAR = 1"
| "ExtractField_value kQUARTER = 2"
| "ExtractField_value kMONTH = 4"
| "ExtractField_value kDAY = 8"
| "ExtractField_value kHOUR = 16"
| "ExtractField_value kMINUTE = 32"
| "ExtractField_value kSECOND = 64"
| "ExtractField_value kMILLISECOND = 128"
| "ExtractField_value kMICROSECOND = 256"
| "ExtractField_value kNANOSECOND = 512"
| "ExtractField_value kDOW = 1024"
| "ExtractField_value kISODOW = 2048"
| "ExtractField_value kDOY = 4096"
| "ExtractField_value kEPOCH = 8192"
| "ExtractField_value kQUARTERDAY = 16384"
| "ExtractField_value kWEEK = 32768"
| "ExtractField_value kWEEK_SUNDAY = 65536"
| "ExtractField_value kWEEK_SATURDAY = 131072"
| "ExtractField_value kDATEEPOCH = 262144"
| "ExtractField_value kNONE = 524288"

definition simple_extract_field :: int where
  "simple_extract_field = fold (\<lambda>f m. m OR ExtractField_value f)
     [kEPOCH, kDATEEPOCH, kQUARTERDAY, kHOUR, kMINUTE, kSECOND, kMILLISECOND, kMICROSECOND, kNANOSECOND] 0"

definition complex_extract_field :: int where
  "complex_extract_field = fold (\<lambda>f m. m OR ExtractField_value f)
     [kDOW, kISODOW, kDAY, kWEEK, kWEEK_SUNDAY, kWEEK_SATURDAY, kDOY, kMONTH, kQUARTER, kYEAR] 0"

definition is_extract_function_complex :: "ExtractField \<Rightarrow> bool result" where
  "is_extract_function_complex field =
     (if simple_extract_field AND ExtractField_value field \<noteq> 0 then Inr False
      else if complex_extract_field AND ExtractField_value field \<noteq> 0 then Inr True
      else Inl CiderUnsupportedException)"

definition codegenExtractHighPrecisionTimestampsFun :: "int \<Rightarrow> SQLTypeInfo \<Rightarrow> ExtractField \<Rightarrow> int result" where
  "codegenExtractHighPrecisionTimestampsFun ts ti field =
     (if \<not> is_high_precision_timestamp ti then Inl CheckFailed
      else if is_subsecond_extract_field field then
        let res = get_extract_high_precision_adjusted_scale field (get_dimension ti)
        in Inr (if fst res = kMULTIPLY then s64 (ts * snd res)
                else if fst res = kDIVIDE then ts sdiv snd res else ts)
      else rbind (get_timestamp_precision_scale (get_dimension ti)) (\<lambda>scale. Inr (ts sdiv scale)))"

text \<open>
  The runtime function that \<open>get_extract_function_name\<close> names, called with the value and, for the
  functions of \<^const>\<open>complex_extract_field\<close>, the null flag.
\<close>

fun extract_function :: "ExtractField \<Rightarrow> int \<Rightarrow> bool \<Rightarrow> int result" where
  "extract_function kEPOCH v null = Inr (extract_epoch v)"
| "extract_function kDATEEPOCH v null = Inr (extract_dateepoch v)"
| "extract_function kQUARTERDAY v null = Inr (extract_quarterday v)"
| "extract_function kHOUR v null = Inr (extract_hour v)"
| "extract_function kMINUTE v null = Inr (extract_minute v)"
| "extract_function kSECOND v null = Inr (extract_second v)"
| "extract_function kMILLISECOND v null = Inr (extract_millisecond v)"
| "extract_function kMICROSECOND v null = Inr (extract_microsecond v)"
| "extract_function kNANOSECOND v null = Inr (extract_nanosecond v)"
| "extract_function kDOW v null = Inr (extract_dow v null)"
| "extract_function kISODOW v null = Inr (extract_isodow v null)"
| "extract_function kDAY v null = Inr (extract_day v null)"
| "extract_function kWEEK v null = Inr (extract_week_monday v null)"
| "extract_function kWEEK_SUNDAY v null = Inr (extract_week_sunday v null)"
| "extract_function kWEEK_SATURDAY v null = Inr (extract_week_saturday v null)"
| "extract_function kDOY v null = Inr (extract_day_of_year v null)"
| "extract_function kMONTH v null = Inr (extract_month v null)"
| "extract_function kQUARTER v null = Inr (extract_quarter v null)"
| "extract_function kYEAR v null = Inr (extract_year v null)"
| "extract_function kNONE v null = Inl CiderUnsupportedException"

text \<open>\<open>null\<close> is the null flag of the argument, if its column has one; it is also that of the result.\<close>

definition codegenExtract :: "SQLTypeInfo \<Rightarrow> ExtractField \<Rightarrow> int \<Rightarrow> bool option \<Rightarrow> int result" where
  "codegenExtract ti field fromtime null =
     rbind (if get_type ti = kDATE
            then codegenCastBetweenTimeAndDate fromtime (SQLTypeInfo_plain kDATE) (SQLTypeInfo_plain kTIMESTAMP)
            else Inr fromtime) (\<lambda>fromtime.
     rbind (if is_high_precision_timestamp ti then codegenExtractHighPrecisionTimestampsFun fromtime ti field
            else Inr fromtime) (\<lambda>fromtime.
     rbind (if \<not> is_high_precision_timestamp ti \<and> is_subsecond_extract_field field
            then rbind (get_extract_timestamp_precision_scale field) (\<lambda>scale. Inr (s64 (fromtime * scale)))
            else Inr fromtime) (\<lambda>fromtime.
       extract_function field fromtime (case null of Some n \<Rightarrow> n | None \<Rightarrow> False))))"

section \<open>Emitted code: DATE\_TRUNC\<close>

text \<open>
  The runtime functions that \<open>datetrunc_fname_lookup\<close> names are the branches of \<^const>\<open>DateTruncate\<close>;
  the table has no entry for \<open>dtINVALID\<close>.
\<close>

fun subminute_index :: "DatetruncField \<Rightarrow> int option" where
  "subminute_index dtSECOND = Some 0"
| "subminute_index dtMILLISECOND = Some 1"
| "subminute_index dtMICROSECOND = Some 2"
| "subminute_index dtNANOSECOND = Some 3"
| "subminute_index _ = None"

definition codegenDateTruncHighPrecisionTimestamps :: "int \<Rightarrow> SQLTypeInfo \<Rightarrow> DatetruncField \<Rightarrow> int result" where
  "codegenDateTruncHighPrecisionTimestamps ts ti field =
     (let is_nullable = (\<not> get_notnull ti);
          mul = (\<lambda>t k. if is_nullable then arith_nullable_lhs 9223372036854775808 op_mul t k NULL_BIGINT else Inr (s64 (t * k)));
          quot = (\<lambda>t k. if is_nullable then floor_div_nullable_lhs t k NULL_BIGINT else t sdiv k)
      in if \<not> is_high_precision_timestamp ti then Inl CheckFailed
         else case subminute_index field of
           Some i \<Rightarrow>
             let start_dim = u32 (get_dimension ti);
                 trunc_dim = i * 3
             in if start_dim \<le> trunc_dim then Inr ts
                else let dscale = pow10 (start_dim - trunc_dim) in mul (quot ts dscale) dscale
         | None \<Rightarrow>
             let scale = pow10 (get_dimension ti);
                 t = quot ts scale
             in if field = dtINVALID then Inl StdOutOfRange
                else rbind (if is_nullable \<and> t = NULL_BIGINT then Inr NULL_BIGINT else DateTruncate field t)
                  (\<lambda>t. mul t scale))"

definition codegenDateTrunc :: "SQLTypeInfo \<Rightarrow> DatetruncField \<Rightarrow> int \<Rightarrow> int result" where
  "codegenDateTrunc ti field from =
     (if is_high_precision_timestamp ti then codegenDateTruncHighPrecisionTimestamps from ti field
      else if subminute_index field \<noteq> None then Inr from
      else if field = dtINVALID then Inl StdOutOfRange
      else DateTruncate field from)"

section \<open>Times in the unit of a field\<close>

text \<open>
  A time with \<open>p\<close> decimal digits of a second as a time with \<open>q\<close> digits, rounded towards the past.
\<close>

definition rescale :: "int \<Rightarrow> int \<Rightarrow> int \<Rightarrow> int" where
  "rescale p q v = (if p \<le> q then v * 10 ^ nat (q - p) else v div 10 ^ nat (p - q))"

fun extract_dim :: "ExtractField \<Rightarrow> int" where
  "extract_dim kMILLISECOND = 3"
| "extract_dim kMICROSECOND = 6"
| "extract_dim kNANOSECOND = 9"
| "extract_dim _ = 0"

definition time_type :: "SQLTypeInfo \<Rightarrow> bool" where
  "time_type ti \<longleftrightarrow> get_type ti = kTIMESTAMP \<and> get_dimension ti \<in> {0, 3, 6, 9}"

text \<open>\<open>floor_div\<close> does not wrap, nor does the time in the unit of the field.\<close>

definition extract_safe :: "SQLTypeInfo \<Rightarrow> ExtractField \<Rightarrow> int \<Rightarrow> bool" where
  "extract_safe ti f v \<longleftrightarrow> - 9223372035854775808 \<le> v \<and> v < 9223372036854775808 \<and>
     in_s64 (v * 10 ^ nat (extract_dim f - get_dimension ti))"

lemmas scale_defs = get_timestamp_precision_scale_def get_extract_timestamp_precision_scale_def
  is_subsecond_extract_field_def is_subsecond_datetrunc_field_def get_extract_high_precision_adjusted_scale_def
  get_datetrunc_high_precision_scale_def extract_precision_lookup_def datetrunc_precision_lookup_def

lemma extract_function_valid [simp]: "extract_function f v False = ExtractFromTime f v"
  by (cases f) simp_all

lemma is_extract_function_complex_flag:
  "is_extract_function_complex f =
     (if f = kNONE then Inl CiderUnsupportedException
      else Inr (f \<in> {kDOW, kISODOW, kDAY, kWEEK, kWEEK_SUNDAY, kWEEK_SATURDAY, kDOY, kMONTH, kQUARTER, kYEAR}))"
  by (cases f; hypsubst; code_simp)

lemma floor_div_scale:
  assumes "- 9223372035854775808 \<le> v"
  shows "floor_div v 1000 = v div 1000" "floor_div v 1000000 = v div 1000000"
    "floor_div v 1000000000 = v div 1000000000"
  using assms by (simp_all add: floor_div_eq)

lemma time_type_cases:
  assumes "time_type ti"
  obtains (seconds) "get_dimension ti = 0" "\<not> is_high_precision_timestamp ti"
  | (milli) "get_dimension ti = 3" "is_high_precision_timestamp ti"
  | (micro) "get_dimension ti = 6" "is_high_precision_timestamp ti"
  | (nano) "get_dimension ti = 9" "is_high_precision_timestamp ti"
proof -
  have "get_dimension ti = 0 \<and> \<not> is_high_precision_timestamp ti \<or> get_dimension ti = 3 \<and> is_high_precision_timestamp ti \<or>
    get_dimension ti = 6 \<and> is_high_precision_timestamp ti \<or> get_dimension ti = 9 \<and> is_high_precision_timestamp ti"
    using assms by (auto simp: time_type_def is_high_precision_timestamp_def)
  then show thesis by (elim disjE conjE) (rule that; assumption)+
qed

lemma extract_dim_second: "\<not> is_subsecond_extract_field f \<Longrightarrow> extract_dim f = 0"
  by (cases f) (simp_all add: is_subsecond_extract_field_def)

lemma extract_folding:
  assumes "time_type ti" "extract_safe ti f v"
  shows "getExtractFromTimeConstantValue v f ti = ExtractFromTime f (rescale (get_dimension ti) (extract_dim f) v)"
proof -
  have v: "- 9223372035854775808 \<le> v" and
    w: "s64 (v * 10 ^ nat (extract_dim f - get_dimension ti)) = v * 10 ^ nat (extract_dim f - get_dimension ti)"
    using assms(2) by (simp_all add: extract_safe_def wrap_s_in_s)
  note simps = getExtractFromTimeConstantValue_def rescale_def floor_div_scale [OF v]
  show ?thesis
  proof (cases "is_subsecond_extract_field f")
    case True
    then consider "f = kMILLISECOND" | "f = kMICROSECOND" | "f = kNANOSECOND" by (auto simp: is_subsecond_extract_field_def)
    then show ?thesis
      by (cases; cases rule: time_type_cases [OF assms(1)]; insert w)
        (simp_all add: simps scale_defs del: ExtractFromTime.simps)
  next
    case False
    show ?thesis
      by (cases rule: time_type_cases [OF assms(1)])
        (simp_all add: simps False extract_dim_second [OF False] get_timestamp_precision_scale_def)
  qed
qed

lemma codegenExtract_folding:
  assumes "time_type ti" "extract_safe ti f v" "get_dimension ti = 0 \<or> 0 \<le> v"
  shows "codegenExtract ti f v null =
    extract_function f (rescale (get_dimension ti) (extract_dim f) v) (null = Some True)"
proof -
  have w: "s64 (v * 10 ^ nat (extract_dim f - get_dimension ti)) = v * 10 ^ nat (extract_dim f - get_dimension ti)"
    using assms(2) by (simp_all add: extract_safe_def wrap_s_in_s)
  have ts: "get_type ti = kTIMESTAMP" using assms(1) by (simp add: time_type_def)
  have null: "(case null of Some n \<Rightarrow> n | None \<Rightarrow> False) = (null = Some True)" by (cases null) simp_all
  note simps = codegenExtract_def codegenExtractHighPrecisionTimestampsFun_def rescale_def ts null
  show ?thesis
  proof (cases "is_subsecond_extract_field f")
    case True
    then consider "f = kMILLISECOND" | "f = kMICROSECOND" | "f = kNANOSECOND" by (auto simp: is_subsecond_extract_field_def)
    then show ?thesis
      by (cases; cases rule: time_type_cases [OF assms(1)]; insert w assms(3))
        (simp_all add: simps scale_defs sdiv_nonneg del: extract_function.simps)
  next
    case False
    show ?thesis using assms(3)
      by (cases rule: time_type_cases [OF assms(1)])
        (simp_all add: simps False extract_dim_second [OF False] get_timestamp_precision_scale_def sdiv_nonneg)
  qed
qed

section \<open>Truncation in the unit of a type\<close>

text \<open>
  The start of the period of \<open>v\<close>, a time with \<open>p\<close> decimal digits of a second whose day has the year
  \<open>y\<close> and the month \<open>m\<close>.
\<close>

definition trunc_time :: "DatetruncField \<Rightarrow> int \<Rightarrow> int \<Rightarrow> int \<Rightarrow> int \<Rightarrow> int" where
  "trunc_time f p y m v =
     (case subminute_index f of
        Some i \<Rightarrow> v - v mod 10 ^ nat (p - 3 * i)
      | None \<Rightarrow> 10 ^ nat p * period_start f y m (v div 10 ^ nat p))"

definition trunc_time_safe :: "DatetruncField \<Rightarrow> int \<Rightarrow> int \<Rightarrow> int \<Rightarrow> int \<Rightarrow> bool" where
  "trunc_time_safe f p y m v \<longleftrightarrow> - 9223372035854775808 \<le> v \<and> v < 9223372036854775808 \<and> trunc_safe (v div 10 ^ nat p) \<and>
     in_s64 (trunc_time f p y m v)"

lemma subminute_range: "subminute_index f = Some i \<Longrightarrow> i \<in> {0, 1, 2, 3}"
  by (cases f) simp_all

lemma DateTruncate_subminute: "subminute_index f = Some i \<Longrightarrow> DateTruncate f v = Inr v"
  by (cases f) simp_all

lemma getDateTrunc_folding:
  assumes "time_type ti" "f \<noteq> dtINVALID" "trunc_time_safe f (get_dimension ti) y m v"
    "Calendar.is_date (v div 10 ^ nat (get_dimension ti) div 86400) y m d"
  shows "getDateTruncConstantValue v f ti = Inr (trunc_time f (get_dimension ti) y m v)"
proof -
  have v: "- 9223372035854775808 \<le> v" and s: "trunc_safe (v div 10 ^ nat (get_dimension ti))"
    and w: "s64 (trunc_time f (get_dimension ti) y m v) = trunc_time f (get_dimension ti) y m v"
    using assms(3) by (simp_all add: trunc_time_safe_def wrap_s_in_s)
  note t = DateTruncate_safe [OF s assms(4,2)]
  note simps = getDateTruncConstantValue_def floor_div_scale [OF v] trunc_time_def unsigned_mod_eq
  show ?thesis
  proof (cases "subminute_index f")
    case None
    then have "\<not> is_subsecond_datetrunc_field f" by (cases f) (simp_all add: is_subsecond_datetrunc_field_def)
    then show ?thesis
      by (cases rule: time_type_cases [OF assms(1)]; insert t w)
        (simp_all add: simps None get_timestamp_precision_scale_def mult.commute)
  next
    case (Some i)
    then consider "f = dtSECOND" | "f = dtMILLISECOND" | "f = dtMICROSECOND" | "f = dtNANOSECOND" by (cases f) simp_all
    then show ?thesis
      by (cases; cases rule: time_type_cases [OF assms(1)]; insert t w Some)
        (simp_all add: simps scale_defs minus_mod_eq_mult_div mult.commute)
  qed
qed

lemma floor_div_lhs_eq: "floor_div_lhs x b = floor_div x b"
  by (simp add: floor_div_lhs_def floor_div_def)

text \<open>The division and the multiplication of the emitted code, when the type is nullable or the time is not negative.\<close>

lemma emitted_quot:
  assumes "\<not> get_notnull ti \<or> 0 \<le> v" "- 9223372035854775808 \<le> v" "k = 1000 \<or> k = 1000000 \<or> k = 1000000000"
  shows "(if \<not> get_notnull ti then floor_div_nullable_lhs v k NULL_BIGINT else v sdiv k) = v div k"
  using assms floor_div_scale [OF assms(2)]
  by (auto simp: floor_div_nullable_lhs_def floor_div_lhs_eq NULL_BIGINT_def sdiv_nonneg)

lemma emitted_mul:
  assumes "in_s64 (t * k)" "2 \<le> k"
  shows "(if \<not> get_notnull ti then arith_nullable_lhs 9223372036854775808 op_mul t k NULL_BIGINT else Inr (s64 (t * k))) = Inr (t * k)"
proof -
  have "t \<noteq> NULL_BIGINT"
  proof
    assume "t = NULL_BIGINT"
    then have "t * k \<le> - 9223372036854775808 * 2" using assms(2) by (simp add: NULL_BIGINT_def)
    with assms(1) show False by (simp add: in_s_def)
  qed
  with assms(1) show ?thesis by (simp add: arith_nullable_lhs_def arith_value_def wrap_s_in_s)
qed

lemma codegenDateTrunc_folding:
  assumes "time_type ti" "f \<noteq> dtINVALID" "trunc_time_safe f (get_dimension ti) y m v"
    "Calendar.is_date (v div 10 ^ nat (get_dimension ti) div 86400) y m d"
    "get_dimension ti = 0 \<or> \<not> get_notnull ti \<or> 0 \<le> v"
  shows "codegenDateTrunc ti f v = Inr (trunc_time f (get_dimension ti) y m v)"
proof (cases "get_dimension ti = 0")
  case True
  then have hp: "\<not> is_high_precision_timestamp ti" by (simp add: is_high_precision_timestamp_def)
  have s: "trunc_safe v" and d: "Calendar.is_date (v div 86400) y m d"
    using assms(3,4) True by (simp_all add: trunc_time_safe_def)
  show ?thesis using DateTruncate_safe [OF s d assms(2)] assms(2) hp True
    by (cases "subminute_index f") (use subminute_range in \<open>fastforce simp: codegenDateTrunc_def trunc_time_def\<close>)+
next
  case False
  have hp: "is_high_precision_timestamp ti" and p: "get_dimension ti \<in> {3, 6, 9}"
    using assms(1) False by (auto simp: time_type_def is_high_precision_timestamp_def)
  have v: "- 9223372035854775808 \<le> v" and s: "trunc_safe (v div 10 ^ nat (get_dimension ti))"
    and w: "in_s64 (trunc_time f (get_dimension ti) y m v)"
    using assms(3) by (simp_all add: trunc_time_safe_def)
  have nn: "\<not> get_notnull ti \<or> 0 \<le> v" using assms(5) False by simp
  note t = DateTruncate_safe [OF s assms(4,2)]
  note code = codegenDateTrunc_def codegenDateTruncHighPrecisionTimestamps_def Let_def hp
  show ?thesis
  proof (cases "subminute_index f")
    case None
    define k where "k = (10 :: int) ^ nat (get_dimension ti)"
    have k: "pow10 (get_dimension ti) = k" "k = 1000 \<or> k = 1000000 \<or> k = 1000000000" "2 \<le> k"
      using p by (auto simp: pow10_def k_def)
    have q: "v div k \<noteq> NULL_BIGINT"
      using s by (simp add: trunc_safe_def NULL_BIGINT_def k_def)
    have "in_s64 (period_start f y m (v div k) * k)" using w None by (simp add: trunc_time_def k_def mult.commute)
    note mul = emitted_mul [OF this k(3), of ti]
    show ?thesis
      using t assms(2) emitted_quot [OF nn v k(2)] q mul unfolding k_def [symmetric]
      by (simp add: code None k(1) trunc_time_def k_def [symmetric] mult.commute del: if_not_P if_P)
  next
    case (Some i)
    then have i: "i \<in> {0, 1, 2, 3}" by (rule subminute_range)
    define k where "k = (10 :: int) ^ nat (get_dimension ti - 3 * i)"
    show ?thesis
    proof (cases "get_dimension ti \<le> i * 3")
      case True
      then show ?thesis using p by (auto simp: code Some trunc_time_def wrap_u_def)
    next
      case False
      have k: "pow10 (get_dimension ti - i * 3) = k" "k = 1000 \<or> k = 1000000 \<or> k = 1000000000" "2 \<le> k"
        using p i False by (auto simp: pow10_def k_def)
      have "in_s64 (v div k * k)"
        using w Some by (simp add: trunc_time_def k_def minus_mod_eq_mult_div mult.commute)
      note mul = emitted_mul [OF this k(3), of ti]
      have u: "u32 (get_dimension ti) = get_dimension ti" using p by (auto simp: wrap_u_def)
      have e: "trunc_time f (get_dimension ti) y m v = v div k * k"
        by (simp add: trunc_time_def Some k_def minus_mod_eq_mult_div mult.commute)
      show ?thesis
        using False mul emitted_quot [OF nn v k(2)] unfolding e
        by (cases "get_notnull ti") (simp_all add: code Some u k(1))
    qed
  qed
qed

section \<open>Properties\<close>

text \<open>
  C22: folding \<open>EXTRACT\<close> of a constant of type \<open>TIMESTAMP(0)\<close>, \<open>(3)\<close>, \<open>(6)\<close> or \<open>(9)\<close> extracts the field from
  the time in the unit of the field (seconds, or the milli-, micro- or nanoseconds the field
  counts), rounded towards the past; and the emitted code computes the same value for every time
  of a \<open>TIMESTAMP(0)\<close> and every time of a finer type from 1970 on.
\<close>

theorem extract_constant_folding:
  assumes "time_type ti" "extract_safe ti f v"
  shows "getExtractFromTimeConstantValue v f ti = ExtractFromTime f (rescale (get_dimension ti) (extract_dim f) v) \<and>
    (get_dimension ti = 0 \<or> 0 \<le> v \<longrightarrow> codegenExtract ti f v (Some False) = getExtractFromTimeConstantValue v f ti)"
  using extract_folding [OF assms] codegenExtract_folding [OF assms] by simp

theorem extract_constant_folding_witness:
  "getExtractFromTimeConstantValue (- 1) kSECOND (SQLTypeInfo_dims kTIMESTAMP 3 0 False) = Inr 59 \<and>
   codegenExtract (SQLTypeInfo_dims kTIMESTAMP 6 0 False) kMILLISECOND 61234567 (Some False) =
     getExtractFromTimeConstantValue 61234567 kMILLISECOND (SQLTypeInfo_dims kTIMESTAMP 6 0 False)"
proof -
  have "time_type (SQLTypeInfo_dims kTIMESTAMP 3 0 False)" "extract_safe (SQLTypeInfo_dims kTIMESTAMP 3 0 False) kSECOND (- 1)"
    "time_type (SQLTypeInfo_dims kTIMESTAMP 6 0 False)" "extract_safe (SQLTypeInfo_dims kTIMESTAMP 6 0 False) kMILLISECOND 61234567"
    by code_simp+
  moreover have "ExtractFromTime kSECOND (rescale (get_dimension (SQLTypeInfo_dims kTIMESTAMP 3 0 False)) (extract_dim kSECOND) (- 1)) = Inr 59"
    by code_simp
  ultimately show ?thesis
    using extract_constant_folding [of "SQLTypeInfo_dims kTIMESTAMP 3 0 False" kSECOND "- 1"]
      extract_constant_folding [of "SQLTypeInfo_dims kTIMESTAMP 6 0 False" kMILLISECOND 61234567] by simp
qed

text \<open>
  C23: folding \<open>DATE_TRUNC\<close> of a constant of any precision returns the first instant of the period that
  contains it, in the unit of the type; and the emitted code computes the same for every time of
  a nullable type and every time from 1970 on.
\<close>

theorem date_trunc_constant_folding:
  assumes "time_type ti" "f \<noteq> dtINVALID" "trunc_time_safe f (get_dimension ti) y m v"
    "Calendar.is_date (v div 10 ^ nat (get_dimension ti) div 86400) y m d"
  shows "getDateTruncConstantValue v f ti = Inr (trunc_time f (get_dimension ti) y m v) \<and>
    (get_dimension ti = 0 \<or> \<not> get_notnull ti \<or> 0 \<le> v \<longrightarrow> codegenDateTrunc ti f v = getDateTruncConstantValue v f ti)"
  using getDateTrunc_folding [OF assms] codegenDateTrunc_folding [OF assms] by simp

theorem date_trunc_constant_folding_witness:
  "getDateTruncConstantValue (- 1) dtDAY (SQLTypeInfo_dims kTIMESTAMP 6 0 False) = Inr (- 86400000000) \<and>
   codegenDateTrunc (SQLTypeInfo_dims kTIMESTAMP 6 0 False) dtDAY (- 1) =
     getDateTruncConstantValue (- 1) dtDAY (SQLTypeInfo_dims kTIMESTAMP 6 0 False)"
proof -
  define ti where "ti = SQLTypeInfo_dims kTIMESTAMP 6 0 False"
  have "time_type ti" "trunc_time_safe dtDAY (get_dimension ti) 1969 12 (- 1)"
    "Calendar.is_date (- 1 div 10 ^ nat (get_dimension ti) div 86400) 1969 12 31" "\<not> get_notnull ti"
    "trunc_time dtDAY (get_dimension ti) 1969 12 (- 1) = - 86400000000"
    unfolding ti_def by code_simp+
  then show ?thesis
    using date_trunc_constant_folding [of ti dtDAY 1969 12 "- 1" 31] unfolding ti_def by simp
qed

text \<open>
  Before 1970 the emitted code rounds towards 1970: of a \<open>TIMESTAMP(3)\<close>, it extracts the wrong year
  and, if the type is not nullable, truncates to the wrong second.
\<close>

lemma extract_before_1970:
  "codegenExtract (SQLTypeInfo_dims kTIMESTAMP 3 0 False) kYEAR (- 1) (Some False) = Inr 1970 \<and>
   getExtractFromTimeConstantValue (- 1) kYEAR (SQLTypeInfo_dims kTIMESTAMP 3 0 False) = Inr 1969"
  by code_simp

lemma date_trunc_before_1970:
  "codegenDateTrunc (SQLTypeInfo_dims kTIMESTAMP 3 0 True) dtSECOND (- 1) = Inr 0 \<and>
   getDateTruncConstantValue (- 1) dtSECOND (SQLTypeInfo_dims kTIMESTAMP 3 0 True) = Inr (- 1000)"
  by code_simp

end
