(* ===== verification/Expression_Range.thy ===== *)
theory Expression_Range
  imports Date_Time_IR
begin

text \<open>
  \<open>exec/template/ExpressionRange.h\<close> and \<open>.cpp\<close>: the ranges of the values of expressions, from which
  group-by and join tables are laid out.  An \<open>ExpressionRange\<close> is its tag with the members the tag
  gives a meaning to; a range that is not an integer range has the bucket 0.

  Arguments of the model are the floating-point operations (\<open>fp_ops\<close>, over the type \<open>'f\<close> of the
  values of a \<open>double\<close>), the conversion of the checked integers of Boost to \<open>int64_t\<close>, which fails
  with an exception, and the string dictionaries.
\<close>

section \<open>Ranges\<close>

datatype 'f ExpressionRange =
  InvalidRange (has_nulls_of: bool)
| IntegerRange (int_min_of: int) (int_max_of: int) (bucket_of: int) (has_nulls_of: bool)
| FloatRange (fp_min_of: 'f) (fp_max_of: 'f) (has_nulls_of: bool)
| DoubleRange (fp_min_of: 'f) (fp_max_of: 'f) (has_nulls_of: bool)
| NullRange (has_nulls_of: bool)

definition makeIntRange :: "int \<Rightarrow> int \<Rightarrow> int \<Rightarrow> bool \<Rightarrow> 'f ExpressionRange" where
  "makeIntRange int_min int_max bucket has_nulls = IntegerRange int_min int_max bucket has_nulls"

definition makeNullRange :: "'f ExpressionRange" where "makeNullRange = NullRange True"

definition makeInvalidRange :: "'f ExpressionRange" where "makeInvalidRange = InvalidRange False"

definition getIntMin :: "'f ExpressionRange \<Rightarrow> int result" where
  "getIntMin r = (case r of IntegerRange lo hi b n \<Rightarrow> Inr lo | _ \<Rightarrow> Inl CheckFailed)"

definition getIntMax :: "'f ExpressionRange \<Rightarrow> int result" where
  "getIntMax r = (case r of IntegerRange lo hi b n \<Rightarrow> Inr hi | _ \<Rightarrow> Inl CheckFailed)"

definition getFpMin :: "'f ExpressionRange \<Rightarrow> 'f result" where
  "getFpMin r = (case r of FloatRange lo hi n \<Rightarrow> Inr lo | DoubleRange lo hi n \<Rightarrow> Inr lo | _ \<Rightarrow> Inl CheckFailed)"

definition getFpMax :: "'f ExpressionRange \<Rightarrow> 'f result" where
  "getFpMax r = (case r of FloatRange lo hi n \<Rightarrow> Inr hi | DoubleRange lo hi n \<Rightarrow> Inr hi | _ \<Rightarrow> Inl CheckFailed)"

definition setIntMin :: "'f ExpressionRange \<Rightarrow> int \<Rightarrow> 'f ExpressionRange result" where
  "setIntMin r int_min = (case r of IntegerRange lo hi b n \<Rightarrow> Inr (IntegerRange int_min hi b n) | _ \<Rightarrow> Inl CheckFailed)"

definition setIntMax :: "'f ExpressionRange \<Rightarrow> int \<Rightarrow> 'f ExpressionRange result" where
  "setIntMax r int_max = (case r of IntegerRange lo hi b n \<Rightarrow> Inr (IntegerRange lo int_max b n) | _ \<Rightarrow> Inl CheckFailed)"

definition setIntInvalidRange :: "'f ExpressionRange \<Rightarrow> 'f ExpressionRange result" where
  "setIntInvalidRange r = (case r of IntegerRange lo hi b n \<Rightarrow> Inr (IntegerRange 0 (- 1) b n) | _ \<Rightarrow> Inl CheckFailed)"

definition setFpMin :: "'f ExpressionRange \<Rightarrow> 'f \<Rightarrow> 'f ExpressionRange result" where
  "setFpMin r fp_min = (case r of FloatRange lo hi n \<Rightarrow> Inr (FloatRange fp_min hi n)
     | DoubleRange lo hi n \<Rightarrow> Inr (DoubleRange fp_min hi n) | _ \<Rightarrow> Inl CheckFailed)"

definition setFpMax :: "'f ExpressionRange \<Rightarrow> 'f \<Rightarrow> 'f ExpressionRange result" where
  "setFpMax r fp_max = (case r of FloatRange lo hi n \<Rightarrow> Inr (FloatRange lo fp_max n)
     | DoubleRange lo hi n \<Rightarrow> Inr (DoubleRange lo fp_max n) | _ \<Rightarrow> Inl CheckFailed)"

definition getBucket :: "'f ExpressionRange \<Rightarrow> int result" where
  "getBucket r = (case r of InvalidRange n \<Rightarrow> Inl CheckFailed | IntegerRange lo hi b n \<Rightarrow> Inr b | _ \<Rightarrow> Inr 0)"

definition hasNulls :: "'f ExpressionRange \<Rightarrow> bool result" where
  "hasNulls r = (case r of InvalidRange n \<Rightarrow> Inl CheckFailed | _ \<Rightarrow> Inr (has_nulls_of r))"

fun setNulls :: "'f ExpressionRange \<Rightarrow> bool \<Rightarrow> 'f ExpressionRange" where
  "setNulls (InvalidRange n) n' = InvalidRange n'"
| "setNulls (IntegerRange lo hi b n) n' = IntegerRange lo hi b n'"
| "setNulls (FloatRange lo hi n) n' = FloatRange lo hi n'"
| "setNulls (DoubleRange lo hi n) n' = DoubleRange lo hi n'"
| "setNulls (NullRange n) n' = NullRange n'"

definition setHasNulls :: "'f ExpressionRange \<Rightarrow> 'f ExpressionRange" where
  "setHasNulls r = setNulls r True"

definition is_invalid :: "'f ExpressionRange \<Rightarrow> bool" where
  "is_invalid r = (case r of InvalidRange n \<Rightarrow> True | _ \<Rightarrow> False)"

section \<open>The surroundings of an expression\<close>

text \<open>
  \<open>float_arith\<close> and \<open>double_arith\<close> are \<open>None\<close> when the operation raises an overflow or underflow
  flag; \<open>to_float\<close> narrows to a \<open>float\<close>; \<open>float_quot\<close> and \<open>double_quot\<close> convert the numerator and divide.
\<close>

record 'f fp_ops =
  fp_less :: "'f \<Rightarrow> 'f \<Rightarrow> bool"
  fp_eq :: "'f \<Rightarrow> 'f \<Rightarrow> bool"
  floatval_of :: "Datum \<Rightarrow> 'f"
  doubleval_of :: "Datum \<Rightarrow> 'f"
  fp_of_int :: "int \<Rightarrow> 'f"
  to_float :: "'f \<Rightarrow> 'f"
  float_arith :: "SQLOps \<Rightarrow> 'f \<Rightarrow> 'f \<Rightarrow> 'f option"
  double_arith :: "SQLOps \<Rightarrow> 'f \<Rightarrow> 'f \<Rightarrow> 'f option"
  float_quot :: "int \<Rightarrow> int \<Rightarrow> 'f"
  double_quot :: "int \<Rightarrow> int \<Rightarrow> 'f"
  fp_floor :: "'f \<Rightarrow> int"
  fp_ceil :: "'f \<Rightarrow> int"

definition makeFloatRange :: "'f fp_ops \<Rightarrow> 'f \<Rightarrow> 'f \<Rightarrow> bool \<Rightarrow> 'f ExpressionRange" where
  "makeFloatRange F fp_min fp_max has_nulls = FloatRange (to_float F fp_min) (to_float F fp_max) has_nulls"

definition makeDoubleRange :: "'f \<Rightarrow> 'f \<Rightarrow> bool \<Rightarrow> 'f ExpressionRange" where
  "makeDoubleRange fp_min fp_max has_nulls = DoubleRange fp_min fp_max has_nulls"

text \<open>The metadata of the chunks of a table; a missing entry of the map is \<open>None\<close>.\<close>

record ChunkStats =
  stats_min :: Datum
  stats_max :: Datum
  stats_has_nulls :: bool

record FragmentInfo =
  physicalTableId :: int
  fragmentNumTuples :: nat
  resultSet :: bool
  resultSetMutex :: bool
  chunkMetadataMap :: "int \<Rightarrow> ChunkStats option"

definition isEmptyPhysicalFragment :: "FragmentInfo \<Rightarrow> bool" where
  "isEmptyPhysicalFragment f \<longleftrightarrow> 0 \<le> physicalTableId f \<and> fragmentNumTuples f = 0"

definition FragmentInfo_getNumTuples :: "FragmentInfo \<Rightarrow> nat result" where
  "FragmentInfo_getNumTuples f = (if resultSet f \<noteq> resultSetMutex f then Inl CheckFailed else Inr (fragmentNumTuples f))"

record TableInfo =
  fragments :: "FragmentInfo list"
  tableNumTuples :: nat

definition TableInfo_getNumTuples :: "TableInfo \<Rightarrow> nat result" where
  "TableInfo_getNumTuples t =
     (case fragments t of
        f # fs \<Rightarrow> if resultSet f then FragmentInfo_getNumTuples f else Inr (tableNumTuples t)
      | [] \<Rightarrow> Inr (tableNumTuples t))"

record InputTableInfo =
  info_table_id :: int
  info :: TableInfo

text \<open>The expressions, with the type information each node carries.\<close>

datatype Expr =
  BinOper SQLTypeInfo SQLOps Expr Expr
| UOper SQLTypeInfo SQLOps Expr
| Constant SQLTypeInfo bool Datum
| ColumnVar SQLTypeInfo int int int bool
| LikeExpr SQLTypeInfo Expr
| CaseExpr SQLTypeInfo "(Expr \<times> Expr) list" Expr
| ExtractExpr SQLTypeInfo ExtractField Expr
| DatetruncExpr SQLTypeInfo DatetruncField Expr
| OtherExpr SQLTypeInfo

primrec get_type_info :: "Expr \<Rightarrow> SQLTypeInfo" where
  "get_type_info (BinOper ti op l r) = ti"
| "get_type_info (UOper ti op e) = ti"
| "get_type_info (Constant ti n d) = ti"
| "get_type_info (ColumnVar ti table_id column_id rte_idx is_virtual) = ti"
| "get_type_info (LikeExpr ti e) = ti"
| "get_type_info (CaseExpr ti ps e) = ti"
| "get_type_info (ExtractExpr ti f e) = ti"
| "get_type_info (DatetruncExpr ti f e) = ti"
| "get_type_info (OtherExpr ti) = ti"

record 'f range_env =
  fp :: "'f fp_ops"
  checked_int64 :: "int \<Rightarrow> int option"
  g_null_div_by_zero :: bool
  query_infos :: "InputTableInfo list"
  agg_col_range_cache :: "int \<times> int \<Rightarrow> 'f ExpressionRange option"
  contains_left_deep_outer_join :: bool
  getIdOfString :: "int \<Rightarrow> Datum \<Rightarrow> int"

definition getColRange :: "'f range_env \<Rightarrow> int \<Rightarrow> int \<Rightarrow> 'f ExpressionRange result" where
  "getColRange env col_id table_id =
     (case agg_col_range_cache env (col_id, table_id) of None \<Rightarrow> Inl CheckFailed | Some r \<Rightarrow> Inr r)"

section \<open>Interval arithmetic\<close>

text \<open>\<open>std::min_element\<close> and \<open>std::max_element\<close> of a non-empty vector.\<close>

definition min_element :: "('a \<Rightarrow> 'a \<Rightarrow> bool) \<Rightarrow> 'a list \<Rightarrow> 'a" where
  "min_element lt xs = fold (\<lambda>x m. if lt x m then x else m) (tl xs) (hd xs)"

definition max_element :: "('a \<Rightarrow> 'a \<Rightarrow> bool) \<Rightarrow> 'a list \<Rightarrow> 'a" where
  "max_element lt xs = fold (\<lambda>x m. if lt m x then x else m) (tl xs) (hd xs)"

text \<open>The combination of the four pairs of limits; \<open>None\<close> is an exception of the operation.\<close>

definition combine_limits :: "('a \<Rightarrow> 'a \<Rightarrow> 'a option) \<Rightarrow> 'a \<Rightarrow> 'a \<Rightarrow> 'a \<Rightarrow> 'a \<Rightarrow> 'a list option" where
  "combine_limits bin_op lo hi lo' hi' = those [bin_op lo lo', bin_op lo hi', bin_op hi lo', bin_op hi hi']"

definition binOp ::
  "'f fp_ops \<Rightarrow> (int \<Rightarrow> int \<Rightarrow> int option) \<Rightarrow> ('f \<Rightarrow> 'f \<Rightarrow> 'f option) \<Rightarrow> ('f \<Rightarrow> 'f \<Rightarrow> 'f option) \<Rightarrow>
   'f ExpressionRange \<Rightarrow> 'f ExpressionRange \<Rightarrow> 'f ExpressionRange result" where
  "binOp F int_op float_op double_op r s =
     (case (r, s) of
        (IntegerRange lo hi b n, IntegerRange lo' hi' b' n') \<Rightarrow>
          Inr (case combine_limits int_op lo hi lo' hi' of None \<Rightarrow> makeInvalidRange
               | Some limits \<Rightarrow> IntegerRange (min_element (<) limits) (max_element (<) limits) 0 (n \<or> n'))
      | (FloatRange lo hi n, FloatRange lo' hi' n') \<Rightarrow>
          Inr (case combine_limits float_op lo hi lo' hi' of None \<Rightarrow> makeInvalidRange
               | Some limits \<Rightarrow> FloatRange (min_element (fp_less F) limits) (max_element (fp_less F) limits) (n \<or> n'))
      | (DoubleRange lo hi n, DoubleRange lo' hi' n') \<Rightarrow>
          Inr (case combine_limits double_op lo hi lo' hi' of None \<Rightarrow> makeInvalidRange
               | Some limits \<Rightarrow> DoubleRange (min_element (fp_less F) limits) (max_element (fp_less F) limits) (n \<or> n'))
      | _ \<Rightarrow> Inl CheckFailed)"

fun int_arith :: "SQLOps \<Rightarrow> int \<Rightarrow> int \<Rightarrow> int" where
  "int_arith kPLUS x y = x + y"
| "int_arith kMINUS x y = x - y"
| "int_arith kMULTIPLY x y = x * y"
| "int_arith _ x y = 0"

text \<open>The operators \<open>+\<close>, \<open>-\<close> and \<open>*\<close>, which a macro defines.\<close>

definition range_op :: "'f range_env \<Rightarrow> SQLOps \<Rightarrow> 'f ExpressionRange \<Rightarrow> 'f ExpressionRange \<Rightarrow> 'f ExpressionRange result" where
  "range_op env op r s =
     (if is_invalid r \<or> is_invalid s then Inr makeInvalidRange
      else binOp (fp env) (\<lambda>x y. checked_int64 env (int_arith op x y)) (float_arith (fp env) op)
             (double_arith (fp env) op) r s)"

definition range_div :: "'f range_env \<Rightarrow> 'f ExpressionRange \<Rightarrow> 'f ExpressionRange \<Rightarrow> 'f ExpressionRange result" where
  "range_div env r s =
     (case (r, s) of
        (IntegerRange lo hi b n, IntegerRange lo' hi' b' n') \<Rightarrow>
          if s64 (lo' * hi') \<le> 0 then Inr makeInvalidRange
          else rbind (binOp (fp env) (\<lambda>x y. if y = 0 then None else checked_int64 env (x sdiv y))
                       (\<lambda>x y. None) (\<lambda>x y. None) r s) (\<lambda>div_range.
                 Inr (if g_null_div_by_zero env then setHasNulls div_range else div_range))
      | _ \<Rightarrow> Inr makeInvalidRange)"

definition std_min :: "('a \<Rightarrow> 'a \<Rightarrow> bool) \<Rightarrow> 'a \<Rightarrow> 'a \<Rightarrow> 'a" where
  "std_min lt a b = (if lt b a then b else a)"

definition std_max :: "('a \<Rightarrow> 'a \<Rightarrow> bool) \<Rightarrow> 'a \<Rightarrow> 'a \<Rightarrow> 'a" where
  "std_max lt a b = (if lt a b then b else a)"

definition range_or :: "'f fp_ops \<Rightarrow> 'f ExpressionRange \<Rightarrow> 'f ExpressionRange \<Rightarrow> 'f ExpressionRange result" where
  "range_or F r s =
     (case (r, s) of
        (IntegerRange lo hi b n, IntegerRange lo' hi' b' n') \<Rightarrow>
          Inr (IntegerRange (min lo lo') (max hi hi') (min b b') (n \<or> n'))
      | (FloatRange lo hi n, FloatRange lo' hi' n') \<Rightarrow>
          Inr (FloatRange (std_min (fp_less F) lo lo') (std_max (fp_less F) hi hi') (n \<or> n'))
      | (DoubleRange lo hi n, DoubleRange lo' hi' n') \<Rightarrow>
          Inr (DoubleRange (std_min (fp_less F) lo lo') (std_max (fp_less F) hi hi') (n \<or> n'))
      | (NullRange n, NullRange n') \<Rightarrow> Inl CheckFailed
      | _ \<Rightarrow> Inr makeInvalidRange)"

definition range_eq :: "'f fp_ops \<Rightarrow> 'f ExpressionRange \<Rightarrow> 'f ExpressionRange \<Rightarrow> bool result" where
  "range_eq F r s =
     (case (r, s) of
        (InvalidRange n, InvalidRange n') \<Rightarrow> Inr True
      | (IntegerRange lo hi b n, IntegerRange lo' hi' b' n') \<Rightarrow> Inr (n = n' \<and> lo = lo' \<and> hi = hi')
      | (FloatRange lo hi n, FloatRange lo' hi' n') \<Rightarrow> Inr (n = n' \<and> fp_eq F lo lo' \<and> fp_eq F hi hi')
      | (DoubleRange lo hi n, DoubleRange lo' hi' n') \<Rightarrow> Inr (n = n' \<and> fp_eq F lo lo' \<and> fp_eq F hi hi')
      | (NullRange n, NullRange n') \<Rightarrow> Inl CheckFailed
      | _ \<Rightarrow> Inr False)"

function typeSupportsRange :: "SQLTypeInfo \<Rightarrow> bool" where
  "typeSupportsRange ti =
     (if is_array ti then typeSupportsRange (get_elem_type ti)
      else is_number ti \<or> is_boolean ti \<or> is_time ti \<or> (is_string ti \<and> get_compression ti = kENCODING_DICT))"
  by pat_completeness auto

termination
  by (relation "measure (\<lambda>ti. if is_array ti then if get_subtype ti = kARRAY then 2 else 1 else 0)")
    (auto simp: is_array_def get_elem_type_def SQLTypeInfo_full_def set_fixed_size_def)

declare typeSupportsRange.simps [simp del]

section \<open>Conditions on a column\<close>

definition get_value_from_datum_int :: "Datum \<Rightarrow> SQLTypes \<Rightarrow> int" where
  "get_value_from_datum_int datum type =
     (case type of
        kBOOLEAN \<Rightarrow> tinyintval datum | kTINYINT \<Rightarrow> tinyintval datum | kSMALLINT \<Rightarrow> smallintval datum | kINT \<Rightarrow> intval datum
      | kBIGINT \<Rightarrow> bigintval datum | kTIME \<Rightarrow> bigintval datum | kTIMESTAMP \<Rightarrow> bigintval datum | kDATE \<Rightarrow> bigintval datum
      | kNUMERIC \<Rightarrow> bigintval datum | kDECIMAL \<Rightarrow> bigintval datum | _ \<Rightarrow> 0)"

definition get_value_from_datum_double :: "'f fp_ops \<Rightarrow> Datum \<Rightarrow> SQLTypes \<Rightarrow> 'f" where
  "get_value_from_datum_double F datum type =
     (case type of kFLOAT \<Rightarrow> floatval_of F datum | kDOUBLE \<Rightarrow> doubleval_of F datum | _ \<Rightarrow> fp_of_int F 0)"

definition apply_fp_qual :: "'f fp_ops \<Rightarrow> Datum \<Rightarrow> SQLTypes \<Rightarrow> SQLOps \<Rightarrow> 'f ExpressionRange \<Rightarrow> 'f ExpressionRange result" where
  "apply_fp_qual F const_datum const_type sql_op r =
     (let const_val = get_value_from_datum_double F const_datum const_type;
          raise_min = (\<lambda>r. rbind (getFpMin r) (\<lambda>lo. setFpMin r (std_max (fp_less F) lo const_val)));
          lower_max = (\<lambda>r. rbind (getFpMax r) (\<lambda>hi. setFpMax r (std_min (fp_less F) hi const_val)))
      in case sql_op of
           kGT \<Rightarrow> raise_min r | kGE \<Rightarrow> raise_min r | kLT \<Rightarrow> lower_max r | kLE \<Rightarrow> lower_max r
         | kEQ \<Rightarrow> rbind (raise_min r) lower_max
         | _ \<Rightarrow> Inr r)"

definition apply_int_qual :: "Datum \<Rightarrow> SQLTypes \<Rightarrow> SQLOps \<Rightarrow> 'f ExpressionRange \<Rightarrow> 'f ExpressionRange result" where
  "apply_int_qual const_datum const_type sql_op r =
     (let const_val = get_value_from_datum_int const_datum const_type;
          raise_min = (\<lambda>r v. rbind (getIntMin r) (\<lambda>lo. setIntMin r (max lo v)));
          lower_max = (\<lambda>r v. rbind (getIntMax r) (\<lambda>hi. setIntMax r (min hi v)))
      in case sql_op of
           kGT \<Rightarrow> raise_min r (s64 (const_val + 1))
         | kGE \<Rightarrow> raise_min r const_val
         | kLT \<Rightarrow> lower_max r (s64 (const_val - 1))
         | kLE \<Rightarrow> lower_max r const_val
         | kEQ \<Rightarrow> rbind (raise_min r const_val) (\<lambda>r. lower_max r const_val)
         | _ \<Rightarrow> Inr r)"

definition apply_hpt_qual ::
  "Datum \<Rightarrow> SQLTypes \<Rightarrow> int \<Rightarrow> int \<Rightarrow> SQLOps \<Rightarrow> 'f ExpressionRange \<Rightarrow> 'f ExpressionRange result" where
  "apply_hpt_qual const_datum const_type const_dimen col_dimen sql_op r =
     (if const_dimen = col_dimen then Inl CheckFailed
      else rbind (if const_dimen > col_dimen
                  then rbind (get_timestamp_precision_scale (const_dimen - col_dimen))
                         (\<lambda>scale. Inr (get_value_from_datum_int const_datum const_type sdiv scale))
                  else rbind (get_timestamp_precision_scale (col_dimen - const_dimen))
                         (\<lambda>scale. Inr (s64 (get_value_from_datum_int const_datum const_type * scale)))) (\<lambda>bigint.
             apply_int_qual (word_of_int bigint) const_type sql_op r))"

text \<open>The column of the left operand of a condition, which may be wrapped in a unary operator.\<close>

definition qual_column :: "Expr \<Rightarrow> (SQLTypeInfo \<times> int \<times> int) option" where
  "qual_column left_operand =
     (case left_operand of
        ColumnVar ti table_id column_id rte_idx is_virtual \<Rightarrow> Some (ti, table_id, column_id)
      | UOper ti op (ColumnVar ti' table_id column_id rte_idx is_virtual) \<Rightarrow> Some (ti', table_id, column_id)
      | _ \<Rightarrow> None)"

definition apply_simple_qual ::
  "'f fp_ops \<Rightarrow> int \<Rightarrow> int \<Rightarrow> Expr \<Rightarrow> 'f ExpressionRange \<Rightarrow> 'f ExpressionRange result" where
  "apply_simple_qual F table_id column_id qual qual_range =
     (case qual of
        BinOper ti sql_op left_operand (Constant const_ti is_null constval) \<Rightarrow>
          (case qual_column left_operand of
             None \<Rightarrow> Inr qual_range
           | Some (col_ti, qual_table_id, qual_column_id) \<Rightarrow>
               if qual_table_id \<noteq> table_id \<or> qual_column_id \<noteq> column_id then Inr qual_range
               else if (case qual_range of FloatRange lo hi n \<Rightarrow> True | DoubleRange lo hi n \<Rightarrow> True | _ \<Rightarrow> False)
               then apply_fp_qual F constval (get_type const_ti) sql_op qual_range
               else if (is_timestamp col_ti \<or> is_timestamp const_ti) \<and> get_dimension col_ti \<noteq> get_dimension const_ti
               then apply_hpt_qual constval (get_type const_ti) (get_dimension const_ti) (get_dimension col_ti) sql_op qual_range
               else apply_int_qual constval (get_type const_ti) sql_op qual_range)
      | _ \<Rightarrow> Inr qual_range)"

primrec apply_simple_quals ::
  "'f fp_ops \<Rightarrow> int \<Rightarrow> int \<Rightarrow> Expr list \<Rightarrow> 'f ExpressionRange \<Rightarrow> 'f ExpressionRange result" where
  "apply_simple_quals F table_id column_id [] qual_range = Inr qual_range"
| "apply_simple_quals F table_id column_id (qual # quals) qual_range =
     rbind (apply_simple_qual F table_id column_id qual qual_range) (apply_simple_quals F table_id column_id quals)"

section \<open>Columns\<close>

fun get_conservative_datetrunc_bucket :: "DatetruncField \<Rightarrow> int" where
  "get_conservative_datetrunc_bucket dtYEAR = 365 * (24 * 3600)"
| "get_conservative_datetrunc_bucket dtQUARTER = 90 * (24 * 3600)"
| "get_conservative_datetrunc_bucket dtMONTH = 28 * (24 * 3600)"
| "get_conservative_datetrunc_bucket dtDAY = 24 * 3600"
| "get_conservative_datetrunc_bucket dtHOUR = 3600"
| "get_conservative_datetrunc_bucket dtMINUTE = 60"
| "get_conservative_datetrunc_bucket dtMILLENNIUM = 1000 * 365 * (24 * 3600)"
| "get_conservative_datetrunc_bucket dtCENTURY = 100 * 365 * (24 * 3600)"
| "get_conservative_datetrunc_bucket dtDECADE = 10 * 365 * (24 * 3600)"
| "get_conservative_datetrunc_bucket dtWEEK = 7 * (24 * 3600)"
| "get_conservative_datetrunc_bucket dtWEEK_SUNDAY = 7 * (24 * 3600)"
| "get_conservative_datetrunc_bucket dtWEEK_SATURDAY = 7 * (24 * 3600)"
| "get_conservative_datetrunc_bucket dtQUARTERDAY = 4 * 60 * 50"
| "get_conservative_datetrunc_bucket _ = 0"

definition extract_from_datum :: "Datum \<Rightarrow> SQLTypeInfo \<Rightarrow> int result" where
  "extract_from_datum datum ti =
     (let strings = (if get_compression ti \<noteq> kENCODING_DICT then Inl CheckFailed else Inr (intval datum))
      in case (if is_decimal ti then decimal_to_int_type ti else get_type ti) of
           kBOOLEAN \<Rightarrow> Inr (tinyintval datum) | kTINYINT \<Rightarrow> Inr (tinyintval datum) | kSMALLINT \<Rightarrow> Inr (smallintval datum)
         | kCHAR \<Rightarrow> strings | kVARCHAR \<Rightarrow> strings | kTEXT \<Rightarrow> strings
         | kINT \<Rightarrow> Inr (intval datum) | kBIGINT \<Rightarrow> Inr (bigintval datum)
         | kTIME \<Rightarrow> Inr (bigintval datum) | kTIMESTAMP \<Rightarrow> Inr (bigintval datum) | kDATE \<Rightarrow> Inr (bigintval datum)
         | _ \<Rightarrow> Inl CiderUnsupportedException)"

text \<open>\<open>extract_min_stat_double\<close> and \<open>extract_max_stat_double\<close>, which differ in the datum they read.\<close>

definition extract_stat_double :: "'f fp_ops \<Rightarrow> Datum \<Rightarrow> SQLTypeInfo \<Rightarrow> 'f" where
  "extract_stat_double F stat col_ti = (if get_type col_ti = kDOUBLE then doubleval_of F stat else floatval_of F stat)"

text \<open>
  The comparison of two fragments by the statistic \<open>stat\<close>.  It also notes chunks with NULLs, which
  \<open>getLeafColumnRange\<close> finds again among all fragments afterwards.
\<close>

definition stat_less ::
  "'f fp_ops \<Rightarrow> SQLTypeInfo \<Rightarrow> int \<Rightarrow> (ChunkStats \<Rightarrow> Datum) \<Rightarrow> FragmentInfo \<Rightarrow> FragmentInfo \<Rightarrow> bool result" where
  "stat_less F col_ti col_id stat lhs rhs =
     (case chunkMetadataMap lhs col_id of
        None \<Rightarrow> Inr False
      | Some lhs_meta \<Rightarrow>
          (case chunkMetadataMap rhs col_id of
             None \<Rightarrow> Inl CheckFailed
           | Some rhs_meta \<Rightarrow>
               if is_fp col_ti
               then Inr (fp_less F (extract_stat_double F (stat lhs_meta) col_ti) (extract_stat_double F (stat rhs_meta) col_ti))
               else rbind (extract_from_datum (stat lhs_meta) col_ti) (\<lambda>x.
                    rbind (extract_from_datum (stat rhs_meta) col_ti) (\<lambda>y. Inr (x < y)))))"

primrec min_frag :: "('a \<Rightarrow> 'a \<Rightarrow> bool result) \<Rightarrow> 'a \<Rightarrow> 'a list \<Rightarrow> 'a result" where
  "min_frag lt smallest [] = Inr smallest"
| "min_frag lt smallest (x # xs) = rbind (lt x smallest) (\<lambda>b. min_frag lt (if b then x else smallest) xs)"

primrec max_frag :: "('a \<Rightarrow> 'a \<Rightarrow> bool result) \<Rightarrow> 'a \<Rightarrow> 'a list \<Rightarrow> 'a result" where
  "max_frag lt largest [] = Inr largest"
| "max_frag lt largest (x # xs) = rbind (lt largest x) (\<lambda>b. max_frag lt (if b then x else largest) xs)"

definition column_has_nulls :: "int \<Rightarrow> FragmentInfo list \<Rightarrow> bool" where
  "column_has_nulls col_id fs =
     list_ex (\<lambda>f. case chunkMetadataMap f col_id of Some m \<Rightarrow> stats_has_nulls m | None \<Rightarrow> False) fs"

definition column_stats_range ::
  "'f fp_ops \<Rightarrow> SQLTypeInfo \<Rightarrow> ChunkStats \<Rightarrow> ChunkStats \<Rightarrow> bool \<Rightarrow> 'f ExpressionRange result" where
  "column_stats_range F col_ti min_it max_it has_nulls =
     (if is_fp col_ti then
        let min_val = extract_stat_double F (stats_min min_it) col_ti;
            max_val = extract_stat_double F (stats_max max_it) col_ti
        in Inr (if get_type col_ti = kFLOAT then makeFloatRange F min_val max_val has_nulls
                else makeDoubleRange min_val max_val has_nulls)
      else
        rbind (extract_from_datum (stats_min min_it) col_ti) (\<lambda>min_val.
        rbind (extract_from_datum (stats_max max_it) col_ti) (\<lambda>max_val.
          if max_val < min_val
          then if 0 < min_val then Inr (makeIntRange 0 (- 1) 0 has_nulls) else Inl CheckFailed
          else Inr (makeIntRange min_val max_val
                 (if get_type col_ti = kDATE then get_conservative_datetrunc_bucket dtDAY else 0) has_nulls))))"

definition getLeafColumnRange ::
  "'f range_env \<Rightarrow> SQLTypeInfo \<Rightarrow> int \<Rightarrow> int \<Rightarrow> bool \<Rightarrow> bool \<Rightarrow> 'f ExpressionRange result" where
  "getLeafColumnRange env ti table_id col_id is_virtual is_outer_join_proj =
     (let F = fp env;
          col_ti = get_logical_type_info (if is_array ti then get_elem_type ti else ti)
      in if is_string col_ti \<and> get_compression col_ti \<noteq> kENCODING_DICT then Inl CheckFailed
         else if \<not> (is_string col_ti \<or> is_boolean col_ti \<or> is_number col_ti \<or> is_time col_ti) then Inr makeInvalidRange
         else case find (\<lambda>q. info_table_id q = table_id) (query_infos env) of
           None \<Rightarrow> Inl CheckFailed
         | Some q \<Rightarrow>
             rbind (TableInfo_getNumTuples (info q)) (\<lambda>num_tuples.
               if is_virtual
               then if get_type col_ti \<noteq> kBIGINT then Inl CheckFailed
                    else Inr (makeIntRange 0 (max (int num_tuples - 1) 0) 0 is_outer_join_proj)
               else if num_tuples = 0
               then Inr (if is_fp col_ti
                         then if get_type col_ti = kFLOAT then makeFloatRange F (fp_of_int F 0) (fp_of_int F (- 1)) False
                              else makeDoubleRange (fp_of_int F 0) (fp_of_int F (- 1)) False
                         else makeIntRange 0 (- 1) 0 False)
               else case filter (\<lambda>f. \<not> isEmptyPhysicalFragment f) (fragments (info q)) of
                 [] \<Rightarrow> Inr makeInvalidRange
               | f # fs \<Rightarrow>
                   rbind (min_frag (stat_less F col_ti col_id stats_min) f fs) (\<lambda>min_f.
                   rbind (max_frag (stat_less F col_ti col_id stats_max) f fs) (\<lambda>max_f.
                     case chunkMetadataMap min_f col_id of
                       None \<Rightarrow> Inr makeInvalidRange
                     | Some min_it \<Rightarrow>
                         (case chunkMetadataMap max_f col_id of
                            None \<Rightarrow> Inl CheckFailed
                          | Some max_it \<Rightarrow>
                              column_stats_range F col_ti min_it max_it
                                (is_outer_join_proj \<or> column_has_nulls col_id (fragments (info q))))))))"

definition ColumnVar_range ::
  "'f range_env \<Rightarrow> SQLTypeInfo \<Rightarrow> int \<Rightarrow> int \<Rightarrow> int \<Rightarrow> bool \<Rightarrow> Expr list option \<Rightarrow> 'f ExpressionRange result" where
  "ColumnVar_range env ti table_id column_id rte_idx is_virtual simple_quals =
     (if rte_idx < 0 \<or> int (length (query_infos env)) \<le> rte_idx then Inl CheckFailed
      else let is_outer_join_proj = (0 < rte_idx \<and> contains_left_deep_outer_join env)
           in if 0 < table_id
              then rbind (getColRange env column_id table_id) (\<lambda>col_range.
                     let col_range = (if is_outer_join_proj then setHasNulls col_range else col_range)
                     in case simple_quals of None \<Rightarrow> Inr col_range
                        | Some quals \<Rightarrow> apply_simple_quals (fp env) table_id column_id quals col_range)
              else getLeafColumnRange env ti table_id column_id is_virtual is_outer_join_proj)"

section \<open>Expressions\<close>

definition exp_to_scale :: "int \<Rightarrow> int" where
  "exp_to_scale exp = ((\<lambda>res. u64 (res * 10)) ^^ nat (u32 exp)) 1"

definition scale_up_interval_endpoint :: "int \<Rightarrow> SQLTypeInfo \<Rightarrow> int" where
  "scale_up_interval_endpoint endpoint ti = s64 (endpoint * s64 (exp_to_scale (get_scale ti)))"

definition BinOper_range ::
  "'f range_env \<Rightarrow> SQLOps \<Rightarrow> SQLTypeInfo \<Rightarrow> 'f ExpressionRange \<Rightarrow> 'f ExpressionRange \<Rightarrow> 'f ExpressionRange result" where
  "BinOper_range env optype lhs_type lhs rhs =
     (case optype of
        kPLUS \<Rightarrow> range_op env kPLUS lhs rhs
      | kMINUS \<Rightarrow> range_op env kMINUS lhs rhs
      | kMULTIPLY \<Rightarrow> range_op env kMULTIPLY lhs rhs
      | kDIVIDE \<Rightarrow>
          if is_decimal lhs_type \<and> \<not> is_invalid lhs
          then (case lhs of
                  IntegerRange lo hi b n \<Rightarrow>
                    range_div env (makeIntRange (scale_up_interval_endpoint lo lhs_type)
                                     (scale_up_interval_endpoint hi lhs_type) 0 n) rhs
                | _ \<Rightarrow> Inl CheckFailed)
          else range_div env lhs rhs
      | _ \<Rightarrow> Inr makeInvalidRange)"

definition Constant_range :: "'f fp_ops \<Rightarrow> SQLTypeInfo \<Rightarrow> bool \<Rightarrow> Datum \<Rightarrow> 'f ExpressionRange" where
  "Constant_range F ti is_null datum =
     (let point = (\<lambda>v. makeIntRange v v 0 False)
      in if is_null then makeInvalidRange
         else case get_type ti of
           kTINYINT \<Rightarrow> point (tinyintval datum) | kSMALLINT \<Rightarrow> point (smallintval datum) | kINT \<Rightarrow> point (intval datum)
         | kBIGINT \<Rightarrow> point (bigintval datum) | kNUMERIC \<Rightarrow> point (bigintval datum) | kDECIMAL \<Rightarrow> point (bigintval datum)
         | kTIME \<Rightarrow> point (bigintval datum) | kTIMESTAMP \<Rightarrow> point (bigintval datum) | kDATE \<Rightarrow> point (bigintval datum)
         | kFLOAT \<Rightarrow> makeFloatRange F (floatval_of F datum) (floatval_of F datum) False
         | kDOUBLE \<Rightarrow> makeDoubleRange (doubleval_of F datum) (doubleval_of F datum) False
         | _ \<Rightarrow> makeInvalidRange)"

text \<open>The sentinel of \<open>util/SqlTypesLayout.h\<close>, which does not look at the encoding of the other types.\<close>

definition layout_int_null_val :: "SQLTypeInfo \<Rightarrow> int result" where
  "layout_int_null_val ti =
     (if is_string ti \<and> (get_compression ti \<noteq> kENCODING_DICT \<or> get_logical_size ti \<noteq> 4) then Inl CheckFailed
      else map_sum id (inline_int_null_value True) (int_type_width (if is_string ti then kINT else get_type ti)))"

definition LikeExpr_range :: "SQLTypeInfo \<Rightarrow> SQLTypeInfo \<Rightarrow> 'f ExpressionRange result" where
  "LikeExpr_range ti arg_ti =
     (if \<not> is_boolean ti then Inl CheckFailed
      else rbind (if get_notnull arg_ti then Inr 0 else layout_int_null_val ti) (\<lambda>lo. Inr (makeIntRange lo 1 0 False)))"

text \<open>
  The loop over the branches of a \<open>CASE\<close>, given the type of each condition and the range of each
  value; \<open>None\<close> is the early return of an invalid range.
\<close>

primrec CaseExpr_branches ::
  "'f fp_ops \<Rightarrow> (SQLTypeInfo \<times> 'f ExpressionRange result) list \<Rightarrow> 'f ExpressionRange \<Rightarrow> bool \<Rightarrow>
   ('f ExpressionRange \<times> bool) option result" where
  "CaseExpr_branches F [] expr_range has_nulls = Inr (Some (expr_range, has_nulls))"
| "CaseExpr_branches F (p # ps) expr_range has_nulls =
     (if get_type (fst p) \<noteq> kBOOLEAN then Inl CheckFailed
      else rbind (snd p) (\<lambda>crt_range.
        case crt_range of
          NullRange n \<Rightarrow> CaseExpr_branches F ps expr_range True
        | InvalidRange n \<Rightarrow> Inr None
        | _ \<Rightarrow> rbind (if \<not> is_invalid expr_range then range_or F expr_range crt_range else Inr crt_range)
                 (\<lambda>expr_range. CaseExpr_branches F ps expr_range has_nulls)))"

definition is_null_constant :: "Expr \<Rightarrow> bool" where
  "is_null_constant e = (case e of Constant ti is_null d \<Rightarrow> is_null | _ \<Rightarrow> False)"

definition CaseExpr_range ::
  "'f fp_ops \<Rightarrow> (SQLTypeInfo \<times> 'f ExpressionRange result) list \<Rightarrow> bool \<Rightarrow> 'f ExpressionRange result \<Rightarrow>
   'f ExpressionRange result" where
  "CaseExpr_range F branches else_null else_range =
     rbind (CaseExpr_branches F branches makeInvalidRange False) (\<lambda>loop.
       case loop of
         None \<Rightarrow> Inr makeInvalidRange
       | Some (expr_range, has_nulls) \<Rightarrow>
           let expr_range = (if has_nulls \<and> \<not> is_invalid expr_range then setHasNulls expr_range else expr_range)
           in if else_null then Inr (setHasNulls expr_range)
              else rbind else_range (range_or F expr_range))"

definition fpRangeFromDecimal :: "'f fp_ops \<Rightarrow> 'f ExpressionRange \<Rightarrow> int \<Rightarrow> SQLTypeInfo \<Rightarrow> 'f ExpressionRange result" where
  "fpRangeFromDecimal F arg_range scale target_ti =
     (if \<not> is_fp target_ti then Inl CheckFailed
      else rbind (getIntMin arg_range) (\<lambda>lo. rbind (getIntMax arg_range) (\<lambda>hi. rbind (hasNulls arg_range) (\<lambda>n.
        Inr (if get_type target_ti = kFLOAT then makeFloatRange F (float_quot F lo scale) (float_quot F hi scale) n
             else makeDoubleRange (double_quot F lo scale) (double_quot F hi scale) n)))))"

definition getDateTimePrecisionCastRange ::
  "'f ExpressionRange \<Rightarrow> SQLTypeInfo \<Rightarrow> SQLTypeInfo \<Rightarrow> 'f ExpressionRange result" where
  "getDateTimePrecisionCastRange arg_range oper_ti target_ti =
     (if is_timestamp oper_ti \<and> SQL_Types.is_date target_ti then
        rbind (if is_high_precision_timestamp oper_ti then get_timestamp_precision_scale (get_dimension oper_ti) else Inr 1) (\<lambda>scale.
        rbind (getIntMin arg_range) (\<lambda>lo. rbind (getIntMax arg_range) (\<lambda>hi.
        rbind (DateTruncate dtDAY (if is_high_precision_timestamp oper_ti then lo sdiv scale else lo)) (\<lambda>min_ts.
        rbind (DateTruncate dtDAY (if is_high_precision_timestamp oper_ti then hi sdiv scale else hi)) (\<lambda>max_ts.
        rbind (hasNulls arg_range) (\<lambda>n.
          Inr (makeIntRange min_ts max_ts (get_conservative_datetrunc_bucket dtDAY) n)))))))
      else
        let ti_dimen = get_dimension target_ti; oper_dimen = get_dimension oper_ti;
            direction = (if ti_dimen > oper_dimen then ScaleUp else ScaleDown)
        in if oper_dimen = ti_dimen then Inl CheckFailed
           else rbind (getIntMin arg_range) (\<lambda>lo. rbind (getIntMax arg_range) (\<lambda>hi.
                rbind (get_datetime_scaled_epoch direction lo \<bar>oper_dimen - ti_dimen\<bar>) (\<lambda>min_ts.
                rbind (get_datetime_scaled_epoch direction hi \<bar>oper_dimen - ti_dimen\<bar>) (\<lambda>max_ts.
                rbind (hasNulls arg_range) (\<lambda>n. Inr (makeIntRange min_ts max_ts 0 n)))))))"

text \<open>The range of a cast whose operand is not a string in a dictionary.\<close>

definition cast_range ::
  "'f fp_ops \<Rightarrow> SQLTypeInfo \<Rightarrow> SQLTypeInfo \<Rightarrow> 'f ExpressionRange \<Rightarrow> 'f ExpressionRange result" where
  "cast_range F ti arg_ti arg_range =
     (if (is_timestamp ti \<and> get_dimension arg_ti \<noteq> get_dimension ti) \<or> (is_timestamp arg_ti \<and> SQL_Types.is_date ti)
      then getDateTimePrecisionCastRange arg_range arg_ti ti
      else
        let from_fp = (\<lambda>lo hi n.
              if is_fp ti then if get_type ti = kDOUBLE then makeDoubleRange lo hi n else makeFloatRange F lo hi n
              else if is_integer ti then makeIntRange (fp_floor F lo) (fp_ceil F hi) 0 n
              else makeInvalidRange)
        in case arg_range of
             FloatRange lo hi n \<Rightarrow> Inr (from_fp lo hi n)
           | DoubleRange lo hi n \<Rightarrow> Inr (from_fp lo hi n)
           | IntegerRange lo hi b n \<Rightarrow>
               if is_decimal ti then
                 if b \<noteq> 0 then Inl CheckFailed
                 else let scale = s64 (exp_to_scale (get_scale ti - get_scale arg_ti))
                      in Inr (makeIntRange (s64 (lo * scale)) (s64 (hi * scale)) 0 n)
               else if is_decimal arg_ti then
                 if b \<noteq> 0 then Inl CheckFailed
                 else let scale = s64 (exp_to_scale (get_scale arg_ti)); scale_half = scale sdiv 2
                      in if is_fp ti then fpRangeFromDecimal F arg_range scale ti
                         else Inr (makeIntRange (s64 (lo - scale_half) sdiv scale) (s64 (hi + scale_half) sdiv scale) 0 n)
               else if is_integer ti \<or> is_time ti then Inr arg_range
               else if get_type ti = kFLOAT then Inr (makeFloatRange F (fp_of_int F lo) (fp_of_int F hi) n)
               else if get_type ti = kDOUBLE then Inr (makeDoubleRange (fp_of_int F lo) (fp_of_int F hi) n)
               else Inr makeInvalidRange
           | InvalidRange n \<Rightarrow> Inr makeInvalidRange
           | NullRange n \<Rightarrow> Inl CheckFailed)"

definition UOper_range ::
  "'f range_env \<Rightarrow> SQLTypeInfo \<Rightarrow> SQLOps \<Rightarrow> Expr \<Rightarrow> 'f ExpressionRange result \<Rightarrow> 'f ExpressionRange result" where
  "UOper_range env ti optype operand operand_range =
     (if optype = kUNNEST then operand_range
      else if optype \<noteq> kCAST then Inr makeInvalidRange
      else if is_string ti \<and> get_compression ti = kENCODING_DICT
      then (case operand of
              Constant cti is_null d \<Rightarrow>
                if is_null then Inr makeNullRange
                else if d = 0 then Inl CheckFailed
                else let v = getIdOfString env (get_comp_param ti) d in Inr (makeIntRange v v 0 False)
            | _ \<Rightarrow> Inr makeInvalidRange)
      else rbind operand_range (cast_range (fp env) ti (get_type_info operand)))"

definition ExtractExpr_range :: "ExtractField \<Rightarrow> SQLTypeInfo \<Rightarrow> 'f ExpressionRange \<Rightarrow> 'f ExpressionRange result" where
  "ExtractExpr_range extract_field from_ti arg_range =
     (let has_nulls = (is_invalid arg_range \<or> has_nulls_of arg_range);
          fixed = (\<lambda>lo hi. Inr (makeIntRange lo hi 0 has_nulls));
          weeks = fixed 1 53
      in case extract_field of
           kYEAR \<Rightarrow>
             if is_invalid arg_range then Inr makeInvalidRange
             else rbind (getIntMin arg_range) (\<lambda>lo. rbind (getIntMax arg_range) (\<lambda>hi.
                  rbind (if is_high_precision_timestamp from_ti then get_timestamp_precision_scale (get_dimension from_ti) else Inr 1) (\<lambda>scale.
                  rbind (ExtractFromTime kYEAR (if is_high_precision_timestamp from_ti then lo sdiv scale else lo)) (\<lambda>year_range_min.
                  rbind (ExtractFromTime kYEAR (if is_high_precision_timestamp from_ti then hi sdiv scale else hi)) (\<lambda>year_range_max.
                    Inr (makeIntRange year_range_min year_range_max 0 has_nulls))))))
         | kEPOCH \<Rightarrow> Inr arg_range | kDATEEPOCH \<Rightarrow> Inr arg_range
         | kQUARTERDAY \<Rightarrow> fixed 1 4 | kQUARTER \<Rightarrow> fixed 1 4 | kMONTH \<Rightarrow> fixed 1 12 | kDAY \<Rightarrow> fixed 1 31
         | kHOUR \<Rightarrow> fixed 0 23 | kMINUTE \<Rightarrow> fixed 0 59 | kSECOND \<Rightarrow> fixed 0 60
         | kMILLISECOND \<Rightarrow> fixed 0 999 | kMICROSECOND \<Rightarrow> fixed 0 999999 | kNANOSECOND \<Rightarrow> fixed 0 999999999
         | kDOW \<Rightarrow> fixed 0 6 | kISODOW \<Rightarrow> fixed 1 7 | kDOY \<Rightarrow> fixed 1 366
         | kWEEK \<Rightarrow> weeks | kWEEK_SUNDAY \<Rightarrow> weeks | kWEEK_SATURDAY \<Rightarrow> weeks
         | kNONE \<Rightarrow> Inl CheckFailed)"

definition DatetruncExpr_range :: "DatetruncField \<Rightarrow> SQLTypeInfo \<Rightarrow> 'f ExpressionRange \<Rightarrow> 'f ExpressionRange result" where
  "DatetruncExpr_range field from_ti arg_range =
     (if is_invalid arg_range then Inr makeInvalidRange
      else rbind (getIntMin arg_range) (\<lambda>lo. rbind (getIntMax arg_range) (\<lambda>hi.
           rbind (getDateTruncConstantValue lo field from_ti) (\<lambda>min_ts.
           rbind (getDateTruncConstantValue hi field from_ti) (\<lambda>max_ts.
           rbind (if is_high_precision_timestamp from_ti then get_timestamp_precision_scale (get_dimension from_ti) else Inr 1) (\<lambda>scale.
             Inr (makeIntRange min_ts max_ts (s64 (get_conservative_datetrunc_bucket field * scale)) (has_nulls_of arg_range))))))))"

text \<open>
  \<open>getExpressionRange\<close>: the dispatch over the kinds of expressions; a \<open>CASE\<close> passes no conditions on.
\<close>

primrec getExpressionRange :: "Expr \<Rightarrow> 'f range_env \<Rightarrow> Expr list option \<Rightarrow> 'f ExpressionRange result" where
  "getExpressionRange (BinOper ti optype l r) env simple_quals =
     (if \<not> typeSupportsRange ti then Inr makeInvalidRange
      else rbind (getExpressionRange l env simple_quals) (\<lambda>lhs.
           rbind (getExpressionRange r env simple_quals) (\<lambda>rhs.
             BinOper_range env optype (get_type_info l) lhs rhs)))"
| "getExpressionRange (UOper ti optype operand) env simple_quals =
     (if \<not> typeSupportsRange ti then Inr makeInvalidRange
      else UOper_range env ti optype operand (getExpressionRange operand env simple_quals))"
| "getExpressionRange (Constant ti is_null datum) env simple_quals =
     (if \<not> typeSupportsRange ti then Inr makeInvalidRange else Inr (Constant_range (fp env) ti is_null datum))"
| "getExpressionRange (ColumnVar ti table_id column_id rte_idx is_virtual) env simple_quals =
     (if \<not> typeSupportsRange ti then Inr makeInvalidRange
      else ColumnVar_range env ti table_id column_id rte_idx is_virtual simple_quals)"
| "getExpressionRange (LikeExpr ti arg) env simple_quals =
     (if \<not> typeSupportsRange ti then Inr makeInvalidRange else LikeExpr_range ti (get_type_info arg))"
| "getExpressionRange (CaseExpr ti expr_pair_list else_expr) env simple_quals =
     (if \<not> typeSupportsRange ti then Inr makeInvalidRange
      else CaseExpr_range (fp env)
             (map (\<lambda>(c, range). (c, range env None))
               (zip (map (\<lambda>p. get_type_info (fst p)) expr_pair_list)
                 (map snd (map (map_prod getExpressionRange getExpressionRange) expr_pair_list))))
             (is_null_constant else_expr) (getExpressionRange else_expr env None))"
| "getExpressionRange (ExtractExpr ti field from) env simple_quals =
     (if \<not> typeSupportsRange ti then Inr makeInvalidRange
      else rbind (getExpressionRange from env simple_quals) (ExtractExpr_range field (get_type_info from)))"
| "getExpressionRange (DatetruncExpr ti field from) env simple_quals =
     (if \<not> typeSupportsRange ti then Inr makeInvalidRange
      else rbind (getExpressionRange from env simple_quals) (DatetruncExpr_range field (get_type_info from)))"
| "getExpressionRange (OtherExpr ti) env simple_quals = Inr makeInvalidRange"

end
