(* ===== verification/Time_Order.thy ===== *)
theory Time_Order
  imports Date_Time_IR
begin

text \<open>
  The fields of a time and the starts of its periods in the order of time: \<open>EXTRACT(YEAR)\<close> and
  \<open>DATE_TRUNC\<close> are monotone, and the other fields stay in the ranges that the calendar gives them.
\<close>

section \<open>Dates in order\<close>

lemma is_date_exists: "\<exists>y m d. Calendar.is_date day y m d"
  using era_date(1) [of day] by blast

lemma year_mono:
  assumes "Calendar.is_date day y m d" "Calendar.is_date day' y' m' d'" "day \<le> day'"
  shows "y \<le> y'"
  using year_start_le_iff [OF assms(1), of y] year_start_le_iff [OF assms(2), of y] assms(3) by auto

lemma month_first:
  assumes "Calendar.is_date day y m d"
  shows "1 \<le> m" "m \<le> 12" "civil_day y m 1 \<le> day" "day < civil_day y m 1 + days_in_month y m"
  using civil_day_first [OF assms] assms by (simp_all add: Calendar.is_date_def valid_civil_def)

lemma month_mono:
  assumes "Calendar.is_date day y m d" "Calendar.is_date day' y' m' d'" "day \<le> day'"
  shows "y < y' \<or> (y = y' \<and> m \<le> m')"
proof (cases "y = y'")
  case True
  have "m \<le> m'"
  proof (rule ccontr)
    assume "\<not> m \<le> m'"
    then have "days_before_month y m' + days_in_month y m' \<le> days_before_month y m"
      using days_before_month_mono [of m' m y] month_first(1) [OF assms(2)] by simp
    then show False using month_first(3) [OF assms(1)] month_first(4) [OF assms(2)] assms(3) True
      by (simp add: civil_day_def)
  qed
  with True show ?thesis by simp
qed (use year_mono [OF assms] in simp)

lemma year_start_mono: "y \<le> y' \<Longrightarrow> civil_day y 1 1 \<le> civil_day y' 1 1"
  using days_before_year_mono [of y y'] days_before_year_step [of y]
  by (cases "y = y'") (auto simp: civil_day_def of_bool_def split: if_splits)

lemma month_start_mono:
  assumes "1 \<le> m" "m \<le> 12" "1 \<le> m'" "y < y' \<or> (y = y' \<and> m \<le> m')"
  shows "civil_day y m 1 \<le> civil_day y' m' 1"
proof (cases "y < y'")
  case True
  have "civil_day y m 1 < days_before_year (y + 1)"
    using civil_day_in_year(2) [of y m 1] assms(1,2) by (auto simp: valid_civil_def days_in_month_def)
  also have "\<dots> \<le> days_before_year y'" by (rule days_before_year_mono [OF True])
  also have "\<dots> \<le> civil_day y' m' 1"
    by (simp add: civil_day_def days_before_month_def sum_nonneg days_in_month_def)
  finally show ?thesis by simp
next
  case False
  then have "m = m' \<or> m < m'" and y: "y = y'" using assms(4) by auto
  then show ?thesis
    using days_before_month_mono [OF assms(1), of m' y]
    by (auto simp: civil_day_def days_in_month_def split: if_splits)
qed

section \<open>Truncation is monotone\<close>

lemma mult_div_mono: "0 < k \<Longrightarrow> a \<le> b \<Longrightarrow> k * (a div k) \<le> k * (b div (k :: int))"
  by (simp add: zdiv_mono1)

lemma clock_mono: "0 < k \<Longrightarrow> a \<le> b \<Longrightarrow> a - a mod k \<le> b - b mod (k :: int)"
  using mult_div_mono [of k a b] by (simp add: minus_mod_eq_mult_div)

lemma week_mono:
  assumes "a \<le> b" shows "a - (a + k) mod 7 \<le> b - (b + k) mod (7 :: int)"
  using clock_mono [of 7 "a + k" "b + k"] assms by simp

lemma quarter_mono:
  assumes "Calendar.is_date day y m d" "Calendar.is_date day' y' m' d'" "day \<le> day'"
  shows "civil_day y (3 * ((m - 1) div 3) + 1) 1 \<le> civil_day y' (3 * ((m' - 1) div 3) + 1) 1"
proof (rule month_start_mono)
  show "1 \<le> 3 * ((m - 1) div 3) + 1" "3 * ((m - 1) div 3) + 1 \<le> 12" "1 \<le> 3 * ((m' - 1) div 3) + 1"
    using quarter_bounds(1,2) [OF assms(1)] quarter_bounds(1) [OF assms(2)] by simp_all
  show "y < y' \<or> y = y' \<and> 3 * ((m - 1) div 3) + 1 \<le> 3 * ((m' - 1) div 3) + 1"
    using month_mono [OF assms] mult_div_mono [of 3 "m - 1" "m' - 1"] by auto
qed

lemma period_start_mono:
  assumes "Calendar.is_date (t div 86400) y m d" "Calendar.is_date (t' div 86400) y' m' d'" "t \<le> t'"
  shows "period_start f y m t \<le> period_start f y' m' t'"
proof -
  have day: "t div 86400 \<le> t' div 86400" using assms(3) by (simp add: zdiv_mono1)
  note y = year_mono [OF assms(1,2) day]
  have group: "civil_day (k * ((y - c) div k) + e) 1 1 \<le> civil_day (k * ((y' - c) div k) + e) 1 1" if "0 < k" for k c e
    by (rule year_start_mono) (use mult_div_mono [OF that, of "y - c" "y' - c"] y in simp)
  have month: "civil_day y m 1 \<le> civil_day y' m' 1"
    by (rule month_start_mono) (use month_first [OF assms(1)] month_first [OF assms(2)] month_mono [OF assms(1,2) day] in simp_all)
  have days: "86400 * a \<le> 86400 * b" if "a \<le> b" for a b :: int using that by simp
  note groups = group [of 1000 1 1] group [of 100 1 1] group [of 10 0 0, simplified]
  note mono = year_start_mono [OF y] quarter_mono [OF assms(1,2) day] month week_mono [OF day]
  show ?thesis
    by (cases f; hypsubst; unfold period_start.simps;
        (rule assms(3) clock_mono [OF _ assms(3)] days [OF mono(1)] days [OF mono(2)] days [OF mono(3)] days [OF mono(4)]
          days [OF groups(1)] days [OF groups(2)] days [OF groups(3)]); simp)
qed

text \<open>The start of a period of a time with \<open>p\<close> digits.\<close>

lemma trunc_time_mono:
  assumes "Calendar.is_date (v div 10 ^ nat p div 86400) y m d" "Calendar.is_date (v' div 10 ^ nat p div 86400) y' m' d'"
    "v \<le> v'"
  shows "trunc_time f p y m v \<le> trunc_time f p y' m' v'"
proof (cases "subminute_index f")
  case None
  have "v div 10 ^ nat p \<le> v' div 10 ^ nat p" using assms(3) by (simp add: zdiv_mono1)
  then show ?thesis using period_start_mono [OF assms(1,2), of f] None by (simp add: trunc_time_def)
next
  case (Some i)
  then show ?thesis using clock_mono [OF _ assms(3), of "10 ^ nat (p - 3 * i)"] by (simp add: trunc_time_def)
qed

section \<open>The ranges of the fields\<close>

lemma extract_year_mono:
  assumes "time_in_range t" "time_in_range t'" "t \<le> t'"
  shows "extract_year t False \<le> extract_year t' False"
proof -
  obtain y m d where d: "Calendar.is_date (t div 86400) y m d" using is_date_exists by blast
  obtain y' m' d' where d': "Calendar.is_date (t' div 86400) y' m' d'" using is_date_exists by blast
  show ?thesis
    unfolding extract_year_date [OF assms(1) d] extract_year_date [OF assms(2) d']
    by (rule year_mono [OF d d']) (use assms(3) in \<open>simp add: zdiv_mono1\<close>)
qed

lemma div_bounds:
  fixes a k n :: int
  assumes "0 \<le> a" "a < k * n" "0 < k" shows "0 \<le> a div k" "a div k < n"
proof -
  show "0 \<le> a div k" using assms by (simp add: pos_imp_zdiv_nonneg_iff)
  have "k * (a div k) \<le> a" using mult_div_mod_eq [of k a] pos_mod_sign [OF assms(3), of a] by linarith
  then have "k * (a div k) < k * n" using assms(2) by linarith
  then show "a div k < n" using assms(3) by simp
qed

lemma week_length: "week_one k (y + 1) - week_one k y \<le> 371"
proof -
  have "7 dvd week_one k z + k" for z
    unfolding week_one_def using week_start_again [of "civil_day z 1 4" k] by (simp only: dvd_eq_mod_eq_0)
  then have "7 dvd (week_one k (y + 1) + k) - (week_one k y + k)" by (intro dvd_diff)
  then obtain q where q: "week_one k (y + 1) - week_one k y = 7 * q" by (auto elim: dvdE)
  have "week_one k (y + 1) - week_one k y \<le> 372"
    using week_one_bounds(1) [of k y] week_one_bounds(2) [of k "y + 1"] days_before_year_step [of y]
    by (auto simp: of_bool_def split: if_splits)
  then show ?thesis unfolding q by presburger
qed

lemma week_range:
  assumes "time_in_range t" "ofs \<in> {2, 3, 4}"
  shows "extract_week ofs t \<in> {1..53}"
proof -
  obtain y where w: "week_of (ofs + 1) (t div 86400) y (extract_week ofs t)"
    using extract_week_correct [OF assms] by blast
  define k where "k = t div 86400 - week_one (ofs + 1) y"
  have "0 \<le> k" "k < 371" "extract_week ofs t = k div 7 + 1"
    using w week_length [of "ofs + 1" y] by (simp_all add: week_of_def k_def)
  then show ?thesis using div_bounds [of k 7 53] by simp
qed

lemma day_of_year_range:
  assumes "Calendar.is_date day y m d" shows "day - civil_day y 1 1 + 1 \<in> {1..366}"
  using day_index_range [OF assms] by (auto simp: civil_day_def of_bool_def split: if_splits)

lemma extract_fields_range:
  assumes "time_in_range t"
  shows "extract_month t False \<in> {1..12}" "extract_day t False \<in> {1..31}" "extract_quarter t False \<in> {1..4}"
    "extract_day_of_year t False \<in> {1..366}"
proof -
  obtain y m where d: "Calendar.is_date (t div 86400) y m (extract_day t False)" by (rule extract_day_date [OF assms])
  have v: "1 \<le> m" "m \<le> 12" "1 \<le> extract_day t False" "extract_day t False \<le> 31"
    using d by (auto simp: Calendar.is_date_def valid_civil_def days_in_month_def split: if_splits)
  then show "extract_day t False \<in> {1..31}" by simp
  show "extract_month t False \<in> {1..12}" using extract_month_date [OF assms d] v by simp
  show "extract_quarter t False \<in> {1..4}"
    using extract_quarter_date [OF assms d] quarter_bounds(1,2) [OF d] by simp
  show "extract_day_of_year t False \<in> {1..366}"
    using extract_day_of_year_date [OF assms d] day_of_year_range [OF d] by (simp add: civil_day_def)
qed

lemma clock_fields_range:
  "extract_hour t \<in> {0..23}" "extract_minute t \<in> {0..59}" "extract_second t \<in> {0..59}" "extract_quarterday t \<in> {1..4}"
proof -
  define a b where "a = t mod 86400" and "b = t mod 3600"
  have a: "0 \<le> a" "a < 86400" "0 \<le> b" "b < 3600" unfolding a_def b_def by simp_all
  have q: "extract_quarterday t = a div 21600 + 1"
    by (simp add: extract_quarterday_def unsigned_mod_eq sdiv_nonneg a_def)
  have e: "extract_hour t = a div 3600" "extract_minute t = b div 60" "extract_second t = t mod 60"
    by (simp_all only: extract_time_eq a_def b_def)
  show "extract_hour t \<in> {0..23}" unfolding e using div_bounds [of a 3600 24] a by simp
  show "extract_minute t \<in> {0..59}" unfolding e using div_bounds [of b 60 60] a by simp
  show "extract_second t \<in> {0..59}" unfolding e using pos_mod_bound [of 60 t] by simp
  show "extract_quarterday t \<in> {1..4}" unfolding q using div_bounds [of a 21600 4] a by simp
qed

lemma week_day_range:
  assumes "time_in_range t" shows "extract_dow t False \<in> {0..6}" "extract_isodow t False \<in> {1..7}"
proof -
  have m: "0 \<le> (x :: int) mod 7" "x mod 7 \<le> 6" for x using pos_mod_bound [of 7 x] by simp_all
  show "extract_dow t False \<in> {0..6}" "extract_isodow t False \<in> {1..7}"
    unfolding extract_dow_eq [OF assms] using m [of "t div 86400 + 4"] m [of "t div 86400 + 3"] by simp_all
qed

end
