(* ===== verification/Range_Sound.thy ===== *)
theory Range_Sound
  imports Expression_Range Time_Order
begin

text \<open>
  Soundness of the expression ranges: every value that an expression can take on a row lies in the
  range that \<open>getExpressionRange\<close> computes for it, and the range says so if the value can be NULL.
  The evaluation of an expression is a relation; where the runtime is modelled (times, decimals,
  casts between times) it is what the emitted code computes.
\<close>

section \<open>Interval arithmetic\<close>

definition between :: "int \<Rightarrow> int \<Rightarrow> int \<Rightarrow> bool" where
  "between p v q \<longleftrightarrow> min p q \<le> v \<and> v \<le> max p q"

lemma min_element_4: "min_element (<) [a, b, c, d] = min (min a b) (min c (d :: int))"
  by (simp add: min_element_def min_def)

lemma max_element_4: "max_element (<) [a, b, c, d] = max (max a b) (max c (d :: int))"
  by (simp add: max_element_def max_def)

lemma corners:
  assumes "between p v q" "between a p b" "between c q d"
  shows "min (min a b) (min c d) \<le> v" "v \<le> max (max a b) (max c d)"
  using assms unfolding between_def by linarith+

lemma combine_limits_Some:
  "combine_limits f a b c d = Some limits \<longleftrightarrow>
     (\<exists>p q r s. f a c = Some p \<and> f a d = Some q \<and> f b c = Some r \<and> f b d = Some s \<and> limits = [p, q, r, s])"
  by (auto simp: combine_limits_def split: option.splits)

text \<open>A conversion that succeeds returns the number it converts.\<close>

definition checked_exact :: "'f range_env \<Rightarrow> bool" where
  "checked_exact env \<longleftrightarrow> (\<forall>z w. checked_int64 env z = Some w \<longrightarrow> w = z)"

lemma binOp_int:
  assumes "binOp F f fl db (IntegerRange a b k n) (IntegerRange c d k' n') = Inr r"
    and "\<And>x y w. f x y = Some w \<Longrightarrow> w = g x y"
    and "between (g a y) (g x y) (g b y)" "between (g a c) (g a y) (g a d)" "between (g b c) (g b y) (g b d)"
  shows "r = makeInvalidRange \<or> (\<exists>lo hi. r = IntegerRange lo hi 0 (n \<or> n') \<and> lo \<le> g x y \<and> g x y \<le> hi)"
proof (cases "combine_limits f a b c d")
  case None
  then show ?thesis using assms(1) by (simp add: binOp_def)
next
  case (Some limits)
  then have "limits = [g a c, g a d, g b c, g b d]" using assms(2) unfolding combine_limits_Some by auto
  then have "r = IntegerRange (min (min (g a c) (g a d)) (min (g b c) (g b d)))
      (max (max (g a c) (g a d)) (max (g b c) (g b d))) 0 (n \<or> n')"
    using assms(1) Some by (simp add: binOp_def min_element_4 max_element_4)
  with corners [OF assms(3-5)] show ?thesis by blast
qed

lemma between_add: "a \<le> x \<Longrightarrow> x \<le> b \<Longrightarrow> between (a + y) (x + y) (b + y)" "c \<le> y \<Longrightarrow> y \<le> d \<Longrightarrow> between (x + c) (x + y) (x + d)"
  by (simp_all add: between_def)

lemma between_sub: "a \<le> x \<Longrightarrow> x \<le> b \<Longrightarrow> between (a - y) (x - y) (b - y)" "c \<le> y \<Longrightarrow> y \<le> d \<Longrightarrow> between (x - c) (x - y) (x - d)"
  by (simp_all add: between_def)

lemma between_mult: "a \<le> x \<Longrightarrow> x \<le> b \<Longrightarrow> between (a * y) (x * y) (b * y)"
  by (cases "0 \<le> y") (auto simp: between_def min_def max_def mult_right_mono mult_right_mono_neg intro: order_trans)

lemma between_arith:
  assumes "op \<in> {kPLUS, kMINUS, kMULTIPLY}"
  shows "a \<le> x \<Longrightarrow> x \<le> b \<Longrightarrow> between (int_arith op a y) (int_arith op x y) (int_arith op b y)"
    and "c \<le> y \<Longrightarrow> y \<le> d \<Longrightarrow> between (int_arith op x c) (int_arith op x y) (int_arith op x d)"
  using assms between_add between_sub between_mult between_mult [of c y d x] by (auto simp: mult.commute)

section \<open>Truncating division\<close>

lemma sdiv_uminus_right: "x sdiv (- y) = - (x sdiv (y :: int))"
  by (simp add: signed_divide_int_def)

lemma sdiv_exact: "0 < s \<Longrightarrow> (s * z) sdiv s = (z :: int)"
  by (simp add: signed_divide_int_def sgn_mult abs_mult sgn_mult_abs)

lemma sdiv_mono: "a \<le> x \<Longrightarrow> 0 < y \<Longrightarrow> a sdiv y \<le> x sdiv (y :: int)"
proof (cases "0 \<le> a")
  case True
  assume "a \<le> x" "0 < y"
  then show ?thesis using True by (simp add: sdiv_nonneg zdiv_mono1)
next
  case False
  assume *: "a \<le> x" "0 < y"
  show ?thesis
  proof (cases "0 \<le> x")
    case True
    then have "0 \<le> x sdiv y" "0 \<le> (- a) div y" using * False by (simp_all add: sdiv_nonneg pos_imp_zdiv_nonneg_iff)
    then show ?thesis using * False by (simp add: sdiv_neg)
  next
    case x: False
    have "(- x) div y \<le> (- a) div y" using * by (simp add: zdiv_mono1)
    then show ?thesis using * False x by (simp add: sdiv_neg)
  qed
qed

lemma sdiv_divisor:
  assumes "0 < c" "c \<le> y" "y \<le> d" shows "between (x sdiv c) (x sdiv y) (x sdiv (d :: int))"
proof (cases "0 \<le> x")
  case True
  have "x div d \<le> x div y" "x div y \<le> x div c" using True assms by (simp_all add: zdiv_mono2)
  then show ?thesis using True assms by (simp add: between_def sdiv_nonneg)
next
  case False
  have "(- x) div d \<le> (- x) div y" "(- x) div y \<le> (- x) div c" using False assms by (simp_all add: zdiv_mono2)
  then show ?thesis using False assms by (simp add: between_def sdiv_neg)
qed

lemma between_uminus: "between (- p) (- v) (- q) \<longleftrightarrow> between p v q"
  by (auto simp: between_def)

lemma between_sym: "between p v q \<longleftrightarrow> between q v p"
  by (auto simp: between_def)

lemma between_sdiv:
  assumes "y \<noteq> 0" "a \<le> x" "x \<le> b" shows "between (a sdiv y) (x sdiv y) (b sdiv (y :: int))"
proof (cases "0 < y")
  case True
  then show ?thesis using sdiv_mono [of a x y] sdiv_mono [of x b y] assms by (simp add: between_def)
next
  case False
  then have "0 < - y" using assms(1) by simp
  then show ?thesis
    using sdiv_mono [of a x "- y"] sdiv_mono [of x b "- y"] assms by (simp add: sdiv_uminus_right between_def)
qed

lemma between_sdiv_divisor:
  assumes "0 < c * d" "c \<le> y" "y \<le> d" shows "y \<noteq> 0" "between (x sdiv c) (x sdiv y) (x sdiv (d :: int))"
proof -
  have "0 < c \<or> d < 0" using assms by (auto simp: zero_less_mult_iff)
  then show "y \<noteq> 0" using assms by auto
  show "between (x sdiv c) (x sdiv y) (x sdiv d)"
  proof (cases "0 < c")
    case True
    then show ?thesis using assms sdiv_divisor by blast
  next
    case False
    then have "0 < - d" using \<open>0 < c \<or> d < 0\<close> by simp
    then have "between (x sdiv (- d)) (x sdiv (- y)) (x sdiv (- c))" using assms by (intro sdiv_divisor) simp_all
    then show ?thesis by (simp add: sdiv_uminus_right between_uminus between_sym)
  qed
qed

section \<open>Values in a range\<close>

text \<open>
  A value is \<open>None\<close> if it is NULL.  An invalid range says nothing, nor does a floating-point range say
  anything about integers.
\<close>

fun range_holds :: "'f ExpressionRange \<Rightarrow> int option \<Rightarrow> bool" where
  "range_holds (IntegerRange lo hi b n) v \<longleftrightarrow> (case v of Some x \<Rightarrow> lo \<le> x \<and> x \<le> hi | None \<Rightarrow> n)"
| "range_holds (NullRange n) v \<longleftrightarrow> n \<and> v = None"
| "range_holds _ v \<longleftrightarrow> True"

lemma range_holds_invalid [simp]: "range_holds makeInvalidRange v"
  by (simp add: makeInvalidRange_def)

lemma range_holds_int [simp]:
  "range_holds (makeIntRange lo hi b n) v \<longleftrightarrow> (case v of Some x \<Rightarrow> lo \<le> x \<and> x \<le> hi | None \<Rightarrow> n)"
  by (simp add: makeIntRange_def)

lemma range_holds_setHasNulls: "range_holds r v \<Longrightarrow> range_holds (setHasNulls r) v"
  by (cases r) (auto simp: setHasNulls_def split: option.splits)

lemma setHasNulls_NULL: "range_holds (setHasNulls r) None"
  by (cases r) (auto simp: setHasNulls_def)

lemma is_invalid_iff: "is_invalid r \<longleftrightarrow> (\<exists>n. r = InvalidRange n)"
  by (cases r) (simp_all add: is_invalid_def)

text \<open>The sum, difference and product of ranges hold the values of the operations.\<close>

lemma range_op_sound:
  assumes "checked_exact env" "op \<in> {kPLUS, kMINUS, kMULTIPLY}" "range_op env op r s = Inr t"
    "range_holds r (Some x)" "range_holds s (Some y)"
  shows "range_holds t (Some (int_arith op x y))"
proof (cases "\<exists>a b k n c d k' n'. r = IntegerRange a b k n \<and> s = IntegerRange c d k' n'")
  case True
  then obtain a b k n c d k' n' where rs: "r = IntegerRange a b k n" "s = IntegerRange c d k' n'" by (elim exE conjE)
  have x: "a \<le> x" "x \<le> b" "c \<le> y" "y \<le> d" using assms(4,5) rs by simp_all
  note b = between_arith [OF assms(2)]
  have "t = makeInvalidRange \<or> (\<exists>lo hi. t = IntegerRange lo hi 0 (n \<or> n') \<and> lo \<le> int_arith op x y \<and> int_arith op x y \<le> hi)"
    by (rule binOp_int [OF assms(3) [unfolded range_op_def rs is_invalid_def, simplified]])
      (use assms(1) b x in \<open>simp_all add: checked_exact_def\<close>)
  then show ?thesis by auto
next
  case False
  then show ?thesis using assms(3)
    by (cases r; cases s) (auto simp: range_op_def binOp_def is_invalid_def split: option.splits)
qed

lemma range_op_null:
  assumes "range_op env op r s = Inr t" "range_holds r None \<or> range_holds s None"
  shows "range_holds t None"
  using assms by (cases r; cases s) (auto simp: range_op_def binOp_def is_invalid_def split: option.splits)

lemma range_div_sound:
  assumes "checked_exact env" "range_div env r s = Inr t" "range_holds r (Some x)" "range_holds s (Some y)"
    "\<And>c d k n. s = IntegerRange c d k n \<Longrightarrow> in_s64 (c * d)"
  shows "range_holds t (Some (x sdiv y))"
proof (cases "\<exists>a b k n c d k' n'. r = IntegerRange a b k n \<and> s = IntegerRange c d k' n'")
  case True
  then obtain a b k n c d k' n' where rs: "r = IntegerRange a b k n" "s = IntegerRange c d k' n'" by (elim exE conjE)
  have x: "a \<le> x" "x \<le> b" and y: "c \<le> y" "y \<le> d" using assms(3,4) rs by simp_all
  have w: "s64 (c * d) = c * d" using assms(5) [OF rs(2)] by (rule wrap_s_in_s)
  show ?thesis
  proof (cases "0 < c * d")
    case pos: True
    note b = between_sdiv_divisor [OF pos y]
    define f where "f = (\<lambda>x y. if y = 0 then None else checked_int64 env (x sdiv y))"
    obtain q where q: "binOp (fp env) f (\<lambda>x y. None) (\<lambda>x y. None) r s = Inr q" "t = q \<or> t = setHasNulls q"
      using assms(2) pos w rs by (auto simp: range_div_def f_def rbind_Inr)
    have "q = makeInvalidRange \<or> (\<exists>lo hi. q = IntegerRange lo hi 0 (n \<or> n') \<and> lo \<le> x sdiv y \<and> x sdiv y \<le> hi)"
      by (rule binOp_int [OF q(1) [unfolded rs]])
        (use assms(1) b between_sdiv [OF b(1) x] in \<open>auto simp: checked_exact_def f_def split: if_splits\<close>)
    then have "range_holds q (Some (x sdiv y))" by auto
    then show ?thesis using q(2) range_holds_setHasNulls by blast
  next
    case False
    then show ?thesis using assms(2) w rs by (simp add: range_div_def)
  qed
next
  case False
  then show ?thesis using assms(2) by (cases r; cases s) (auto simp: range_div_def)
qed

lemma range_div_null:
  assumes "range_div env r s = Inr t" "range_holds r None \<or> range_holds s None \<or> g_null_div_by_zero env"
  shows "range_holds t None"
proof (cases "g_null_div_by_zero env")
  case True
  then show ?thesis using assms(1) setHasNulls_NULL
    by (cases r; cases s) (auto simp: range_div_def rbind_Inr split: if_splits)
next
  case False
  then show ?thesis using assms
    by (cases r; cases s) (auto simp: range_div_def rbind_Inr binOp_def split: if_splits option.splits)
qed

lemma range_or_sound:
  assumes "range_or F r s = Inr t" "range_holds r v \<or> range_holds s v"
  shows "range_holds t v"
  using assms by (cases r; cases s) (auto simp: range_or_def split: option.splits)

section \<open>Conditions on a column\<close>

fun qual_compare :: "SQLOps \<Rightarrow> int \<Rightarrow> int \<Rightarrow> bool" where
  "qual_compare kGT x c \<longleftrightarrow> c < x"
| "qual_compare kGE x c \<longleftrightarrow> c \<le> x"
| "qual_compare kLT x c \<longleftrightarrow> x < c"
| "qual_compare kLE x c \<longleftrightarrow> x \<le> c"
| "qual_compare kEQ x c \<longleftrightarrow> x = c"
| "qual_compare _ x c \<longleftrightarrow> True"

lemma sint_bounds: "- (2 ^ (LENGTH('a) - 1)) \<le> sint w \<and> sint w < 2 ^ (LENGTH('a) - 1)" for w :: "'a :: len word"
  using sint_ge [of w] sint_lt [of w] by simp

lemma datum_value_in_s64: "in_s64 (get_value_from_datum_int d t)"
  using sint_bounds [of "ucast d :: 8 word"] sint_bounds [of "ucast d :: 16 word"] sint_bounds [of "ucast d :: 32 word"]
    sint_bounds [of d]
  by (cases t) (simp_all add: get_value_from_datum_int_def in_s_def tinyintval_def smallintval_def intval_def bigintval_def)

lemma apply_int_qual_sound:
  assumes "apply_int_qual d t op r = Inr r'" "range_holds r (Some x)" "qual_compare op x (get_value_from_datum_int d t)"
  shows "range_holds r' (Some x)"
proof -
  define c where "c = get_value_from_datum_int d t"
  have c: "in_s64 c" unfolding c_def by (rule datum_value_in_s64)
  have gt: "s64 (c + 1) \<le> x" if "c < x"
    using c that by (cases "c + 1 = 9223372036854775808") (auto simp: in_s_def wrap_s_def)
  have lt: "x \<le> s64 (c - 1)" if "x < c"
    using c that by (cases "c = - 9223372036854775808") (auto simp: in_s_def wrap_s_def)
  show ?thesis
  proof (cases r)
    case (IntegerRange lo hi b n)
    then show ?thesis using assms gt lt
      by (cases op) (auto simp: apply_int_qual_def Let_def c_def [symmetric] getIntMin_def getIntMax_def setIntMin_def
          setIntMax_def)
  qed (use assms in \<open>cases op; auto simp: apply_int_qual_def Let_def getIntMin_def getIntMax_def setIntMin_def setIntMax_def\<close>)+
qed

lemma apply_int_qual_null:
  assumes "apply_int_qual d t op r = Inr r'" "range_holds r None" shows "range_holds r' None"
  using assms
  by (cases r; cases op) (auto simp: apply_int_qual_def Let_def getIntMin_def getIntMax_def setIntMin_def setIntMax_def)

text \<open>
  What a condition says of a row, which gives the value of the column of a table: a comparison with a
  constant of another precision compares the two times.  A comparison with NULL is never true, and
  nothing is known of a column that is NULL (it may have been added by an outer join).
\<close>

type_synonym row = "int \<Rightarrow> int \<Rightarrow> int option"

definition other_precision :: "SQLTypeInfo \<Rightarrow> SQLTypeInfo \<Rightarrow> bool" where
  "other_precision col_ti const_ti \<longleftrightarrow>
     (is_timestamp col_ti \<or> is_timestamp const_ti) \<and> get_dimension col_ti \<noteq> get_dimension const_ti"

definition qual_true :: "row \<Rightarrow> Expr \<Rightarrow> bool" where
  "qual_true row q =
     (case q of
        BinOper ti op l (Constant const_ti is_null d) \<Rightarrow>
          (case qual_column l of
             None \<Rightarrow> True
           | Some (col_ti, t, c) \<Rightarrow>
               (case row t c of
                  None \<Rightarrow> True
                | Some x \<Rightarrow>
                    let k = get_value_from_datum_int d (get_type const_ti); p = get_dimension col_ti; q = get_dimension const_ti
                    in \<not> is_null \<and> (if other_precision col_ti const_ti
                        then qual_compare op (x * 10 ^ nat (q - p)) (k * 10 ^ nat (p - q)) else qual_compare op x k)))
      | _ \<Rightarrow> True)"

text \<open>
  Conditions with a constant of another precision are handled correctly if the constant is a time
  that the precision of the column can express.
\<close>

definition qual_exact :: "Expr \<Rightarrow> bool" where
  "qual_exact q =
     (case q of
        BinOper ti op l (Constant const_ti is_null d) \<Rightarrow>
          (case qual_column l of
             None \<Rightarrow> True
           | Some (col_ti, t, c) \<Rightarrow>
               other_precision col_ti const_ti \<longrightarrow>
                 (let k = get_value_from_datum_int d (get_type const_ti); p = get_dimension col_ti; q = get_dimension const_ti
                  in is_time const_ti \<and> 10 ^ nat (q - p) dvd k \<and> in_s64 (k * 10 ^ nat (p - q))))
      | _ \<Rightarrow> True)"

lemma precision_scale: "get_timestamp_precision_scale k = Inr s \<Longrightarrow> s = 10 ^ nat k \<and> 0 \<le> k"
  by (auto simp: get_timestamp_precision_scale_def split: if_splits)

lemma bigintval_of_int: "in_s64 x \<Longrightarrow> is_time ti \<Longrightarrow> get_value_from_datum_int (word_of_int x) (get_type ti) = x"
  by (auto simp: get_value_from_datum_int_def is_time_def is_datetime_def bigintval_def in_s_def
      sint_sbintrunc' signed_take_bit_int_eq_self)

lemma qual_compare_scale: "0 < s \<Longrightarrow> qual_compare op (x * s) (y * s) \<longleftrightarrow> qual_compare op x (y :: int)"
  by (cases op) simp_all

lemma apply_hpt_qual_sound:
  assumes "apply_hpt_qual d (get_type const_ti) q p op r = Inr r'" "range_holds r (Some x)" "is_time const_ti"
    and k: "k = get_value_from_datum_int d (get_type const_ti)"
    and "10 ^ nat (q - p) dvd k" "in_s64 (k * 10 ^ nat (p - q))"
    and "qual_compare op (x * 10 ^ nat (q - p)) (k * 10 ^ nat (p - q))"
  shows "range_holds r' (Some x)"
proof (cases "q > p")
  case True
  obtain s where s: "get_timestamp_precision_scale (q - p) = Inr s" "apply_int_qual (word_of_int (k sdiv s)) (get_type const_ti) op r = Inr r'"
    using assms(1) True by (auto simp: apply_hpt_qual_def rbind_Inr k)
  have e: "s = 10 ^ nat (q - p)" using precision_scale [OF s(1)] by simp
  obtain z where z: "k = s * z" using assms(5) unfolding e by (elim dvdE)
  have pos: "0 < s" unfolding e by simp
  have "k sdiv s = z" unfolding z by (rule sdiv_exact [OF pos])
  moreover have "in_s64 z"
  proof -
    have "\<bar>z\<bar> \<le> \<bar>k\<bar>" using pos z mult_right_mono [of 1 s "\<bar>z\<bar>"] by (simp add: abs_mult)
    moreover have "in_s64 k" unfolding k by (rule datum_value_in_s64)
    moreover have "0 \<le> z \<longleftrightarrow> 0 \<le> k" using pos z by (simp add: zero_le_mult_iff)
    ultimately show ?thesis by (auto simp: in_s_def)
  qed
  moreover have "qual_compare op x z"
    using assms(7) True qual_compare_scale [OF pos, of op x z] by (simp add: e [symmetric] z mult.commute)
  ultimately show ?thesis
    using apply_int_qual_sound [OF s(2) assms(2)] bigintval_of_int [OF _ assms(3), of z] by simp
next
  case False
  obtain s where s: "get_timestamp_precision_scale (p - q) = Inr s" "apply_int_qual (word_of_int (s64 (k * s))) (get_type const_ti) op r = Inr r'"
    using assms(1) False by (auto simp: apply_hpt_qual_def rbind_Inr k split: if_splits)
  have e: "s = 10 ^ nat (p - q)" using precision_scale [OF s(1)] by simp
  have w: "in_s64 (k * s)" using assms(6) unfolding e .
  have "qual_compare op x (k * s)" using assms(7) False by (simp add: e)
  then show ?thesis
    using apply_int_qual_sound [OF s(2) assms(2)] bigintval_of_int [OF w assms(3)] wrap_s_in_s [OF w] by simp
qed

lemma apply_hpt_qual_null:
  assumes "apply_hpt_qual d t q p op r = Inr r'" "range_holds r None" shows "range_holds r' None"
  using assms apply_int_qual_null [OF _ assms(2)] by (auto simp: apply_hpt_qual_def rbind_Inr split: if_splits)

lemma apply_fp_qual_sound: "apply_fp_qual F d t op r = Inr r' \<Longrightarrow> range_holds r v \<Longrightarrow> range_holds r' v"
  by (cases r; cases op)
    (auto simp: apply_fp_qual_def Let_def getFpMin_def getFpMax_def setFpMin_def setFpMax_def)

lemma apply_simple_qual_sound:
  assumes "apply_simple_qual F t c q r = Inr r'" "range_holds r (row t c)" "qual_true row q" "qual_exact q"
  shows "range_holds r' (row t c)"
proof (cases "\<exists>ti op l const_ti is_null d col_ti. q = BinOper ti op l (Constant const_ti is_null d) \<and> qual_column l = Some (col_ti, t, c)")
  case False
  then have "r' = r" using assms(1) by (auto simp: apply_simple_qual_def split: Expr.splits option.splits if_splits)
  with assms(2) show ?thesis by simp
next
  case True
  then obtain ti op l const_ti is_null d col_ti
    where q: "q = BinOper ti op l (Constant const_ti is_null d)" "qual_column l = Some (col_ti, t, c)" by (elim exE conjE)
  consider (fp) "apply_fp_qual F d (get_type const_ti) op r = Inr r'"
    | (hpt) "other_precision col_ti const_ti"
        "apply_hpt_qual d (get_type const_ti) (get_dimension const_ti) (get_dimension col_ti) op r = Inr r'"
    | (int) "\<not> other_precision col_ti const_ti" "apply_int_qual d (get_type const_ti) op r = Inr r'"
    using assms(1) q by (auto simp: apply_simple_qual_def other_precision_def split: if_splits)
  then show ?thesis
  proof cases
    case fp
    then show ?thesis using assms(2) by (rule apply_fp_qual_sound)
  next
    case hpt
    then show ?thesis
      using assms(2-4) q apply_hpt_qual_sound [OF hpt(2)] apply_hpt_qual_null [OF hpt(2)]
      by (cases "row t c") (simp_all add: qual_true_def qual_exact_def Let_def)
  next
    case int
    then show ?thesis
      using assms(2,3) q apply_int_qual_sound [OF int(2)] apply_int_qual_null [OF int(2)]
      by (cases "row t c") (simp_all add: qual_true_def Let_def)
  qed
qed

lemma apply_simple_quals_sound:
  assumes "apply_simple_quals F t c qs r = Inr r'" "range_holds r (row t c)" "\<forall>q \<in> set qs. qual_true row q \<and> qual_exact q"
  shows "range_holds r' (row t c)"
  using assms
proof (induction qs arbitrary: r)
  case (Cons q qs)
  then obtain r1 where "apply_simple_qual F t c q r = Inr r1" "apply_simple_quals F t c qs r1 = Inr r'"
    by (auto simp: rbind_Inr)
  then show ?case using Cons apply_simple_qual_sound [of F t c q r r1 row] by auto
qed simp

text \<open>A column that is NULL because of an outer join stays NULL in the range, whatever the conditions.\<close>

lemma apply_simple_qual_null:
  assumes "apply_simple_qual F t c q r = Inr r'" "range_holds r None" shows "range_holds r' None"
  using assms apply_fp_qual_sound apply_hpt_qual_null apply_int_qual_null
  by (fastforce simp: apply_simple_qual_def split: Expr.splits option.splits if_splits)

lemma apply_simple_quals_null:
  assumes "apply_simple_quals F t c qs r = Inr r'" "range_holds r None" shows "range_holds r' None"
  using assms
  by (induction qs arbitrary: r) (auto simp: rbind_Inr dest: apply_simple_qual_null)

section \<open>Columns without a cached range\<close>

text \<open>The fragment with the least or greatest statistic, for a comparison of the fragments that have one.\<close>

definition compares :: "('a \<Rightarrow> bool) \<Rightarrow> ('a \<Rightarrow> int) \<Rightarrow> ('a \<Rightarrow> 'a \<Rightarrow> bool result) \<Rightarrow> bool" where
  "compares has val lt \<longleftrightarrow> (\<forall>x y b. lt x y = Inr b \<longrightarrow> (if has x then has y \<and> b = (val x < val y) else \<not> b))"

lemma min_frag_least:
  assumes "compares has val lt" "min_frag lt f fs = Inr m" "g \<in> set (f # fs)" "has g"
  shows "has m \<and> val m \<le> val g"
proof -
  have "has m \<and> val m \<le> val g" if "min_frag lt s fs = Inr m" "has s \<and> val s \<le> val g \<or> has g \<and> g \<in> set fs" for s
    using that
  proof (induction fs arbitrary: s)
    case (Cons x xs)
    then obtain b where b: "lt x s = Inr b" "min_frag lt (if b then x else s) xs = Inr m" by (auto simp: rbind_Inr)
    have "if has x then has s \<and> b = (val x < val s) else \<not> b" using assms(1) b(1) unfolding compares_def by blast
    then show ?case using Cons.IH [OF b(2)] Cons.prems(2) by (auto split: if_splits)
  qed simp
  from this [OF assms(2)] show ?thesis using assms(3,4) by auto
qed

lemma max_frag_has:
  assumes "compares has val lt" "max_frag lt f fs = Inr m" "has m" shows "has f"
  using assms(2)
proof (induction fs arbitrary: f)
  case Nil
  then show ?case using assms(3) by simp
next
  case (Cons x xs)
  then obtain b where b: "lt f x = Inr b" "max_frag lt (if b then x else f) xs = Inr m" by (auto simp: rbind_Inr)
  show ?case using Cons.IH [OF b(2)] assms(1) b(1) by (auto simp: compares_def split: if_splits)
qed

lemma max_frag_greatest:
  assumes "compares has val lt" "max_frag lt f fs = Inr m" "g \<in> set (f # fs)" "has m"
  shows "val g \<le> val m"
proof -
  have "val g \<le> val m" if "max_frag lt s fs = Inr m" "val g \<le> val s \<or> g \<in> set fs" for s
    using that
  proof (induction fs arbitrary: s)
    case (Cons x xs)
    then obtain b where b: "lt s x = Inr b" "max_frag lt (if b then x else s) xs = Inr m" by (auto simp: rbind_Inr)
    have "has s" using max_frag_has [OF assms(1) Cons.prems(1) assms(4)] .
    then have "b = (val s < val x)" using assms(1) b(1) by (auto simp: compares_def)
    then show ?case using Cons.IH [OF b(2)] Cons.prems(2) by (auto split: if_splits)
  qed simp
  from this [OF assms(2)] show ?thesis using assms(3) by auto
qed

definition stat_value :: "SQLTypeInfo \<Rightarrow> int \<Rightarrow> (ChunkStats \<Rightarrow> Datum) \<Rightarrow> FragmentInfo \<Rightarrow> int" where
  "stat_value col_ti c stat f =
     (case chunkMetadataMap f c of None \<Rightarrow> 0
      | Some md \<Rightarrow> (case extract_from_datum (stat md) col_ti of Inl e \<Rightarrow> 0 | Inr v \<Rightarrow> v))"

lemma compares_stats:
  assumes "\<not> is_fp col_ti"
  shows "compares (\<lambda>f. chunkMetadataMap f c \<noteq> None) (stat_value col_ti c stat) (stat_less F col_ti c stat)"
  unfolding compares_def
proof (intro allI impI)
  fix x y b assume *: "stat_less F col_ti c stat x y = Inr b"
  show "if chunkMetadataMap x c \<noteq> None then chunkMetadataMap y c \<noteq> None \<and> b = (stat_value col_ti c stat x < stat_value col_ti c stat y)
    else \<not> b"
    using * assms
    by (cases "chunkMetadataMap x c"; cases "chunkMetadataMap y c") (auto simp: stat_less_def stat_value_def rbind_Inr)
qed

text \<open>A row of the table: its value of the column is one that the statistics of a fragment allow.\<close>

definition stats_type :: "SQLTypeInfo \<Rightarrow> SQLTypeInfo" where
  "stats_type ti = get_logical_type_info (if is_array ti then get_elem_type ti else ti)"

definition stats_allow :: "SQLTypeInfo \<Rightarrow> ChunkStats \<Rightarrow> int option \<Rightarrow> bool" where
  "stats_allow col_ti md v =
     (case v of
        None \<Rightarrow> stats_has_nulls md
      | Some x \<Rightarrow> (case (extract_from_datum (stats_min md) col_ti, extract_from_datum (stats_max md) col_ti) of
          (Inr lo, Inr hi) \<Rightarrow> lo \<le> x \<and> x \<le> hi | _ \<Rightarrow> False))"

definition leaf_row :: "'f range_env \<Rightarrow> SQLTypeInfo \<Rightarrow> int \<Rightarrow> int \<Rightarrow> bool \<Rightarrow> int option \<Rightarrow> bool" where
  "leaf_row env ti t c is_virtual v \<longleftrightarrow>
     (case find (\<lambda>q. info_table_id q = t) (query_infos env) of
        None \<Rightarrow> True
      | Some q \<Rightarrow>
          TableInfo_getNumTuples (info q) \<noteq> Inr 0 \<and>
          (if is_virtual then list_ex (\<lambda>n. v = Some (int n)) [0..<(case TableInfo_getNumTuples (info q) of Inr n \<Rightarrow> n | Inl e \<Rightarrow> 0)]
           else list_ex (\<lambda>f. \<not> isEmptyPhysicalFragment f \<and>
             (case chunkMetadataMap f c of None \<Rightarrow> False | Some md \<Rightarrow> stats_allow (stats_type ti) md v)) (fragments (info q))))"

lemma column_stats_range_sound:
  assumes "column_stats_range F col_ti min_md max_md n = Inr r"
    "\<And>lo hi x. \<not> is_fp col_ti \<Longrightarrow> v = Some x \<Longrightarrow> extract_from_datum (stats_min min_md) col_ti = Inr lo \<Longrightarrow>
       extract_from_datum (stats_max max_md) col_ti = Inr hi \<Longrightarrow> lo \<le> x \<and> x \<le> hi"
    "v = None \<Longrightarrow> n"
  shows "range_holds r v"
proof (cases "is_fp col_ti")
  case True
  then show ?thesis using assms(1) by (auto simp: column_stats_range_def Let_def makeFloatRange_def makeDoubleRange_def)
next
  case False
  then obtain lo hi where m: "extract_from_datum (stats_min min_md) col_ti = Inr lo" "extract_from_datum (stats_max max_md) col_ti = Inr hi"
    using assms(1) by (auto simp: column_stats_range_def rbind_Inr)
  show ?thesis
    using assms(1,3) assms(2) [OF False _ m] False m
    by (cases v) (auto simp: column_stats_range_def split: if_splits)
qed

lemma leaf_fragments_sound:
  assumes "min_frag (stat_less F col_ti c stats_min) f fs = Inr min_f" "chunkMetadataMap min_f c = Some min_md"
    and "max_frag (stat_less F col_ti c stats_max) f fs = Inr max_f" "chunkMetadataMap max_f c = Some max_md"
    and "column_stats_range F col_ti min_md max_md n = Inr r"
    and g: "g \<in> set (f # fs)" "chunkMetadataMap g c = Some md" "stats_allow col_ti md v" and n: "stats_has_nulls md \<Longrightarrow> n"
  shows "range_holds r v"
proof (rule column_stats_range_sound [OF assms(5)])
  fix lo hi x
  assume nf: "\<not> is_fp col_ti" and x: "v = Some x"
    and m: "extract_from_datum (stats_min min_md) col_ti = Inr lo" "extract_from_datum (stats_max max_md) col_ti = Inr hi"
  have "stat_value col_ti c stats_min min_f \<le> stat_value col_ti c stats_min g"
    using min_frag_least [OF compares_stats [OF nf] assms(1) g(1)] g(2) by simp
  moreover have "stat_value col_ti c stats_max g \<le> stat_value col_ti c stats_max max_f"
    using max_frag_greatest [OF compares_stats [OF nf] assms(3) g(1)] assms(4) by simp
  ultimately show "lo \<le> x \<and> x \<le> hi"
    using g(2,3) x m assms(2,4) by (auto simp: stat_value_def stats_allow_def split: sum.splits)
qed (use g(3) n in \<open>simp add: stats_allow_def\<close>)

lemma leaf_column_sound:
  assumes "getLeafColumnRange env ti t c is_virtual outer = Inr r" "leaf_row env ti t c is_virtual v"
  shows "range_holds r v \<and> (outer \<longrightarrow> range_holds r None)"
proof (cases "is_string (stats_type ti) \<or> is_boolean (stats_type ti) \<or> is_number (stats_type ti) \<or> is_time (stats_type ti)")
  case False
  then show ?thesis using assms(1) by (simp add: getLeafColumnRange_def Let_def stats_type_def)
next
  case True
  define col_ti where "col_ti = stats_type ti"
  note code = assms(1) [unfolded getLeafColumnRange_def Let_def stats_type_def [symmetric] col_ti_def [symmetric]]
  obtain q where q: "find (\<lambda>q. info_table_id q = t) (query_infos env) = Some q"
    using code True by (auto simp: col_ti_def split: if_splits option.splits)
  obtain num where num: "TableInfo_getNumTuples (info q) = Inr num" "num \<noteq> 0"
    using code True q assms(2) by (auto simp: col_ti_def rbind_Inr leaf_row_def split: if_splits)
  show ?thesis
  proof (cases is_virtual)
    case True
    then show ?thesis using code q num assms(2) \<open>_ \<or> _\<close>
      by (auto simp: leaf_row_def list_ex_iff col_ti_def split: if_splits)
  next
    case False
    obtain g md where g: "g \<in> set (fragments (info q))" "\<not> isEmptyPhysicalFragment g" "chunkMetadataMap g c = Some md"
      "stats_allow col_ti md v"
      using assms(2) False q by (auto simp: leaf_row_def list_ex_iff col_ti_def split: option.splits)
    define n where "n = (outer \<or> column_has_nulls c (fragments (info q)))"
    obtain f fs where fs: "filter (\<lambda>f. \<not> isEmptyPhysicalFragment f) (fragments (info q)) = f # fs"
      using g(1,2) by (cases "filter (\<lambda>f. \<not> isEmptyPhysicalFragment f) (fragments (info q))") (auto simp: filter_empty_conv)
    have mem: "g \<in> set (f # fs)" using g(1,2) fs [symmetric] by simp
    have hn: "stats_has_nulls md \<Longrightarrow> n" using g(1,3) by (force simp: n_def column_has_nulls_def list_ex_iff)
    obtain min_f max_f where frags: "min_frag (stat_less (fp env) col_ti c stats_min) f fs = Inr min_f"
      "max_frag (stat_less (fp env) col_ti c stats_max) f fs = Inr max_f"
      using code True q num False fs by (auto simp: col_ti_def rbind_Inr split: if_splits)
    show ?thesis
    proof (cases "chunkMetadataMap min_f c")
      case None
      then show ?thesis using code True q num False fs frags by (auto simp: col_ti_def split: if_splits)
    next
      case (Some min_md)
      obtain max_md where max_md: "chunkMetadataMap max_f c = Some max_md" "column_stats_range (fp env) col_ti min_md max_md n = Inr r"
        using code True q num False fs frags Some by (auto simp: col_ti_def n_def split: if_splits option.splits)
      have "range_holds r v" by (rule leaf_fragments_sound [OF frags(1) Some frags(2) max_md mem g(3,4) hn])
      moreover have "range_holds r None" if outer
        by (rule column_stats_range_sound [OF max_md(2)]) (use that in \<open>simp_all add: n_def\<close>)
      ultimately show ?thesis by blast
    qed
  qed
qed

end
