(* ===== verification/Expression_Values.thy ===== *)
theory Expression_Values
  imports Range_Sound
begin

text \<open>
  The values an expression can take on a row, and that \<open>getExpressionRange\<close> bounds them: its range
  holds every value of the expression, NULL included, on every row that the statistics of the
  columns describe and that satisfies the conditions passed with it.
\<close>

section \<open>The values of an expression\<close>
















section \<open>Each kind of expression\<close>






























section \<open>Every expression\<close>













section \<open>Properties\<close>


text \<open>
  The floating-point operations by integers and the checked arithmetic of 64 bits, a column of times
  with a cached range, and the condition that the time is from 1970 on.
\<close>

definition int_fp :: "int fp_ops" where
  "int_fp = \<lparr>fp_less = (<), fp_eq = (=), floatval_of = sint, doubleval_of = sint, fp_of_int = id, to_float = id,
     float_arith = (\<lambda>op x y. Some (int_arith op x y)), double_arith = (\<lambda>op x y. Some (int_arith op x y)),
     float_quot = (sdiv), double_quot = (sdiv), fp_floor = id, fp_ceil = id\<rparr>"

definition sample_time :: SQLTypeInfo where "sample_time = SQLTypeInfo_dims kTIMESTAMP 0 0 False"

definition sample_env :: "int range_env" where
  "sample_env = \<lparr>fp = int_fp, checked_int64 = (\<lambda>z. if in_s64 z then Some z else None), g_null_div_by_zero = False,
     query_infos = [\<lparr>info_table_id = 1, info = \<lparr>fragments = [], tableNumTuples = 0\<rparr>\<rparr>],
     agg_col_range_cache = (\<lambda>k. if k = (2, 1) then Some (makeIntRange (- 1000000000) 1700000000 0 True) else None),
     contains_left_deep_outer_join = False, getIdOfString = (\<lambda>dict d. 0)\<rparr>"


definition sample_quals :: "Expr list option" where
  "sample_quals = Some [BinOper (SQLTypeInfo_plain kBOOLEAN) kGE (ColumnVar sample_time 1 2 0 False) (Constant sample_time False 0)]"



section \<open>Ranges that are too narrow\<close>

text \<open>
  The limits of a divisor whose product wraps to a positive number: the range of 100 divided by a
  number from -3000000000 to 4000000000 is 0, although 100 divided by 1 is 100.
\<close>

lemma range_div_wraps:
  "range_div sample_env (makeIntRange 100 100 0 False) (makeIntRange (- 3000000000) 4000000000 0 False) = Inr (makeIntRange 0 0 0 False)"
  by code_simp

text \<open>The fields whose range is not that of the value: seconds, days, and fractions of a minute.\<close>

lemma extract_epoch_range:
  "ExtractExpr_range kEPOCH (SQLTypeInfo_dims kTIMESTAMP 3 0 False) (makeIntRange 5000 6000 0 False :: int ExpressionRange) =
     Inr (makeIntRange 5000 6000 0 False) \<and>
   codegenExtract (SQLTypeInfo_dims kTIMESTAMP 3 0 False) kEPOCH 5000 (Some False) = Inr 5"
  by code_simp

lemma extract_dateepoch_range:
  "ExtractExpr_range kDATEEPOCH sample_time (makeIntRange 86401 86402 0 False :: int ExpressionRange) = Inr (makeIntRange 86401 86402 0 False) \<and>
   codegenExtract sample_time kDATEEPOCH 86401 (Some False) = Inr 86400"
  by code_simp

lemma extract_millisecond_range:
  "ExtractExpr_range kMILLISECOND sample_time (makeIntRange 59 59 0 False :: int ExpressionRange) = Inr (makeIntRange 0 999 0 False) \<and>
   codegenExtract sample_time kMILLISECOND 59 (Some False) = Inr 59000"
  by code_simp

text \<open>A condition with a finer constant: \<open>t < 1.5 s\<close> of a column of seconds excludes 1.\<close>

lemma apply_hpt_qual_excludes:
  "apply_hpt_qual 1500 kTIMESTAMP 3 0 kLT (makeIntRange 0 9 0 False :: int ExpressionRange) = Inr (makeIntRange 0 0 0 False) \<and>
   qual_compare kLT (1 * 10 ^ nat (3 - 0)) (1500 * 10 ^ nat (0 - 3))"
  by code_simp

text \<open>Before 1970 the cast to a coarser precision rounds down, the limits are rounded up.\<close>

lemma precision_cast_before_1970:
  "getDateTimePrecisionCastRange (makeIntRange (- 1) (- 1) 0 False :: int ExpressionRange) (SQLTypeInfo_dims kTIMESTAMP 3 0 False) sample_time =
     Inr (makeIntRange 0 0 0 False) \<and>
   codegenCastBetweenTimes (- 1) (SQLTypeInfo_dims kTIMESTAMP 3 0 False) sample_time = Inr (- 1)"
  by code_simp

text \<open>
  The same for the cast to a date, whose limits are the first seconds of their days; and these are
  seconds, while the emitted code returns the number of the day.
\<close>

lemma date_cast_before_1970:
  "getDateTimePrecisionCastRange (makeIntRange (- 1) (- 1) 0 False :: int ExpressionRange) (SQLTypeInfo_dims kTIMESTAMP 3 0 False)
     (SQLTypeInfo_plain kDATE) = Inr (makeIntRange 0 0 86400 False) \<and>
   codegenCastBetweenTimeAndDate (- 1) (SQLTypeInfo_dims kTIMESTAMP 3 0 False) (SQLTypeInfo_plain kDATE) = Inr (- 1)"
  by code_simp

lemma date_cast_in_days:
  "getDateTimePrecisionCastRange (makeIntRange 172800 172800 0 False :: int ExpressionRange) sample_time (SQLTypeInfo_plain kDATE) =
     Inr (makeIntRange 172800 172800 86400 False) \<and>
   codegenCastBetweenTimeAndDate 172800 sample_time (SQLTypeInfo_plain kDATE) = Inr 2"
  by code_simp

text \<open>
  The cast of a decimal to a smaller scale raises 10 to a negative number, which becomes a large
  unsigned one: the power is 0 modulo \<open>2^64\<close>, and so are the limits.
\<close>

lemma exp_to_scale_negative:
  assumes "- 1000 \<le> k" "k < 0" shows "exp_to_scale k = 0"
proof -
  have "((\<lambda>res. u64 (res * 10)) ^^ n) 1 = (10 :: int) ^ n mod 18446744073709551616" for n
    by (induction n) (simp_all add: wrap_u_def mod_simps mult.commute)
  moreover have "(18446744073709551616 :: int) dvd 10 ^ n" if "64 \<le> n" for n
  proof -
    have "(18446744073709551616 :: int) dvd 10 ^ 64" by simp
    then show ?thesis using le_imp_power_dvd [OF that] by (rule dvd_trans)
  qed
  moreover have "u32 k = k + 4294967296"
    using assms mod_add_self2 [of k 4294967296] mod_pos_pos_trivial [of "k + 4294967296" 4294967296] by (simp add: wrap_u_def)
  ultimately show ?thesis using assms by (simp add: exp_to_scale_def)
qed

lemma decimal_cast_to_zero:
  assumes "is_decimal ti" "- 1000 \<le> get_scale ti - get_scale arg_ti" "get_scale ti < get_scale arg_ti"
  shows "cast_range F ti arg_ti (makeIntRange lo hi 0 n) = Inr (makeIntRange 0 0 0 n)"
proof -
  have "\<not> is_timestamp ti" "\<not> SQL_Types.is_date ti"
    using assms(1) by (auto simp: is_decimal_def is_timestamp_def SQL_Types.is_date_def)
  then show ?thesis
    using assms exp_to_scale_negative [of "get_scale ti - get_scale arg_ti"]
    by (simp add: cast_range_def makeIntRange_def Let_def wrap_s_def)
qed

text \<open>The range of a column of an empty table has no NULL, even on the inner side of an outer join.\<close>

lemma empty_table_range:
  "getLeafColumnRange (sample_env\<lparr>query_infos := [\<lparr>info_table_id = 0, info = \<lparr>fragments = [], tableNumTuples = 0\<rparr>\<rparr>]\<rparr>)
     (SQLTypeInfo_plain kINT) 0 2 False True = Inr (makeIntRange 0 (- 1) 0 False)"
  by code_simp

text \<open>A condition on a column whose range is invalid ends in a failed check.\<close>

lemma qual_on_invalid_range:
  "apply_simple_quals int_fp 1 2 (the sample_quals) makeInvalidRange = Inl CheckFailed"
  by code_simp

end
