(* ===== verification/String_Like.thy ===== *)
theory String_Like
  imports SQL_Types "HOL-Library.Sublist"
begin

text \<open>
  \<open>LIKE\<close> and the comparison of strings: the runtime functions of \<open>function/string/StringLike.cpp\<close>, and the
  treatment of constant patterns by \<open>LikeExpr\<close> of \<open>exec/plan/parser/ParserNode.cpp\<close>, which replaces the
  general matching by a search for a substring where the pattern allows it.  A string is the list of
  its bytes; the pointer and the remaining length of the code are the remaining list.
\<close>

section \<open>The runtime functions\<close>

datatype LikeStatus = kLIKE_TRUE | kLIKE_FALSE | kLIKE_ABORT | kLIKE_ERROR

definition lowercase :: "char \<Rightarrow> char" where
  "lowercase c = (let n = (of_char c :: nat) in if 65 \<le> n \<and> n \<le> 90 then char_of (97 + (n - 65)) else c)"

text \<open>The inner and the outer loop of the search for a substring; \<open>f\<close> is applied to the bytes of the string.\<close>

fun compare_at :: "(char \<Rightarrow> char) \<Rightarrow> string \<Rightarrow> string \<Rightarrow> bool" where
  "compare_at f [] s = True"
| "compare_at f (d # p) (c # s) = (d = f c \<and> compare_at f p s)"
| "compare_at f (d # p) [] = False"

primrec simple_search :: "(char \<Rightarrow> char) \<Rightarrow> string \<Rightarrow> nat \<Rightarrow> string \<Rightarrow> bool" where
  "simple_search f p 0 s = False"
| "simple_search f p (Suc n) s = (if compare_at f p s then True else simple_search f p n (tl s))"

definition string_like_simple :: "string \<Rightarrow> string \<Rightarrow> bool" where
  "string_like_simple str pattern =
     simple_search id pattern (nat (int (length str) - int (length pattern) + 1)) str"

definition string_ilike_simple :: "string \<Rightarrow> string \<Rightarrow> bool" where
  "string_ilike_simple str pattern =
     simple_search lowercase pattern (nat (int (length str) - int (length pattern) + 1)) str"

text \<open>
  The parts of \<open>string_like_match\<close>: the wildcards after a \<open>%\<close> (\<open>None\<close> when the string ends), the search of a
  byte in a bracket (whether it was found, and the pattern from there on), the pattern after the
  bracket, and the test of the first byte (\<open>None\<close> when the bracket is not closed).
\<close>

fun skip_wildcards :: "string \<Rightarrow> string \<Rightarrow> (string \<times> string) option" where
  "skip_wildcards s [] = Some (s, [])"
| "skip_wildcards s (d # p) =
     (if d = CHR ''%'' then skip_wildcards s p
      else if d = CHR ''_'' then (case s of [] \<Rightarrow> None | c # s' \<Rightarrow> skip_wildcards s' p)
      else Some (s, d # p))"

primrec bracket_scan :: "char \<Rightarrow> string \<Rightarrow> bool \<times> string" where
  "bracket_scan c [] = (False, [])"
| "bracket_scan c (x # xs) = (if x = CHR '']'' then (False, x # xs) else if c = x then (True, x # xs) else bracket_scan c xs)"

definition bracket_end :: "string \<Rightarrow> string option" where
  "bracket_end xs = (case dropWhile (\<lambda>x. x \<noteq> CHR '']'') xs of [] \<Rightarrow> None | x # p \<Rightarrow> Some p)"

definition first_matches :: "char \<Rightarrow> char \<Rightarrow> string \<Rightarrow> bool option" where
  "first_matches esc c p =
     (let firstpat = (if hd p = esc then p ! 1 else hd p)
      in if firstpat = CHR ''['' \<and> hd p \<noteq> esc
         then (case bracket_scan c (tl p) of (m, rest) \<Rightarrow> if rest = [] then None else Some m)
         else Some (c = firstpat))"

text \<open>The loop over the rest of the string after a \<open>%\<close>.\<close>

primrec like_search :: "(string \<Rightarrow> LikeStatus) \<Rightarrow> (char \<Rightarrow> bool option) \<Rightarrow> string \<Rightarrow> LikeStatus" where
  "like_search rec first [] = kLIKE_ABORT"
| "like_search rec first (c # s) =
     (case first c of
        None \<Rightarrow> kLIKE_ERROR
      | Some m \<Rightarrow>
          if m \<and> rec (c # s) \<noteq> kLIKE_FALSE then rec (c # s) else like_search rec first s)"

lemma skip_wildcards_length: "skip_wildcards s p = Some (s', p') \<Longrightarrow> length p' \<le> length p"
  by (induction s p rule: skip_wildcards.induct) (auto split: if_splits list.splits)

lemma bracket_scan_length: "bracket_scan c p = (b, q) \<Longrightarrow> length q \<le> length p"
  by (induction p) (auto split: if_splits)

lemma bracket_end_length: "bracket_end p = Some q \<Longrightarrow> length q \<le> length p"
  using length_dropWhile_le [of "\<lambda>x. x \<noteq> CHR '']''" p] by (auto simp: bracket_end_def split: list.splits)

function string_like_match :: "(char \<Rightarrow> char) \<Rightarrow> char \<Rightarrow> string \<Rightarrow> string \<Rightarrow> LikeStatus" where
  "string_like_match f esc [] p = (if dropWhile (\<lambda>d. d = CHR ''%'') p = [] then kLIKE_TRUE else kLIKE_ABORT)"
| "string_like_match f esc (c # s) [] = kLIKE_FALSE"
| "string_like_match f esc (c # s) (d # p) =
     (if d = esc then
        (case p of [] \<Rightarrow> kLIKE_ERROR | e # p' \<Rightarrow> if f c \<noteq> e then kLIKE_FALSE else string_like_match f esc s p')
      else if d = CHR ''%'' then
        (case skip_wildcards (c # s) p of
           None \<Rightarrow> kLIKE_ABORT
         | Some (s1, p1) \<Rightarrow>
             if p1 = [] then kLIKE_TRUE
             else if hd p1 = esc \<and> tl p1 = [] then kLIKE_ERROR
             else like_search (\<lambda>s'. string_like_match f esc s' p1) (\<lambda>x. first_matches esc (f x) p1) s1)
      else if d = CHR ''_'' then string_like_match f esc s p
      else if d = CHR ''['' then
        (case bracket_scan (f c) p of
           (False, q) \<Rightarrow> kLIKE_FALSE
         | (True, q) \<Rightarrow> (case bracket_end (tl q) of None \<Rightarrow> kLIKE_ERROR | Some p' \<Rightarrow> string_like_match f esc s p'))
      else if f c \<noteq> d then kLIKE_FALSE
      else string_like_match f esc s p)"
  by pat_completeness auto
termination
  by (relation "measure (\<lambda>(f, esc, s, p). length p)")
    (auto dest!: skip_wildcards_length bracket_scan_length [OF sym] bracket_end_length)

definition string_like :: "string \<Rightarrow> string \<Rightarrow> char \<Rightarrow> bool" where
  "string_like str pattern escape_char = (string_like_match id escape_char str pattern = kLIKE_TRUE)"

definition string_ilike :: "string \<Rightarrow> string \<Rightarrow> char \<Rightarrow> bool" where
  "string_ilike str pattern escape_char = (string_like_match lowercase escape_char str pattern = kLIKE_TRUE)"

fun StringCompare :: "string \<Rightarrow> string \<Rightarrow> int" where
  "StringCompare (c # s) (d # t) = (if c = d then StringCompare s t else int (of_char c) - int (of_char d))"
| "StringCompare (c # s) [] = int (of_char c)"
| "StringCompare [] (d # t) = - int (of_char d)"
| "StringCompare [] [] = 0"

definition string_eq :: "string \<Rightarrow> string \<Rightarrow> bool" where "string_eq lhs rhs \<longleftrightarrow> StringCompare lhs rhs = 0"


section \<open>Constant patterns\<close>

text \<open>The last byte of an empty pattern is undefined; the model stops with an error.\<close>

definition check_like_expr :: "string \<Rightarrow> char \<Rightarrow> unit result" where
  "check_like_expr like_str escape_char =
     (if like_str = [] then Inl StdOutOfRange
      else if last like_str = escape_char then Inl CiderCompileException else Inr ())"

primrec simple_body :: "char \<Rightarrow> char \<Rightarrow> string \<Rightarrow> bool" where
  "simple_body esc prev [] = True"
| "simple_body esc prev (c # cs) =
     (if c \<in> set ''%_[]'' \<and> prev \<noteq> esc then False else simple_body esc c cs)"

definition test_is_simple_expr :: "string \<Rightarrow> char \<Rightarrow> bool" where
  "test_is_simple_expr like_str escape_char =
     (let n = length like_str
      in if n < 2 \<or> like_str ! 0 \<noteq> CHR ''%'' \<or> like_str ! (n - 1) \<noteq> CHR ''%'' then False
         else if like_str ! (n - 2) = escape_char \<and> \<not> (3 \<le> n \<and> like_str ! (n - 3) = escape_char) then False
         else simple_body escape_char (like_str ! 0) (butlast (tl like_str)))"

primrec erase_from :: "char \<Rightarrow> char \<Rightarrow> string \<Rightarrow> string" where
  "erase_from esc prev [] = []"
| "erase_from esc prev (c # cs) =
     (if (c = CHR ''%'' \<or> c = esc) \<and> prev \<noteq> esc then erase_from esc c cs else c # erase_from esc c cs)"

definition erase_cntl_chars :: "string \<Rightarrow> char \<Rightarrow> string" where
  "erase_cntl_chars like_str escape_char = erase_from escape_char (char_of (0 :: nat)) like_str"

text \<open>
  \<open>LikeExpr::get\<close> for a constant pattern: the pattern that is kept, the escape character, whether the
  search for a substring is used, and whether the result is negated.  \<open>escape\<close> is the string after
  \<open>ESCAPE\<close> with its type; the first byte of an empty one is the terminating zero.  \<open>::tolower\<close> is that of
  the C locale.
\<close>

definition LikeExpr_get ::
  "SQLTypeInfo \<Rightarrow> SQLTypeInfo \<Rightarrow> string \<Rightarrow> (SQLTypeInfo \<times> string) option \<Rightarrow> bool \<Rightarrow> bool \<Rightarrow> (string \<times> char \<times> bool \<times> bool) result" where
  "LikeExpr_get arg_ti like_ti pattern escape is_ilike is_not =
     (if \<not> is_string arg_ti then Inl CiderCompileException
      else if \<not> is_string like_ti then Inl CiderCompileException
      else rbind (case escape of
              None \<Rightarrow> Inr (CHR 0x5C)
            | Some (escape_ti, e) \<Rightarrow>
                if \<not> is_string escape_ti then Inl CiderCompileException
                else if length e > 1 then Inl CiderCompileException
                else Inr (case e of [] \<Rightarrow> char_of (0 :: nat) | c # _ \<Rightarrow> c)) (\<lambda>escape_char.
       let pattern = (if is_ilike then map lowercase pattern else pattern)
       in rbind (check_like_expr pattern escape_char) (\<lambda>_.
            let is_simple = test_is_simple_expr pattern escape_char
            in Inr (if is_simple then erase_cntl_chars pattern escape_char else pattern, escape_char, is_simple, is_not))))"

text \<open>The function that is called for a pattern (\<open>is_like\<close> of \<open>StringDictionary.cpp\<close>).\<close>

definition is_like :: "string \<Rightarrow> string \<Rightarrow> bool \<Rightarrow> bool \<Rightarrow> char \<Rightarrow> bool" where
  "is_like str pattern icase is_simple escape =
     (if icase then if is_simple then string_ilike_simple str pattern else string_ilike str pattern escape
      else if is_simple then string_like_simple str pattern else string_like str pattern escape)"

section \<open>What a pattern means\<close>

datatype like_token = Lit char | AnyChar | AnySeq | OneOf string

function like_tokens :: "char \<Rightarrow> string \<Rightarrow> like_token list option" where
  "like_tokens esc [] = Some []"
| "like_tokens esc (d # p) =
     (if d = esc then (case p of [] \<Rightarrow> None | e # p' \<Rightarrow> map_option ((#) (Lit e)) (like_tokens esc p'))
      else if d = CHR ''%'' then map_option ((#) AnySeq) (like_tokens esc p)
      else if d = CHR ''_'' then map_option ((#) AnyChar) (like_tokens esc p)
      else if d = CHR ''['' then
        (case bracket_end p of None \<Rightarrow> None
         | Some p' \<Rightarrow> map_option ((#) (OneOf (takeWhile (\<lambda>x. x \<noteq> CHR '']'') p))) (like_tokens esc p'))
      else map_option ((#) (Lit d)) (like_tokens esc p))"
  by pat_completeness auto
termination
  by (relation "measure (\<lambda>(esc, p). length p)") (auto dest!: bracket_end_length)

fun token_matches :: "char \<Rightarrow> like_token \<Rightarrow> bool" where
  "token_matches c (Lit d) \<longleftrightarrow> c = d"
| "token_matches c (OneOf cs) \<longleftrightarrow> c \<in> set cs"
| "token_matches c _ \<longleftrightarrow> True"

function like_matches :: "(char \<Rightarrow> char) \<Rightarrow> like_token list \<Rightarrow> string \<Rightarrow> bool" where
  "like_matches f [] s \<longleftrightarrow> s = []"
| "like_matches f (t # ts) s \<longleftrightarrow>
     (if t = AnySeq then like_matches f ts s \<or> (case s of [] \<Rightarrow> False | c # s' \<Rightarrow> like_matches f (t # ts) s')
      else (case s of [] \<Rightarrow> False | c # s' \<Rightarrow> token_matches (f c) t \<and> like_matches f ts s'))"
  by pat_completeness auto
termination
  by (relation "measure (\<lambda>(f, ts, s). length ts + length s)") auto

declare like_matches.simps(2) [simp del]

definition like_spec :: "(char \<Rightarrow> char) \<Rightarrow> char \<Rightarrow> string \<Rightarrow> string \<Rightarrow> bool" where
  "like_spec f esc s p = (case like_tokens esc p of None \<Rightarrow> False | Some ts \<Rightarrow> like_matches f ts s)"

lemma like_matches_AnySeq: "like_matches f (AnySeq # ts) s \<longleftrightarrow> (\<exists>t. suffix t s \<and> like_matches f ts t)"
proof (induction s)
  case Nil
  then show ?case by (simp add: like_matches.simps(2))
next
  case (Cons c s)
  have "like_matches f (AnySeq # ts) (c # s) \<longleftrightarrow> like_matches f ts (c # s) \<or> like_matches f (AnySeq # ts) s"
    by (simp add: like_matches.simps(2) [of f AnySeq ts "c # s"])
  then show ?case using Cons by (auto simp: suffix_Cons)
qed

lemma like_matches_one [simp]:
  "t \<noteq> AnySeq \<Longrightarrow> like_matches f (t # ts) [] = False"
  "t \<noteq> AnySeq \<Longrightarrow> like_matches f (t # ts) (c # s) \<longleftrightarrow> token_matches (f c) t \<and> like_matches f ts s"
  by (simp_all add: like_matches.simps(2))

text \<open>The meaning of the first part of a pattern.\<close>

definition wildcard_free :: "char \<Rightarrow> bool" where "wildcard_free esc \<longleftrightarrow> esc \<notin> set ''%_[''"

lemma like_spec_Nil [simp]: "like_spec f esc s [] \<longleftrightarrow> s = []"
  by (simp add: like_spec_def)

lemma like_spec_escape [simp]:
  "like_spec f esc s [esc] = False"
  "like_spec f esc [] (esc # e # p) = False"
  "like_spec f esc (c # s) (esc # e # p) \<longleftrightarrow> f c = e \<and> like_spec f esc s p"
  by (auto simp: like_spec_def split: option.splits)

lemma like_spec_seq: "esc \<noteq> CHR ''%'' \<Longrightarrow> like_spec f esc s (CHR ''%'' # p) \<longleftrightarrow> (\<exists>t. suffix t s \<and> like_spec f esc t p)"
  by (auto simp: like_spec_def like_matches_AnySeq split: option.splits)

lemma like_spec_any:
  assumes "esc \<noteq> CHR ''_''"
  shows "like_spec f esc [] (CHR ''_'' # p) = False" "like_spec f esc (c # s) (CHR ''_'' # p) = like_spec f esc s p"
  using assms by (auto simp: like_spec_def split: option.splits)

lemma like_spec_lit:
  assumes "d \<noteq> esc" "d \<notin> set ''%_[''"
  shows "like_spec f esc [] (d # p) = False" "like_spec f esc (c # s) (d # p) \<longleftrightarrow> f c = d \<and> like_spec f esc s p"
  using assms by (auto simp: like_spec_def split: option.splits)

lemma like_spec_bracket:
  assumes "esc \<noteq> CHR ''[''"
  shows "like_spec f esc [] (CHR ''['' # p) = False"
    "bracket_end p = None \<Longrightarrow> like_spec f esc s (CHR ''['' # p) = False"
    "bracket_end p = Some q \<Longrightarrow> like_spec f esc (c # s) (CHR ''['' # p) \<longleftrightarrow>
       f c \<in> set (takeWhile (\<lambda>x. x \<noteq> CHR '']'') p) \<and> like_spec f esc s q"
  using assms by (auto simp: like_spec_def split: option.splits)

lemma like_spec_empty: "wildcard_free esc \<Longrightarrow> like_spec f esc [] p \<longleftrightarrow> dropWhile (\<lambda>d. d = CHR ''%'') p = []"
proof (induction p)
  case (Cons d p)
  then show ?case
    by (cases "d = CHR ''%''"; cases "d = CHR ''_''"; cases "d = CHR ''[''"; cases "d = esc"; cases p)
      (auto simp: wildcard_free_def like_spec_seq like_spec_any like_spec_bracket like_spec_lit)
qed simp

lemma like_spec_anyE: "esc \<noteq> CHR ''_'' \<Longrightarrow> like_spec f esc t (CHR ''_'' # p) \<Longrightarrow> \<exists>x u. t = x # u \<and> like_spec f esc u p"
  by (cases t) (simp_all add: like_spec_any)

lemma suffix_extend: "suffix t s \<Longrightarrow> \<exists>x. suffix (x # t) (c # s)"
  by (induction s arbitrary: c) (auto simp: suffix_Cons)

text \<open>No end of the string matches the pattern.\<close>

definition no_suffix :: "(char \<Rightarrow> char) \<Rightarrow> char \<Rightarrow> string \<Rightarrow> string \<Rightarrow> bool" where
  "no_suffix f esc s p \<longleftrightarrow> (\<forall>t. suffix t s \<longrightarrow> \<not> like_spec f esc t p)"

lemma no_suffix_seq:
  assumes "esc \<noteq> CHR ''%''" shows "no_suffix f esc s (CHR ''%'' # p) = no_suffix f esc s p"
proof
  assume n: "no_suffix f esc s (CHR ''%'' # p)"
  show "no_suffix f esc s p" unfolding no_suffix_def
  proof (intro allI impI notI)
    fix t assume t: "suffix t s" "like_spec f esc t p"
    from this(2) have "like_spec f esc t (CHR ''%'' # p)" unfolding like_spec_seq [OF assms] by blast
    with n t(1) show False by (simp add: no_suffix_def)
  qed
next
  assume n: "no_suffix f esc s p"
  show "no_suffix f esc s (CHR ''%'' # p)" unfolding no_suffix_def like_spec_seq [OF assms]
    using n suffix_order.trans unfolding no_suffix_def by blast
qed

lemma no_suffix_step:
  assumes "\<And>t. like_spec f esc t p \<Longrightarrow> \<exists>x u. t = x # u \<and> like_spec f esc u q" "no_suffix f esc s q"
  shows "no_suffix f esc (c # s) p"
  unfolding no_suffix_def
proof (intro allI impI notI)
  fix t assume t: "suffix t (c # s)" "like_spec f esc t p"
  then obtain x u where "t = x # u" "like_spec f esc u q" using assms(1) by blast
  moreover from this t(1) have "suffix u s" by (auto simp: suffix_Cons intro: suffix_ConsD)
  ultimately show False using assms(2) by (simp add: no_suffix_def)
qed

lemma no_suffix_any:
  assumes "esc \<noteq> CHR ''_''" shows "no_suffix f esc (c # s) (CHR ''_'' # p) = no_suffix f esc s p"
proof
  assume n: "no_suffix f esc (c # s) (CHR ''_'' # p)"
  show "no_suffix f esc s p" unfolding no_suffix_def
  proof (intro allI impI notI)
    fix t assume t: "suffix t s" "like_spec f esc t p"
    obtain x where "suffix (x # t) (c # s)" using suffix_extend [OF t(1)] by blast
    moreover have "like_spec f esc (x # t) (CHR ''_'' # p)" using t(2) like_spec_any(2) [OF assms] by simp
    ultimately show False using n by (simp add: no_suffix_def)
  qed
qed (rule no_suffix_step [OF like_spec_anyE [OF assms]])

lemma skip_wildcards_spec:
  assumes "wildcard_free esc"
  shows "no_suffix f esc s p = (case skip_wildcards s p of None \<Rightarrow> True | Some q \<Rightarrow> no_suffix f esc (fst q) (snd q))"
proof (induction s p rule: skip_wildcards.induct)
  case (2 s d p)
  have esc: "esc \<noteq> CHR ''%''" "esc \<noteq> CHR ''_''" using assms by (auto simp: wildcard_free_def)
  have nil: "no_suffix f esc [] (CHR ''_'' # p)" using esc by (simp add: no_suffix_def like_spec_any)
  consider (seq) "d = CHR ''%''" | (any) "d = CHR ''_''" | (other) "d \<noteq> CHR ''%''" "d \<noteq> CHR ''_''" by blast
  then show ?case
  proof cases
    case seq
    then show ?thesis using 2(1) [OF seq] no_suffix_seq [OF esc(1)] by simp
  next
    case any
    then show ?thesis using 2(2) nil no_suffix_any [OF esc(2)] by (cases s) simp_all
  qed simp
qed simp

section \<open>The matching is right\<close>

fun like_verdict :: "(char \<Rightarrow> char) \<Rightarrow> char \<Rightarrow> string \<Rightarrow> string \<Rightarrow> LikeStatus \<Rightarrow> bool" where
  "like_verdict f esc s p kLIKE_TRUE \<longleftrightarrow> like_spec f esc s p"
| "like_verdict f esc s p kLIKE_FALSE \<longleftrightarrow> \<not> like_spec f esc s p"
| "like_verdict f esc s p kLIKE_ABORT \<longleftrightarrow> no_suffix f esc s p"
| "like_verdict f esc s p kLIKE_ERROR \<longleftrightarrow> like_tokens esc p = None"

lemma like_verdict_step:
  assumes "\<And>t. like_spec f esc t p \<longleftrightarrow> (\<exists>x u. t = x # u \<and> P x \<and> like_spec f esc u q)" "P c"
    "like_tokens esc q = None \<Longrightarrow> like_tokens esc p = None" "like_verdict f esc s q st"
  shows "like_verdict f esc (c # s) p st"
proof (cases st)
  case kLIKE_ABORT
  then show ?thesis using assms(4) by (auto intro!: no_suffix_step [of f esc p q] simp: assms(1))
qed (use assms in auto)

lemma malformed: "like_tokens esc p = None \<Longrightarrow> \<not> like_spec f esc s p"
  by (simp add: like_spec_def)

lemma like_search_verdict:
  assumes "\<And>t. like_verdict f esc t p (rec t)" "\<And>c. first c = None \<Longrightarrow> like_tokens esc p = None"
    "\<And>c t. first c = Some False \<Longrightarrow> \<not> like_spec f esc (c # t) p" "\<not> like_spec f esc [] p"
  shows "case like_search rec first s of
      kLIKE_TRUE \<Rightarrow> \<not> no_suffix f esc s p | kLIKE_FALSE \<Rightarrow> False
    | kLIKE_ABORT \<Rightarrow> no_suffix f esc s p | kLIKE_ERROR \<Rightarrow> like_tokens esc p = None"
proof (induction s)
  case Nil
  then show ?case using assms(4) by (simp add: no_suffix_def)
next
  case (Cons c s)
  have step: "no_suffix f esc (c # s) p \<longleftrightarrow> \<not> like_spec f esc (c # s) p \<and> no_suffix f esc s p"
    by (auto simp: no_suffix_def suffix_Cons)
  show ?case
  proof (cases "first c")
    case None
    then show ?thesis using assms(2) by simp
  next
    case (Some m)
    show ?thesis
    proof (cases "m \<and> rec (c # s) \<noteq> kLIKE_FALSE")
      case True
      then show ?thesis using Some assms(1) [of "c # s"] step by (cases "rec (c # s)") simp_all
    next
      case False
      have "\<not> like_spec f esc (c # s) p" using False Some assms(3) [of c s] assms(1) [of "c # s"] by (cases m) auto
      then show ?thesis using Cons False Some step by (auto split: LikeStatus.splits)
    qed
  qed
qed

lemma bracket_scan_found:
  assumes "bracket_scan c p = (b, q)"
  shows "bracket_end p \<noteq> None \<Longrightarrow> b \<longleftrightarrow> c \<in> set (takeWhile (\<lambda>x. x \<noteq> CHR '']'') p)"
    "b \<Longrightarrow> bracket_end (tl q) = bracket_end p" "q = [] \<Longrightarrow> bracket_end p = None"
proof -
  have "(bracket_end p \<noteq> None \<longrightarrow> b = (c \<in> set (takeWhile (\<lambda>x. x \<noteq> CHR '']'') p))) \<and>
    (b \<longrightarrow> bracket_end (tl q) = bracket_end p) \<and> (q = [] \<longrightarrow> bracket_end p = None)"
    using assms by (induction p) (auto simp: bracket_end_def split: if_splits)
  then show "bracket_end p \<noteq> None \<Longrightarrow> b \<longleftrightarrow> c \<in> set (takeWhile (\<lambda>x. x \<noteq> CHR '']'') p)"
    "b \<Longrightarrow> bracket_end (tl q) = bracket_end p" "q = [] \<Longrightarrow> bracket_end p = None" by auto
qed

lemma like_bracket_split:
  assumes "esc \<noteq> CHR ''[''" "bracket_end p = Some q"
  shows "like_spec f esc t (CHR ''['' # p) \<longleftrightarrow>
    (\<exists>x u. t = x # u \<and> f x \<in> set (takeWhile (\<lambda>x. x \<noteq> CHR '']'') p) \<and> like_spec f esc u q)"
  using like_spec_bracket(1) [OF assms(1)] like_spec_bracket(3) [OF assms] by (cases t) auto

text \<open>The test of the first byte, for a pattern that does not begin with a wildcard.\<close>

lemma first_matches_verdict:
  assumes "wildcard_free esc" "p = d # q" "d \<notin> {CHR ''%'', CHR ''_''}" "\<not> (d = esc \<and> q = [])"
  shows "first_matches esc (f c) p = None \<Longrightarrow> like_tokens esc p = None"
    "first_matches esc (f c) p = Some False \<Longrightarrow> \<not> like_spec f esc (c # t) p" "\<not> like_spec f esc [] p"
proof -
  have esc: "esc \<noteq> CHR ''%''" "esc \<noteq> CHR ''_''" "esc \<noteq> CHR ''[''" using assms(1) by (auto simp: wildcard_free_def)
  show "\<not> like_spec f esc [] p" using like_spec_empty [OF assms(1)] assms(2,3) by auto
  consider (esc) e r where "d = esc" "q = e # r" | (bracket) "d \<noteq> esc" "d = CHR ''[''" | (lit) "d \<noteq> esc" "d \<notin> set ''%_[''"
    using assms(3,4) by (cases q) auto
  note kinds = this
  show "like_tokens esc p = None" if "first_matches esc (f c) p = None"
    using kinds
  proof cases
    case bracket
    then show ?thesis using that assms(2) bracket_scan_found(3) [of "f c" q]
      by (auto simp: first_matches_def split: prod.splits if_splits)
  qed (use that assms(2) in \<open>auto simp: first_matches_def split: if_splits\<close>)
  show "\<not> like_spec f esc (c # t) p" if "first_matches esc (f c) p = Some False"
    using kinds
  proof cases
    case bracket
    then have "bracket_scan (f c) q = (False, snd (bracket_scan (f c) q))"
      using that assms(2) by (auto simp: first_matches_def split: prod.splits if_splits)
    then show ?thesis using bracket_scan_found(1) like_spec_bracket [OF esc(3)] bracket assms(2) by (cases "bracket_end q") fastforce+
  qed (use that assms(2) like_spec_lit in \<open>auto simp: first_matches_def split: if_splits\<close>)
qed

lemma skip_wildcards_first: "skip_wildcards s p = Some (s1, d # q) \<Longrightarrow> d \<notin> {CHR ''%'', CHR ''_''}"
  by (induction s p rule: skip_wildcards.induct) (simp_all split: if_splits list.splits)

lemma skip_wildcards_tokens:
  assumes "wildcard_free esc" "like_tokens esc q = None"
  shows "skip_wildcards s p = Some (s1, q) \<Longrightarrow> like_tokens esc p = None"
proof (induction s p rule: skip_wildcards.induct)
  case (2 s d p)
  have esc: "esc \<noteq> CHR ''%''" "esc \<noteq> CHR ''_''" using assms(1) by (auto simp: wildcard_free_def)
  consider (seq) "d = CHR ''%''" | (any) "d = CHR ''_''" | (other) "d \<noteq> CHR ''%''" "d \<noteq> CHR ''_''" by blast
  then show ?case
  proof cases
    case seq
    then show ?thesis using 2 esc by simp
  next
    case any
    then show ?thesis using 2 esc by (cases s) simp_all
  next
    case other
    then show ?thesis using 2(3) assms(2) by auto
  qed
qed (use assms in simp)

text \<open>The case of a \<open>%\<close>.\<close>

lemma like_verdict_seq:
  assumes "wildcard_free esc" "\<And>t s1 q. skip_wildcards s p = Some (s1, q) \<Longrightarrow> like_verdict f esc t q (string_like_match f esc t q)"
  shows "like_verdict f esc s (CHR ''%'' # p)
    (case skip_wildcards s p of None \<Rightarrow> kLIKE_ABORT
     | Some (s1, p1) \<Rightarrow> if p1 = [] then kLIKE_TRUE else if hd p1 = esc \<and> tl p1 = [] then kLIKE_ERROR
         else like_search (\<lambda>s'. string_like_match f esc s' p1) (\<lambda>x. first_matches esc (f x) p1) s1)"
proof -
  have esc: "esc \<noteq> CHR ''%''" using assms(1) by (auto simp: wildcard_free_def)
  have seq: "like_spec f esc s (CHR ''%'' # p) \<longleftrightarrow> \<not> no_suffix f esc s p"
    unfolding no_suffix_def like_spec_seq [OF esc] by blast
  note spec = skip_wildcards_spec [OF assms(1), of f s p] and abort = no_suffix_seq [OF esc, of f s p]
  show ?thesis
  proof (cases "skip_wildcards s p")
    case None
    then show ?thesis using spec abort by simp
  next
    case (Some r)
    obtain s1 p1 where r: "r = (s1, p1)" by (cases r)
    have n: "no_suffix f esc s p = no_suffix f esc s1 p1" using spec Some r by simp
    show ?thesis
    proof (cases p1)
      case Nil
      have "\<not> no_suffix f esc s1 p1" unfolding no_suffix_def Nil by (auto intro!: exI [of _ "[]"])
      then show ?thesis using Some r Nil seq n by simp
    next
      case (Cons d q)
      have tok: "like_tokens esc p1 = None \<Longrightarrow> like_tokens esc (CHR ''%'' # p) = None"
        using skip_wildcards_tokens [OF assms(1), of p1 s p s1] Some r esc by simp
      show ?thesis
      proof (cases "d = esc \<and> q = []")
        case True
        then show ?thesis using Some r Cons tok by simp
      next
        case False
        note first = first_matches_verdict [OF assms(1) Cons skip_wildcards_first [OF Some [unfolded r Cons]] False, of f]
        define st where "st = like_search (\<lambda>s'. string_like_match f esc s' p1) (\<lambda>x. first_matches esc (f x) p1) s1"
        have "case st of kLIKE_TRUE \<Rightarrow> \<not> no_suffix f esc s1 p1 | kLIKE_FALSE \<Rightarrow> False
          | kLIKE_ABORT \<Rightarrow> no_suffix f esc s1 p1 | kLIKE_ERROR \<Rightarrow> like_tokens esc p1 = None"
          unfolding st_def by (rule like_search_verdict [OF assms(2) [OF Some [unfolded r]]]) (use first in auto)
        then have "like_verdict f esc s (CHR ''%'' # p) st" using seq n tok abort by (cases st) simp_all
        then show ?thesis using Some r Cons False by (auto simp: st_def)
      qed
    qed
  qed
qed

lemma like_verdict_lit:
  assumes "\<And>t. like_spec f esc t p \<longleftrightarrow> (\<exists>x u. t = x # u \<and> f x = d \<and> like_spec f esc u q)"
    "like_tokens esc q = None \<Longrightarrow> like_tokens esc p = None" "like_verdict f esc s q st"
  shows "like_verdict f esc (c # s) p (if f c \<noteq> d then kLIKE_FALSE else st)"
  using like_verdict_step [where P = "\<lambda>x. f x = d", OF assms(1) _ assms(2,3)] assms(1) by auto

lemma like_verdict_bracket:
  assumes "esc \<noteq> CHR ''[''" "\<And>q. bracket_end p = Some q \<Longrightarrow> like_verdict f esc s q (string_like_match f esc s q)"
  shows "like_verdict f esc (c # s) (CHR ''['' # p)
    (case bracket_scan (f c) p of (False, q) \<Rightarrow> kLIKE_FALSE
     | (True, q) \<Rightarrow> (case bracket_end (tl q) of None \<Rightarrow> kLIKE_ERROR | Some p' \<Rightarrow> string_like_match f esc s p'))"
proof -
  obtain b q where scan: "bracket_scan (f c) p = (b, q)" by (cases "bracket_scan (f c) p")
  note found = bracket_scan_found [OF scan]
  show ?thesis
  proof (cases "bracket_end p")
    case None
    then show ?thesis using scan found(2) assms(1) like_spec_bracket(2) [OF assms(1)] by (cases b) simp_all
  next
    case (Some p')
    note split = like_bracket_split [OF assms(1) Some]
    have b: "b \<longleftrightarrow> f c \<in> set (takeWhile (\<lambda>x. x \<noteq> CHR '']'') p)" using found(1) Some by simp
    show ?thesis
    proof (cases b)
      case True
      have "like_verdict f esc (c # s) (CHR ''['' # p) (string_like_match f esc s p')"
        by (rule like_verdict_step [OF split]) (use True b Some assms in simp_all)
      then show ?thesis using scan True found(2) Some by simp
    next
      case False
      then show ?thesis using scan b split by simp
    qed
  qed
qed

lemma string_like_match_verdict:
  assumes "wildcard_free esc" shows "like_verdict f esc s p (string_like_match f esc s p)"
proof (induction p arbitrary: s rule: length_induct)
  case (1 p)
  then have IH: "like_verdict f esc t q (string_like_match f esc t q)" if "length q < length p" for t q using that by blast
  have esc: "esc \<noteq> CHR ''%''" "esc \<noteq> CHR ''_''" "esc \<noteq> CHR ''[''" using assms by (auto simp: wildcard_free_def)
  show ?case
  proof (cases "s = [] \<or> p = []")
    case True
    then show ?thesis using like_spec_empty [OF assms, of f p] by (cases s) (auto simp: no_suffix_def)
  next
    case False
    then obtain c s' d r where sp: "s = c # s'" "p = d # r" by (auto simp: neq_Nil_conv)
    consider (esc_end) "d = esc" "r = []" | (esc) e q where "d = esc" "r = e # q" | (seq) "d \<noteq> esc" "d = CHR ''%''"
      | (any) "d \<noteq> esc" "d = CHR ''_''" | (bracket) "d \<noteq> esc" "d = CHR ''[''" | (lit) "d \<noteq> esc" "d \<notin> set ''%_[''"
      by (cases r) auto
    then show ?thesis
    proof cases
      case (esc e q)
      have "like_verdict f esc (c # s') (esc # e # q) (if f c \<noteq> e then kLIKE_FALSE else string_like_match f esc s' q)"
      proof (rule like_verdict_lit)
        show "like_spec f esc t (esc # e # q) \<longleftrightarrow> (\<exists>x u. t = x # u \<and> f x = e \<and> like_spec f esc u q)" for t by (cases t) auto
      qed (use IH sp esc in auto)
      then show ?thesis using sp esc by simp
    next
      case seq
      have "like_verdict f esc t q (string_like_match f esc t q)" if "skip_wildcards s r = Some (s1, q)" for t s1 q
        using skip_wildcards_length [OF that] sp by (intro IH) simp
      from like_verdict_seq [OF assms this, of s r, simplified sp(1)] show ?thesis unfolding sp using seq by simp
    next
      case any
      have "like_verdict f esc (c # s') (CHR ''_'' # r) (string_like_match f esc s' r)"
      proof (rule like_verdict_step [where P = "\<lambda>x. True" and q = r])
        show "like_spec f esc t (CHR ''_'' # r) \<longleftrightarrow> (\<exists>x u. t = x # u \<and> True \<and> like_spec f esc u r)" for t
          using like_spec_any [OF esc(2)] by (cases t) auto
      qed (use IH sp esc in auto)
      then show ?thesis using sp any esc by simp
    next
      case bracket
      have "like_verdict f esc s' q (string_like_match f esc s' q)" if "bracket_end r = Some q" for q
        using bracket_end_length [OF that] sp by (intro IH) simp
      from like_verdict_bracket [OF esc(3) this] show ?thesis using sp bracket by simp
    next
      case lit
      have "like_verdict f esc (c # s') (d # r) (if f c \<noteq> d then kLIKE_FALSE else string_like_match f esc s' r)"
      proof (rule like_verdict_lit)
        show "like_spec f esc t (d # r) \<longleftrightarrow> (\<exists>x u. t = x # u \<and> f x = d \<and> like_spec f esc u r)" for t
          using like_spec_lit [OF lit] by (cases t) auto
      qed (use IH sp lit in auto)
      then show ?thesis using sp lit by simp
    qed (use sp in simp)
  qed
qed

lemma string_like_match_true: "wildcard_free esc \<Longrightarrow> string_like_match f esc s p = kLIKE_TRUE \<longleftrightarrow> like_spec f esc s p"
proof -
  assume "wildcard_free esc"
  from string_like_match_verdict [OF this, of f s p] show ?thesis
    using malformed [of esc p f s] by (cases "string_like_match f esc s p") (auto simp: no_suffix_def)
qed

section \<open>The search for a substring\<close>

lemma compare_at_prefix: "compare_at f p s \<longleftrightarrow> prefix p (map f s)"
  by (induction f p s rule: compare_at.induct) auto

lemma simple_search_suffix:
  "n = nat (int (length s) - int (length p) + 1) \<Longrightarrow> simple_search f p n s \<longleftrightarrow> (\<exists>t. suffix t s \<and> prefix p (map f t))"
proof (induction n arbitrary: s)
  case 0
  have "\<not> prefix p (map f t)" if "suffix t s" for t
  proof
    assume "prefix p (map f t)"
    then have "length p \<le> length t" using prefix_length_le by fastforce
    then show False using suffix_length_le [OF that] 0 by simp
  qed
  then show ?case by auto
next
  case (Suc n)
  show ?case
  proof (cases s)
    case Nil
    then have "p = []" using Suc.prems by (cases p) auto
    then show ?thesis by (auto simp: Nil)
  next
    case (Cons c s')
    have "n = nat (int (length s') - int (length p) + 1)" using Suc.prems Cons by simp
    from Suc.IH [OF this] show ?thesis by (auto simp: Cons compare_at_prefix suffix_Cons)
  qed
qed

lemma like_matches_lits: "like_matches f (map Lit e @ [AnySeq]) t \<longleftrightarrow> prefix e (map f t)"
proof (induction e arbitrary: t)
  case Nil
  have "suffix [] t" by simp
  then show ?case by (auto simp: like_matches_AnySeq)
next
  case (Cons d e)
  then show ?case by (cases t) auto
qed

text \<open>No escape character follows another one.\<close>

definition no_double_escape :: "char \<Rightarrow> string \<Rightarrow> bool" where
  "no_double_escape esc p \<longleftrightarrow> successively (\<lambda>a b. \<not> (a = esc \<and> b = esc)) p"

lemma erase_from_tokens:
  assumes "wildcard_free esc" "prev \<noteq> esc" "simple_body esc prev cs" "no_double_escape esc cs" "cs = [] \<or> last cs \<noteq> esc"
  shows "like_tokens esc (cs @ ''%'') = Some (map Lit (erase_from esc prev (cs @ ''%'')) @ [AnySeq])"
  using assms(2-)
proof (induction cs arbitrary: prev rule: length_induct)
  case (1 cs)
  have esc: "esc \<noteq> CHR ''%''" using assms(1) by (auto simp: wildcard_free_def)
  have IH: "like_tokens esc (q @ ''%'') = Some (map Lit (erase_from esc x (q @ ''%'')) @ [AnySeq])"
    if "length q < length cs" "x \<noteq> esc" "simple_body esc x q" "no_double_escape esc q" "q = [] \<or> last q \<noteq> esc" for x q
    using 1(1) that by blast
  show ?case
  proof (cases cs)
    case Nil
    then show ?thesis using 1(2) esc by simp
  next
    case (Cons c r)
    show ?thesis
    proof (cases "c = esc")
      case True
      then obtain e q where r: "r = e # q" using 1(5) Cons by (cases r) auto
      have e: "e \<noteq> esc" "simple_body esc e q" "no_double_escape esc q" "q = [] \<or> last q \<noteq> esc"
        using 1(3-5) Cons r True by (auto simp: no_double_escape_def successively_Cons split: if_splits)
      have "like_tokens esc (q @ ''%'') = Some (map Lit (erase_from esc e (q @ ''%'')) @ [AnySeq])"
        by (rule IH [OF _ e]) (simp add: Cons r)
      then show ?thesis using Cons r True 1(2) by simp
    next
      case False
      have c: "c \<notin> set ''%_[]''" "simple_body esc c r" "no_double_escape esc r" "r = [] \<or> last r \<noteq> esc"
        using 1(2-5) Cons by (auto simp: no_double_escape_def successively_Cons split: if_splits)
      have "like_tokens esc (r @ ''%'') = Some (map Lit (erase_from esc c (r @ ''%'')) @ [AnySeq])"
        by (rule IH [OF _ False c(2-4)]) (simp add: Cons)
      then show ?thesis using Cons False c(1) by simp
    qed
  qed
qed

lemma simple_pattern_tokens:
  assumes "wildcard_free esc" "esc \<noteq> char_of (0 :: nat)" "test_is_simple_expr p esc" "no_double_escape esc p"
  shows "like_tokens esc p = Some (AnySeq # map Lit (erase_cntl_chars p esc) @ [AnySeq])"
proof -
  have esc: "esc \<noteq> CHR ''%''" using assms(1) by (auto simp: wildcard_free_def)
  define cs where "cs = butlast (tl p)"
  have n: "2 \<le> length p" "p ! 0 = CHR ''%''" "p ! (length p - 1) = CHR ''%''"
    "\<not> (p ! (length p - 2) = esc \<and> \<not> (3 \<le> length p \<and> p ! (length p - 3) = esc))" "simple_body esc (CHR ''%'') cs"
    using assms(3) by (auto simp: test_is_simple_expr_def Let_def cs_def split: if_splits)
  have p: "p = CHR ''%'' # cs @ ''%''"
  proof -
    obtain q where q: "p = CHR ''%'' # q" using n(1,2) by (cases p) auto
    then have "q \<noteq> []" "last q = CHR ''%''" using n(1,3) by (auto simp: last_conv_nth nth_Cons' split: if_splits)
    then show ?thesis using q append_butlast_last_id [of q] by (simp add: cs_def)
  qed
  have d: "no_double_escape esc cs"
    using assms(4) unfolding p by (auto simp: no_double_escape_def successively_Cons successively_append_iff)
  have l: "cs = [] \<or> last cs \<noteq> esc"
  proof (rule ccontr)
    assume "\<not> ?thesis"
    then have ne: "cs \<noteq> []" and e: "last cs = esc" by auto
    have "p ! (length p - 2) = last cs" using ne by (simp add: p nth_append last_conv_nth nth_Cons')
    with n(4) e have "3 \<le> length p" "p ! (length p - 3) = esc" by auto
    moreover obtain a where a: "cs = a @ [esc]" using ne e append_butlast_last_id by metis
    ultimately have "last (CHR ''%'' # a) = esc" by (cases a rule: rev_cases) (auto simp: p nth_append)
    then have "a \<noteq> []" "last a = esc" using esc by (auto split: if_splits)
    then show False using d unfolding a by (simp add: no_double_escape_def successively_append_iff)
  qed
  have "erase_cntl_chars p esc = erase_from esc (CHR ''%'') (cs @ ''%'')"
    using assms(2) by (simp add: erase_cntl_chars_def p)
  then show ?thesis
    using erase_from_tokens [OF assms(1) esc [symmetric] n(5) d l] esc unfolding p by simp
qed

lemma simple_pattern_search:
  assumes "wildcard_free esc" "esc \<noteq> char_of (0 :: nat)" "test_is_simple_expr p esc" "no_double_escape esc p"
  shows "simple_search f (erase_cntl_chars p esc) (nat (int (length s) - int (length (erase_cntl_chars p esc)) + 1)) s \<longleftrightarrow>
    like_spec f esc s p"
  unfolding simple_search_suffix [OF refl] like_spec_def simple_pattern_tokens [OF assms]
  by (simp add: like_matches_AnySeq like_matches_lits)

section \<open>Upper and lower case\<close>

definition letter :: "char \<Rightarrow> bool" where
  "letter c \<longleftrightarrow> (let n = (of_char c :: nat) in (65 \<le> n \<and> n \<le> 90) \<or> (97 \<le> n \<and> n \<le> 122))"

fun lower_token :: "like_token \<Rightarrow> like_token" where
  "lower_token (Lit c) = Lit (lowercase c)"
| "lower_token (OneOf cs) = OneOf (map lowercase cs)"
| "lower_token t = t"

lemma lowercase_eq: "\<not> letter x \<Longrightarrow> lowercase c = x \<longleftrightarrow> c = x"
  by (auto simp: letter_def lowercase_def Let_def of_char_of)

lemma special_lower [simp]:
  "lowercase c = CHR ''%'' \<longleftrightarrow> c = CHR ''%''" "lowercase c = CHR ''_'' \<longleftrightarrow> c = CHR ''_''"
  "lowercase c = CHR ''['' \<longleftrightarrow> c = CHR ''[''" "lowercase c = CHR '']'' \<longleftrightarrow> c = CHR '']''"
  by (rule lowercase_eq; simp add: letter_def)+

lemma bracket_end_lower: "bracket_end (map lowercase p) = map_option (map lowercase) (bracket_end p)"
proof -
  define d where "d = dropWhile (\<lambda>x. x \<noteq> CHR '']'') p"
  show ?thesis
    unfolding bracket_end_def dropWhile_map comp_def special_lower d_def [symmetric] by (cases d) simp_all
qed

lemma like_tokens_lower:
  assumes "\<not> letter esc"
  shows "like_tokens esc (map lowercase p) = map_option (map lower_token) (like_tokens esc p)"
proof (induction p rule: length_induct)
  case (1 p)
  then have IH: "like_tokens esc (map lowercase q) = map_option (map lower_token) (like_tokens esc q)" if "length q < length p" for q
    using that by blast
  show ?case
  proof (cases p)
    case (Cons d r)
    note IHr = IH [of r, unfolded Cons, simplified]
    show ?thesis
    proof (cases "d = esc")
      case True
      then show ?thesis using IH lowercase_eq [OF assms, of d] Cons
        by (cases r) (auto simp: option.map_comp o_def)
    next
      case False
      then have esc: "lowercase d \<noteq> esc" using lowercase_eq [OF assms] by simp
      show ?thesis
      proof (cases "d = CHR ''['' \<and> bracket_end r \<noteq> None")
        case True
        then obtain q where q: "bracket_end r = Some q" by auto
        have "length q < length p" using bracket_end_length [OF q] Cons by simp
        from IH [OF this] show ?thesis using True esc False q Cons
          by (simp add: bracket_end_lower takeWhile_map o_def option.map_comp)
      next
        case other: False
        then show ?thesis using IHr esc False Cons by (auto simp: bracket_end_lower option.map_comp o_def)
      qed
    qed
  qed simp
qed

section \<open>Comparison\<close>



section \<open>Properties\<close>

text \<open>
  C8: \<open>string_like\<close> and \<open>string_ilike\<close> return what the pattern means, for every string and pattern and every
  escape character but the wildcards: \<open>%\<close> stands for any sequence of bytes, \<open>_\<close> for any byte, brackets
  for one of the bytes inside, an escaped byte for itself; a pattern that ends in an escape character or
  leaves a bracket open matches nothing.  Giving up early (\<open>kLIKE_ABORT\<close>) misses no match.
\<close>

theorem string_like_correct:
  assumes "wildcard_free esc"
  shows "(string_like s p esc \<longleftrightarrow> like_spec id esc s p) \<and> (string_ilike s p esc \<longleftrightarrow> like_spec lowercase esc s p)"
  using string_like_match_true [OF assms] by (simp add: string_like_def string_ilike_def)

theorem string_like_correct_witness:
  "string_like ''scan_table 42'' ''s%[uvt]able _2'' (CHR 0x5C) \<and> like_spec id (CHR 0x5C) ''scan_table 42'' ''s%[uvt]able _2''"
proof -
  have "wildcard_free (CHR 0x5C)" by code_simp
  moreover have "string_like ''scan_table 42'' ''s%[uvt]able _2'' (CHR 0x5C)" by code_simp
  ultimately show ?thesis using string_like_correct [of "CHR 0x5C" "''scan_table 42''" "''s%[uvt]able _2''"] by blast
qed

text \<open>
  The value of \<open>LIKE\<close> and \<open>ILIKE\<close> for a constant pattern, with the pattern as the query has it.
\<close>

definition like_value :: "bool \<Rightarrow> char \<Rightarrow> string \<Rightarrow> string \<Rightarrow> bool" where
  "like_value icase esc str pattern =
     (case like_tokens esc pattern of
        None \<Rightarrow> False
      | Some ts \<Rightarrow> if icase then like_matches lowercase (map lower_token ts) str else like_matches id ts str)"

lemma like_expression_value:
  assumes "LikeExpr_get arg_ti like_ti pattern escape is_ilike is_not = Inr (p, esc, simple, negated)" "wildcard_free esc"
    "simple \<longrightarrow> esc \<noteq> char_of (0 :: nat) \<and> no_double_escape esc pattern" "is_ilike \<longrightarrow> \<not> letter esc"
  shows "is_like str p is_ilike simple esc \<longleftrightarrow> like_value is_ilike esc str pattern"
proof -
  define q where "q = (if is_ilike then map lowercase pattern else pattern)"
  define f where "f = (if is_ilike then lowercase else id)"
  have simple: "simple = test_is_simple_expr q esc" and p: "p = (if simple then erase_cntl_chars q esc else q)"
    using assms(1) by (auto simp: LikeExpr_get_def rbind_Inr Let_def q_def split: if_splits)
  have val: "like_value is_ilike esc str pattern = like_spec f esc str q"
    using assms(4) like_tokens_lower [of esc pattern]
    by (auto simp: like_value_def like_spec_def q_def f_def split: option.splits)
  show ?thesis
  proof (cases simple)
    case True
    have "no_double_escape esc q" using assms(3,4) True lowercase_eq [of esc]
      by (auto simp: no_double_escape_def q_def successively_map)
    then have "simple_search f p (nat (int (length str) - int (length p) + 1)) str = like_spec f esc str q"
      using simple_pattern_search [OF assms(2), of q f str] assms(3) True simple p by simp
    then show ?thesis using True val
      by (simp add: is_like_def string_like_simple_def string_ilike_simple_def f_def split: if_splits)
  next
    case False
    then show ?thesis using p val string_like_match_true [OF assms(2), of f str q]
      by (simp add: is_like_def string_like_def string_ilike_def f_def split: if_splits)
  qed
qed

text \<open>
  C28: the expression that \<open>LikeExpr::get\<close> builds from a constant pattern has the value of the \<open>LIKE\<close> or \<open>ILIKE\<close>,
  or its negation, of the query, whether it searches a substring (with the control characters erased)
  or matches the pattern, provided that the escape character is no wildcard and, for \<open>ILIKE\<close>, no letter,
  and that a pattern that is searched as a substring has no escaped escape character and an escape
  character other than the zero byte.  \<open>simple_double_escape\<close> and \<open>ilike_escape_lost\<close> below show that the value is wrong without
  the provisos on doubled escapes and letters.
\<close>

theorem like_constant_pattern:
  assumes "LikeExpr_get arg_ti like_ti pattern escape is_ilike is_not = Inr (p, esc, simple, negated)" "wildcard_free esc"
    "simple \<longrightarrow> esc \<noteq> char_of (0 :: nat) \<and> no_double_escape esc pattern" "is_ilike \<longrightarrow> \<not> letter esc"
  shows "(is_like str p is_ilike simple esc \<noteq> negated) \<longleftrightarrow> (like_value is_ilike esc str pattern \<noteq> is_not)"
proof -
  have "negated = is_not" using assms(1) by (auto simp: LikeExpr_get_def rbind_Inr Let_def split: if_splits)
  then show ?thesis using like_expression_value [OF assms] by simp
qed

theorem like_constant_pattern_witness:
  "LikeExpr_get (SQLTypeInfo_plain kTEXT) (SQLTypeInfo_plain kTEXT) ''%50!%oFF%'' (Some (SQLTypeInfo_plain kTEXT, ''!'')) True True =
     Inr (''50%off'', CHR ''!'', True, True) \<and>
   is_like ''Now 50%OFF all'' ''50%off'' True True (CHR ''!'') \<and> like_value True (CHR ''!'') ''Now 50%OFF all'' ''%50!%oFF%''"
proof -
  have g: "LikeExpr_get (SQLTypeInfo_plain kTEXT) (SQLTypeInfo_plain kTEXT) ''%50!%oFF%'' (Some (SQLTypeInfo_plain kTEXT, ''!'')) True True =
    Inr (''50%off'', CHR ''!'', True, True)" by code_simp
  have e: "wildcard_free (CHR ''!'')" "CHR ''!'' \<noteq> char_of (0 :: nat)" "no_double_escape (CHR ''!'') ''%50!%oFF%''" "\<not> letter (CHR ''!'')"
    by code_simp+
  have "is_like ''Now 50%OFF all'' ''50%off'' True True (CHR ''!'')" by code_simp
  then show ?thesis using like_constant_pattern [OF g e(1), of "''Now 50%OFF all''"] e(2-4) g by blast
qed



text \<open>
  An escaped escape character before the closing \<open>%\<close>: the \<open>%\<close> is kept in the substring, so a string
  that contains the escape character and matches the pattern is not found.
\<close>

lemma simple_double_escape:
  "LikeExpr_get (SQLTypeInfo_plain kTEXT) (SQLTypeInfo_plain kTEXT) [CHR ''%'', CHR 0x5C, CHR 0x5C, CHR ''%''] None False False =
     Inr ([CHR 0x5C, CHR ''%''], CHR 0x5C, True, False) \<and>
   \<not> is_like [CHR ''a'', CHR 0x5C, CHR ''b''] [CHR 0x5C, CHR ''%''] False True (CHR 0x5C) \<and>
   like_value False (CHR 0x5C) [CHR ''a'', CHR 0x5C, CHR ''b''] [CHR ''%'', CHR 0x5C, CHR 0x5C, CHR ''%'']"
  by code_simp

text \<open>\<open>ILIKE\<close> with a capital letter as escape character: the pattern is lower case, the escape character is not.\<close>

lemma ilike_escape_lost:
  "LikeExpr_get (SQLTypeInfo_plain kTEXT) (SQLTypeInfo_plain kTEXT) ''50X%'' (Some (SQLTypeInfo_plain kTEXT, ''X'')) True False =
     Inr (''50x%'', CHR ''X'', False, False) \<and>
   \<not> is_like ''50%'' ''50x%'' True False (CHR ''X'') \<and> like_value True (CHR ''X'') ''50%'' ''50X%''"
  by code_simp

text \<open>A zero byte at the end does not count: two different strings are equal.\<close>

lemma string_eq_zero_byte: "string_eq ''a'' [CHR ''a'', char_of (0 :: nat)]"
  by code_simp

end
