(* ===== verification/Top_K.thy ===== *)
theory Top_K
  imports Cider_Prelude "HOL-Library.Multiset"
begin

text \<open>
  The \<open>k\<close> best rows of \<open>ORDER BY ... LIMIT k\<close>, \<open>function/scalar/TopKRuntime.cpp\<close>, for 64-bit integer keys.
  The buffer is the list of its 64-bit words: first one counter per thread, then the heaps of the
  threads, \<open>k\<close> row numbers each, then their rows, \<open>row_size_quad\<close> words each; a row holds its number in
  the first word and its key in the word \<open>key_offset / 8\<close>.
\<close>

section \<open>The code\<close>

datatype HeapOrdering = HeapMIN | HeapMAX
datatype NullsOrdering = NullsFIRST | NullsLAST

record KeyComparator =
  heap_ordering :: HeapOrdering
  has_nulls :: bool
  null_key :: int
  nulls_ordering :: NullsOrdering

definition compare :: "KeyComparator \<Rightarrow> int \<Rightarrow> int \<Rightarrow> bool" where
  "compare c lhs rhs =
     (let by_key = (if heap_ordering c = HeapMIN then lhs < rhs else lhs > rhs)
      in if has_nulls c then
           if nulls_ordering c = NullsFIRST
           then if rhs = null_key c then True else if lhs = null_key c then False else by_key
           else if lhs = null_key c then True else if rhs = null_key c then False else by_key
         else by_key)"

text \<open>Where a thread finds its counter, its heap and its rows, and the key in a row.\<close>

record KeyAccessor =
  node_ptr :: nat
  heap_ptr :: nat
  rows_ptr :: nat
  row_size_quad :: nat
  key_index :: nat

definition KeyAccessor_get :: "KeyAccessor \<Rightarrow> int list \<Rightarrow> int \<Rightarrow> int" where
  "KeyAccessor_get a buff rowid = buff ! (rows_ptr a + row_size_quad a * nat rowid + key_index a)"

definition swap_nodes :: "KeyAccessor \<Rightarrow> nat \<Rightarrow> nat \<Rightarrow> int list \<Rightarrow> int list" where
  "swap_nodes a i j buff =
     buff[heap_ptr a + i := buff ! (heap_ptr a + j), heap_ptr a + j := buff ! (heap_ptr a + i)]"

definition node_key :: "KeyAccessor \<Rightarrow> int list \<Rightarrow> nat \<Rightarrow> int" where
  "node_key a buff i = KeyAccessor_get a buff (buff ! (heap_ptr a + i))"

definition sift_candidate :: "KeyComparator \<Rightarrow> KeyAccessor \<Rightarrow> nat \<Rightarrow> nat \<Rightarrow> int list \<Rightarrow> nat" where
  "sift_candidate c a last_idx i buff =
     (let left_child = min (2 * i + 1) last_idx;
          right_child = min (2 * i + 2) last_idx
      in if left_child < last_idx then
           if right_child < last_idx
           then if compare c (node_key a buff left_child) (node_key a buff right_child) then left_child else right_child
           else left_child
         else right_child)"

lemma sift_candidate_greater: "i < last_idx \<Longrightarrow> i < sift_candidate c a last_idx i buff"
  by (auto simp: sift_candidate_def Let_def)

function sift_down :: "KeyComparator \<Rightarrow> KeyAccessor \<Rightarrow> nat \<Rightarrow> nat \<Rightarrow> int list \<Rightarrow> int list" where
  "sift_down c a heap_size i buff =
     (if i < heap_size then
        if heap_size \<le> sift_candidate c a heap_size i buff then buff
        else if compare c (node_key a buff i) (node_key a buff (sift_candidate c a heap_size i buff)) then buff
        else sift_down c a heap_size (sift_candidate c a heap_size i buff)
               (swap_nodes a i (sift_candidate c a heap_size i buff) buff)
      else buff)"
  by pat_completeness auto
termination
  by (relation "measure (\<lambda>(c, a, heap_size, i, buff). heap_size - i)")
    (auto simp: diff_less_mono2 sift_candidate_greater)

declare sift_down.simps [simp del]

function sift_up :: "KeyComparator \<Rightarrow> KeyAccessor \<Rightarrow> nat \<Rightarrow> int list \<Rightarrow> int list" where
  "sift_up c a i buff =
     (if 0 < i then
        if compare c (node_key a buff ((i - 1) div 2)) (node_key a buff i) then buff
        else sift_up c a ((i - 1) div 2) (swap_nodes a i ((i - 1) div 2) buff)
      else buff)"
  by pat_completeness auto
termination
  by (relation "measure (\<lambda>(c, a, i, buff). i)") auto

declare sift_up.simps [simp del]

definition key_at :: "KeyAccessor \<Rightarrow> nat \<Rightarrow> nat" where
  "key_at a row = rows_ptr a + row * row_size_quad a + key_index a"

definition push_heap :: "KeyComparator \<Rightarrow> KeyAccessor \<Rightarrow> int \<Rightarrow> int list \<Rightarrow> int list" where
  "push_heap c a curr_key buff =
     (let bin_index = nat (buff ! node_ptr a);
          buff = buff[node_ptr a := buff ! node_ptr a + 1];
          buff = buff[heap_ptr a + bin_index := int bin_index];
          buff = buff[key_at a bin_index := curr_key]
      in sift_up c a bin_index buff)"

definition pop_and_push_heap :: "KeyComparator \<Rightarrow> KeyAccessor \<Rightarrow> int \<Rightarrow> int list \<Rightarrow> int list \<times> bool" where
  "pop_and_push_heap c a curr_key buff =
     (let top_bin_idx = nat (buff ! heap_ptr a)
      in if compare c curr_key (buff ! key_at a top_bin_idx) then (buff, False)
         else (sift_down c a (nat (buff ! node_ptr a)) 0 (buff[key_at a top_bin_idx := curr_key]), True))"

text \<open>
  Where the heap and the rows of a thread are.  The products are those of 32-bit numbers, which do not
  wrap for a buffer that fits into memory; the code runs with thread 0 of 1, where they are 0 or \<open>k\<close>.  The
  keys are written at the byte \<open>key_offset\<close> and read as the element \<open>key_offset / 8\<close>; the slots of a row have 8
  bytes, so that both are the same word.
\<close>

definition heap_accessor :: "nat \<Rightarrow> nat \<Rightarrow> nat \<Rightarrow> nat \<Rightarrow> nat \<Rightarrow> KeyAccessor" where
  "heap_accessor thread_global_index thread_count k row_size key_offset =
     \<lparr>node_ptr = thread_global_index, heap_ptr = thread_count + thread_global_index * k,
      rows_ptr = thread_count + thread_count * k + thread_global_index * row_size * k,
      row_size_quad = row_size, key_index = key_offset div 8\<rparr>"

definition heap_comparator :: "bool \<Rightarrow> bool \<Rightarrow> bool \<Rightarrow> int \<Rightarrow> KeyComparator" where
  "heap_comparator min_heap has_null nulls_first null_val =
     \<lparr>heap_ordering = (if min_heap then HeapMIN else HeapMAX), has_nulls = has_null, null_key = null_val,
      nulls_ordering = (if nulls_first then NullsFIRST else NullsLAST)\<rparr>"

text \<open>
  The row to fill, as the index of its second word, or \<open>None\<close> if the key is not among the best.  The
  index and the number of the threads come from \<open>pos_start_impl\<close> and \<open>pos_step_impl\<close>.
\<close>

definition get_bin_from_k_heap_impl ::
  "nat \<Rightarrow> nat \<Rightarrow> nat \<Rightarrow> nat \<Rightarrow> nat \<Rightarrow> bool \<Rightarrow> bool \<Rightarrow> bool \<Rightarrow> int \<Rightarrow> int \<Rightarrow> int list \<Rightarrow> int list \<times> nat option" where
  "get_bin_from_k_heap_impl thread_global_index thread_count k row_size key_offset min_heap has_null nulls_first
     null_val curr_key heaps =
     (let a = heap_accessor thread_global_index thread_count k row_size key_offset;
          c = heap_comparator min_heap has_null nulls_first null_val
      in if heaps ! node_ptr a < int k then
           let heaps = push_heap c a curr_key heaps;
               last_bin_index = nat (heaps ! node_ptr a - 1);
               row_ptr = rows_ptr a + last_bin_index * row_size
           in (heaps[row_ptr := int last_bin_index], Some (row_ptr + 1))
         else
           let top_bin_idx = nat (heaps ! heap_ptr a)
           in case pop_and_push_heap c a curr_key heaps of
                (heaps, False) \<Rightarrow> (heaps, None)
              | (heaps, True) \<Rightarrow>
                  let row_ptr = rows_ptr a + top_bin_idx * row_size
                  in (heaps[row_ptr := int top_bin_idx], Some (row_ptr + 1)))"

section \<open>Heaps\<close>

text \<open>The keys at the nodes of a heap as a function; the exceptions at a node that sinks or rises.\<close>

definition is_heap :: "('k \<Rightarrow> 'k \<Rightarrow> bool) \<Rightarrow> nat \<Rightarrow> (nat \<Rightarrow> 'k) \<Rightarrow> bool" where
  "is_heap le n q \<longleftrightarrow> (\<forall>j. 0 < j \<and> j < n \<longrightarrow> le (q ((j - 1) div 2)) (q j))"

definition sinking :: "('k \<Rightarrow> 'k \<Rightarrow> bool) \<Rightarrow> nat \<Rightarrow> (nat \<Rightarrow> 'k) \<Rightarrow> nat \<Rightarrow> bool" where
  "sinking le n q i \<longleftrightarrow>
     (\<forall>j. 0 < j \<and> j < n \<longrightarrow> (if (j - 1) div 2 = i then 0 < i \<longrightarrow> le (q ((i - 1) div 2)) (q j) else le (q ((j - 1) div 2)) (q j)))"

lemma sinkingD:
  assumes "sinking le n q i" "0 < j" "j < n"
  shows "(j - 1) div 2 \<noteq> i \<Longrightarrow> le (q ((j - 1) div 2)) (q j)" "(j - 1) div 2 = i \<Longrightarrow> 0 < i \<Longrightarrow> le (q ((i - 1) div 2)) (q j)"
  using assms unfolding sinking_def by metis+

definition rising :: "('k \<Rightarrow> 'k \<Rightarrow> bool) \<Rightarrow> nat \<Rightarrow> (nat \<Rightarrow> 'k) \<Rightarrow> nat \<Rightarrow> bool" where
  "rising le n q i \<longleftrightarrow>
     (\<forall>j. 0 < j \<and> j < n \<longrightarrow> (j \<noteq> i \<longrightarrow> le (q ((j - 1) div 2)) (q j)) \<and>
        ((j - 1) div 2 = i \<and> 0 < i \<longrightarrow> le (q ((i - 1) div 2)) (q j)))"

definition least_child :: "('k \<Rightarrow> 'k \<Rightarrow> bool) \<Rightarrow> nat \<Rightarrow> (nat \<Rightarrow> 'k) \<Rightarrow> nat \<Rightarrow> nat" where
  "least_child cmp n q i =
     (if 2 * i + 2 < n then if cmp (q (2 * i + 1)) (q (2 * i + 2)) then 2 * i + 1 else 2 * i + 2 else min (2 * i + 1) n)"

text \<open>A comparison of keys and the order that it decides; either outcome is right for equal keys.\<close>

locale heap_order =
  fixes cmp le :: "'k \<Rightarrow> 'k \<Rightarrow> bool"
  assumes le_trans: "le a b \<Longrightarrow> le b c \<Longrightarrow> le a c"
    and cmp_le: "cmp a b \<Longrightarrow> le a b"
    and not_cmp: "\<not> cmp a b \<Longrightarrow> le b a"
begin

lemma le_refl: "le a a"
  using cmp_le not_cmp by blast

lemma top_least: "is_heap le n q \<Longrightarrow> i < n \<Longrightarrow> le (q 0) (q i)"
proof (induction i rule: less_induct)
  case (less i)
  show ?case
  proof (cases "i = 0")
    case False
    then have "le (q 0) (q ((i - 1) div 2))" "le (q ((i - 1) div 2)) (q i)"
      using less by (auto simp: is_heap_def)
    then show ?thesis by (rule le_trans)
  qed (simp add: le_refl)
qed

lemma child_cases: "(j - 1) div 2 = i \<Longrightarrow> 0 < j \<Longrightarrow> j = 2 * i + 1 \<or> j = 2 * i + (2 :: nat)"
  by presburger

lemma least_child_le:
  assumes "(j - 1) div 2 = i" "0 < j" "j < n" shows "le (q (least_child cmp n q i)) (q j)" "least_child cmp n q i < n"
  using child_cases [OF assms(1,2)] assms(3) cmp_le not_cmp le_refl by (auto simp: least_child_def)

lemma least_child_parent:
  assumes "least_child cmp n q i < n"
  shows "(least_child cmp n q i - 1) div 2 = i" "i < least_child cmp n q i"
  using assms by (auto simp: least_child_def split: if_splits)

lemma sink_stop:
  assumes "sinking le n q i" "n \<le> least_child cmp n q i \<or> cmp (q i) (q (least_child cmp n q i))"
  shows "is_heap le n q"
  unfolding is_heap_def
proof (intro allI impI)
  fix j assume j: "0 < j \<and> j < n"
  show "le (q ((j - 1) div 2)) (q j)"
  proof (cases "(j - 1) div 2 = i")
    case True
    then show ?thesis
      using least_child_le [OF True, of n q] j assms(2) cmp_le le_trans by (metis linorder_not_le)
  qed (use sinkingD(1) [OF assms(1)] j in blast)
qed

lemma sink_step:
  assumes "sinking le n q i" "c = least_child cmp n q i" "c < n" "\<not> cmp (q i) (q c)"
  shows "sinking le n (q(i := q c, c := q i)) c"
  unfolding sinking_def
proof (intro allI impI)
  fix j assume j: "0 < j \<and> j < n"
  have c: "(c - 1) div 2 = i" "i < c" using least_child_parent [of n q i] assms(2,3) by simp_all
  let ?q = "q(i := q c, c := q i)"
  have old: "le (q ((j - 1) div 2)) (q j)" if "(j - 1) div 2 \<noteq> i" using sinkingD(1) [OF assms(1)] j that by blast
  show "if (j - 1) div 2 = c then 0 < c \<longrightarrow> le (?q ((c - 1) div 2)) (?q j) else le (?q ((j - 1) div 2)) (?q j)"
  proof (cases "(j - 1) div 2 = c")
    case True
    then have "j \<noteq> i" "j \<noteq> c" using c by auto
    then show ?thesis using True c old by simp
  next
    case False
    consider (self) "j = c" | (sibling) "j \<noteq> c" "(j - 1) div 2 = i" | (up) "j = i" | (other) "j \<noteq> c" "j \<noteq> i" "(j - 1) div 2 \<noteq> i" by blast
    then show ?thesis
    proof cases
      case self
      then show ?thesis using c not_cmp [OF assms(4)] by simp
    next
      case sibling
      then have "j \<noteq> i" using c j by auto
      then show ?thesis using sibling c least_child_le(1) [OF sibling(2), of n q] j assms(2) by simp
    next
      case up
      have "le (q ((i - 1) div 2)) (q c)" using sinkingD(2) [OF assms(1) _ assms(3) c(1)] c up j by simp
      then show ?thesis using False up c j by (simp add: le_refl)
    next
      case other
      then show ?thesis using False old by simp
    qed
  qed
qed

lemma rise_stop: "rising le n q i \<Longrightarrow> i = 0 \<or> cmp (q ((i - 1) div 2)) (q i) \<Longrightarrow> is_heap le n q"
  using cmp_le unfolding is_heap_def rising_def by (metis not_gr_zero)

lemma rise_step:
  assumes "rising le n q i" "0 < i" "i < n" "p = (i - 1) div 2" "\<not> cmp (q p) (q i)"
  shows "rising le n (q(i := q p, p := q i)) p"
  unfolding rising_def
proof (intro allI impI)
  fix j assume j: "0 < j \<and> j < n"
  let ?q = "q(i := q p, p := q i)"
  have p: "p < i" using assms(2,4) by linarith
  have old: "le (q ((j - 1) div 2)) (q j)" if "j \<noteq> i" using assms(1) j that by (simp add: rising_def)
  have old_p: "le (q ((p - 1) div 2)) (q p)" if "0 < p" using assms(1,3) p that by (simp add: rising_def)
  have child: "le (q p) (q j)" if "(j - 1) div 2 = i" using assms(1,2,4) j that by (simp add: rising_def)
  have lt: "le (q i) (q p)" by (rule not_cmp [OF assms(5)])
  have up: "le (?q ((j - 1) div 2)) (?q j)" if "j \<noteq> p"
  proof (cases "j = i")
    case True
    then show ?thesis using assms(4) p lt by simp
  next
    case False
    then show ?thesis using that old [OF False] child le_trans [OF lt] by auto
  qed
  have "le (?q ((p - 1) div 2)) (?q j)" if "(j - 1) div 2 = p" "0 < p"
  proof -
    have "(p - 1) div 2 \<noteq> p" "(p - 1) div 2 \<noteq> i" "j \<noteq> p" using that p by linarith+
    then show ?thesis using old_p [OF that(2)] old le_trans [of "q ((p - 1) div 2)" "q p" "q j"] that(1) p by (cases "j = i") auto
  qed
  with up show "(j \<noteq> p \<longrightarrow> le (?q ((j - 1) div 2)) (?q j)) \<and> ((j - 1) div 2 = p \<and> 0 < p \<longrightarrow> le (?q ((p - 1) div 2)) (?q j))" by blast
qed

end

text \<open>The order of the keys that \<open>KeyComparator\<close> decides: the greatest are kept.\<close>

definition key_le :: "KeyComparator \<Rightarrow> int \<Rightarrow> int \<Rightarrow> bool" where
  "key_le c x y \<longleftrightarrow>
     (let by_key = (if heap_ordering c = HeapMIN then x \<le> y else y \<le> x)
      in if has_nulls c then
           if nulls_ordering c = NullsFIRST then y = null_key c \<or> (x \<noteq> null_key c \<and> by_key)
           else x = null_key c \<or> (y \<noteq> null_key c \<and> by_key)
         else by_key)"

interpretation kc: heap_order "compare c" "key_le c" for c
  by unfold_locales (auto simp: compare_def key_le_def Let_def split: if_splits)

section \<open>The buffer\<close>

text \<open>The parts of the buffer do not overlap, and the key is not the first word of a row.\<close>

definition well_placed :: "KeyAccessor \<Rightarrow> nat \<Rightarrow> int list \<Rightarrow> bool" where
  "well_placed a k buff \<longleftrightarrow> node_ptr a < heap_ptr a \<and> heap_ptr a + k \<le> rows_ptr a \<and>
     rows_ptr a + k * row_size_quad a \<le> length buff \<and> 0 < key_index a \<and> key_index a < row_size_quad a"

definition nodes :: "KeyAccessor \<Rightarrow> nat \<Rightarrow> int list \<Rightarrow> int list" where
  "nodes a n buff = take n (drop (heap_ptr a) buff)"

definition count_of :: "KeyAccessor \<Rightarrow> int list \<Rightarrow> nat" where
  "count_of a buff = nat (buff ! node_ptr a)"

definition stored_keys :: "KeyAccessor \<Rightarrow> int list \<Rightarrow> int list" where
  "stored_keys a buff = map (\<lambda>r. buff ! key_at a r) [0..<count_of a buff]"

text \<open>The heap holds the numbers of the used rows, ordered by their keys.\<close>

definition heap_inv :: "KeyComparator \<Rightarrow> KeyAccessor \<Rightarrow> nat \<Rightarrow> int list \<Rightarrow> bool" where
  "heap_inv c a k buff \<longleftrightarrow> well_placed a k buff \<and> 0 \<le> buff ! node_ptr a \<and> count_of a buff \<le> k \<and>
     mset (nodes a (count_of a buff) buff) = mset (map int [0..<count_of a buff]) \<and>
     is_heap (key_le c) (count_of a buff) (node_key a buff)"

text \<open>What sifting changes: the order of the nodes, and nothing else.\<close>

definition reordered :: "KeyAccessor \<Rightarrow> nat \<Rightarrow> int list \<Rightarrow> int list \<Rightarrow> bool" where
  "reordered a n buff buff' \<longleftrightarrow> length buff' = length buff \<and> mset (nodes a n buff') = mset (nodes a n buff) \<and>
     (\<forall>w. w < heap_ptr a \<or> heap_ptr a + n \<le> w \<longrightarrow> buff' ! w = buff ! w)"

lemma reordered_refl [simp]: "reordered a n buff buff"
  by (simp add: reordered_def)

lemma reordered_trans: "reordered a n b1 b2 \<Longrightarrow> reordered a n b2 b3 \<Longrightarrow> reordered a n b1 b3"
  by (simp add: reordered_def)

lemma nodes_nth: "i < n \<Longrightarrow> heap_ptr a + n \<le> length buff \<Longrightarrow> nodes a n buff ! i = buff ! (heap_ptr a + i)"
  by (simp add: nodes_def)

lemma length_nodes: "heap_ptr a + n \<le> length buff \<Longrightarrow> length (nodes a n buff) = n"
  by (simp add: nodes_def)

lemma nodes_update:
  "i < n \<Longrightarrow> nodes a n (buff[heap_ptr a + i := v]) = (nodes a n buff)[i := v]"
  by (simp add: nodes_def drop_update_swap take_update_swap)

lemma swap_nodes_reordered:
  assumes "i < n" "j < n" "heap_ptr a + n \<le> length buff"
  shows "reordered a n buff (swap_nodes a i j buff)"
proof -
  have "nodes a n (swap_nodes a i j buff) = (nodes a n buff)[i := nodes a n buff ! j, j := nodes a n buff ! i]"
    using assms by (simp add: swap_nodes_def nodes_update nodes_nth)
  moreover have "mset ((nodes a n buff)[i := nodes a n buff ! j, j := nodes a n buff ! i]) = mset (nodes a n buff)"
    using assms by (intro mset_swap) (simp_all add: length_nodes)
  ultimately show ?thesis using assms by (auto simp: reordered_def swap_nodes_def)
qed

lemma swap_nodes_key:
  assumes "i < n" "j < n" "heap_ptr a + n \<le> rows_ptr a" "rows_ptr a \<le> length buff"
  shows "node_key a (swap_nodes a i j buff) = (node_key a buff)(i := node_key a buff j, j := node_key a buff i)"
  using assms by (auto simp: fun_eq_iff node_key_def KeyAccessor_get_def swap_nodes_def nth_list_update)

lemma sift_candidate_least:
  "i < n \<Longrightarrow> sift_candidate c a n i buff = least_child (compare c) n (node_key a buff) i"
  by (auto simp: sift_candidate_def least_child_def Let_def)

lemma sift_down_heap:
  assumes "sinking (key_le c) n (node_key a buff) i" "heap_ptr a + n \<le> rows_ptr a" "rows_ptr a \<le> length buff" "i < n"
  shows "is_heap (key_le c) n (node_key a (sift_down c a n i buff)) \<and> reordered a n buff (sift_down c a n i buff)"
  using assms
proof (induction c a n i buff rule: sift_down.induct)
  case (1 c a n i buff)
  define d where "d = least_child (compare c) n (node_key a buff) i"
  have d: "sift_candidate c a n i buff = d" using sift_candidate_least [OF 1(5)] by (simp add: d_def)
  show ?case
  proof (cases "n \<le> d \<or> compare c (node_key a buff i) (node_key a buff d)")
    case True
    then have "sift_down c a n i buff = buff" using d by (auto simp: sift_down.simps [of c a n i buff])
    then show ?thesis using kc.sink_stop [OF 1(2) True [unfolded d_def]] by simp
  next
    case False
    let ?b = "swap_nodes a i d buff"
    have s: "sift_down c a n i buff = sift_down c a n d ?b" using False d 1(5) by (simp add: sift_down.simps [of c a n i buff])
    have r: "reordered a n buff ?b" using False 1(3-5) by (intro swap_nodes_reordered) auto
    have "sinking (key_le c) n (node_key a ?b) d"
      using swap_nodes_key [OF 1(5) _ 1(3,4), of d] kc.sink_step [OF 1(2) d_def] False by simp
    then have "is_heap (key_le c) n (node_key a (sift_down c a n d ?b)) \<and> reordered a n ?b (sift_down c a n d ?b)"
      using 1(1) [unfolded d, of] False 1(3-5) r by (simp add: reordered_def)
    then show ?thesis using s reordered_trans [OF r] by simp
  qed
qed

lemma sift_up_heap:
  assumes "rising (key_le c) n (node_key a buff) i" "heap_ptr a + n \<le> rows_ptr a" "rows_ptr a \<le> length buff" "i < n"
  shows "is_heap (key_le c) n (node_key a (sift_up c a i buff)) \<and> reordered a n buff (sift_up c a i buff)"
  using assms
proof (induction c a i buff rule: sift_up.induct)
  case (1 c a i buff)
  define p where "p = (i - 1) div 2"
  show ?case
  proof (cases "i = 0 \<or> compare c (node_key a buff p) (node_key a buff i)")
    case True
    then have "sift_up c a i buff = buff" by (auto simp: sift_up.simps [of c a i buff] p_def)
    then show ?thesis using kc.rise_stop [OF 1(2) True [unfolded p_def]] by simp
  next
    case False
    let ?b = "swap_nodes a i p buff"
    have p: "p < n" using 1(5) by (simp add: p_def)
    have s: "sift_up c a i buff = sift_up c a p ?b" using False by (simp add: sift_up.simps [of c a i buff] p_def)
    have r: "reordered a n buff ?b" using 1(3-5) p by (intro swap_nodes_reordered) auto
    have "rising (key_le c) n (node_key a ?b) p"
      using swap_nodes_key [OF 1(5) p 1(3,4)] kc.rise_step [OF 1(2) _ 1(5) p_def] False by simp
    then have "is_heap (key_le c) n (node_key a (sift_up c a p ?b)) \<and> reordered a n ?b (sift_up c a p ?b)"
      using 1(1) [folded p_def] False 1(3,4) p r by (simp add: reordered_def)
    then show ?thesis using s reordered_trans [OF r] by simp
  qed
qed

section \<open>Keys\<close>

lemma key_at_eq [simp]: "0 < row_size_quad a \<Longrightarrow> key_at a r = key_at a r' \<longleftrightarrow> r = r'"
  by (simp add: key_at_def)

lemma key_at_row: "0 < key_index a \<Longrightarrow> key_index a < row_size_quad a \<Longrightarrow> key_at a r \<noteq> rows_ptr a + r' * row_size_quad a"
proof
  assume k: "0 < key_index a" "key_index a < row_size_quad a" and "key_at a r = rows_ptr a + r' * row_size_quad a"
  then have "(r * row_size_quad a + key_index a) mod row_size_quad a = (r' * row_size_quad a) mod row_size_quad a"
    by (simp add: key_at_def)
  with k show False by simp
qed

lemma key_at_bound:
  assumes "well_placed a k buff" "r < k"
  shows "rows_ptr a \<le> key_at a r" "key_at a r < rows_ptr a + k * row_size_quad a" "key_at a r < length buff"
proof -
  have "r * row_size_quad a + row_size_quad a \<le> k * row_size_quad a"
    using assms(2) mult_le_mono1 [of "Suc r" k "row_size_quad a"] by simp
  then show "rows_ptr a \<le> key_at a r" "key_at a r < rows_ptr a + k * row_size_quad a" "key_at a r < length buff"
    using assms(1) by (auto simp: key_at_def well_placed_def)
qed

lemma get_int [simp]: "KeyAccessor_get a buff (int r) = buff ! key_at a r"
  by (simp add: KeyAccessor_get_def key_at_def mult.commute)

lemma mset_node_keys:
  assumes "heap_ptr a + n \<le> length buff" "mset (nodes a n buff) = mset (map int [0..<n])"
  shows "mset (map (node_key a buff) [0..<n]) = mset (map (\<lambda>r. buff ! key_at a r) [0..<n])"
proof -
  have "map (node_key a buff) [0..<n] = map (KeyAccessor_get a buff) (nodes a n buff)"
    using assms(1) by (intro nth_equalityI) (simp_all add: length_nodes node_key_def nodes_nth)
  then have "mset (map (node_key a buff) [0..<n]) = image_mset (KeyAccessor_get a buff) (mset (map int [0..<n]))"
    using assms(2) by simp
  then show ?thesis by (simp add: image_mset.compositionality comp_def)
qed

text \<open>The nodes are distinct row numbers.\<close>

lemma nodes_rows:
  assumes "heap_ptr a + n \<le> length buff" "mset (nodes a n buff) = mset (map int [0..<n])" "i < n"
  obtains r where "r < n" "buff ! (heap_ptr a + i) = int r" "\<And>j. j < n \<Longrightarrow> j \<noteq> i \<Longrightarrow> buff ! (heap_ptr a + j) \<noteq> int r"
proof -
  have d: "distinct (nodes a n buff)" and s: "set (nodes a n buff) = int ` {..<n}"
    using mset_eq_imp_distinct_iff [OF assms(2)] mset_eq_setD [OF assms(2)] by (auto simp: distinct_map lessThan_atLeast0)
  have "nodes a n buff ! i \<in> int ` {..<n}" using assms(1,3) s nth_mem [of i "nodes a n buff"] by (simp add: length_nodes)
  then obtain r where r: "r < n" "nodes a n buff ! i = int r" by auto
  moreover have "nodes a n buff ! j \<noteq> int r" if "j < n" "j \<noteq> i" for j
    using nth_eq_iff_index_eq [OF d, of j i] that assms(1,3) r(2) by (simp add: length_nodes)
  ultimately show ?thesis using that [of r] assms(1,3) by (simp add: nodes_nth)
qed

lemma reordered_inv:
  assumes "well_placed a k buff" "0 \<le> buff ! node_ptr a" "count_of a buff = n" "n \<le> k"
    "mset (nodes a n buff) = mset (map int [0..<n])" "is_heap (key_le c) n (node_key a buff')" "reordered a n buff buff'"
  shows "heap_inv c a k buff' \<and> stored_keys a buff' = stored_keys a buff \<and> count_of a buff' = n"
proof -
  have same: "buff' ! w = buff ! w" if "w < heap_ptr a \<or> rows_ptr a \<le> w" for w
    using assms(1,4,7) that by (auto simp: reordered_def well_placed_def)
  have node: "buff' ! node_ptr a = buff ! node_ptr a" using assms(1) by (intro same) (simp add: well_placed_def)
  then have n: "count_of a buff' = n" using assms(3) by (simp add: count_of_def)
  moreover have "buff' ! key_at a r = buff ! key_at a r" for r by (rule same) (simp add: key_at_def)
  ultimately show ?thesis using assms node
    by (simp add: heap_inv_def well_placed_def reordered_def stored_keys_def count_of_def)
qed

lemma row_number:
  assumes "heap_inv c a k buff"
  shows "heap_inv c a k (buff[rows_ptr a + r * row_size_quad a := v]) \<and>
    stored_keys a (buff[rows_ptr a + r * row_size_quad a := v]) = stored_keys a buff \<and>
    count_of a (buff[rows_ptr a + r * row_size_quad a := v]) = count_of a buff"
proof -
  let ?b = "buff[rows_ptr a + r * row_size_quad a := v]"
  have wp: "well_placed a k buff" using assms by (simp add: heap_inv_def)
  have low: "?b ! w = buff ! w" if "w < rows_ptr a" for w using that by simp
  have key: "?b ! key_at a s = buff ! key_at a s" for s
    using key_at_row [of a s r] wp by (simp add: well_placed_def)
  have cnt: "?b ! node_ptr a = buff ! node_ptr a" using wp by (intro low) (simp add: well_placed_def)
  then have n: "count_of a ?b = count_of a buff" by (simp add: count_of_def)
  have hp: "?b ! (heap_ptr a + i) = buff ! (heap_ptr a + i)" if "i < k" for i
    using wp that by (intro low) (simp add: well_placed_def)
  have nodes: "nodes a (count_of a buff) ?b = nodes a (count_of a buff) buff"
    using wp assms hp by (intro nth_equalityI) (auto simp: heap_inv_def well_placed_def length_nodes nodes_nth)
  have "node_key a ?b i = node_key a buff i" if i: "i < count_of a buff" for i
  proof -
    have ik: "i < k" using assms i by (simp add: heap_inv_def)
    have m: "mset (nodes a (count_of a buff) buff) = mset (map int [0..<count_of a buff])" using assms by (simp add: heap_inv_def)
    have l: "heap_ptr a + count_of a buff \<le> length buff" using assms by (auto simp: heap_inv_def well_placed_def)
    obtain r' where "buff ! (heap_ptr a + i) = int r'" using nodes_rows [OF l m i] by blast
    then show ?thesis using hp [OF ik] key by (simp add: node_key_def)
  qed
  then have heap: "is_heap (key_le c) (count_of a buff) (node_key a ?b) = is_heap (key_le c) (count_of a buff) (node_key a buff)"
    by (auto simp: is_heap_def)
  then show ?thesis using assms n nodes cnt key wp by (simp add: heap_inv_def well_placed_def stored_keys_def)
qed

section \<open>Insertion\<close>

lemma heap_invD:
  assumes "heap_inv c a k buff"
  shows "well_placed a k buff" "buff ! node_ptr a = int (count_of a buff)" "count_of a buff \<le> k"
    "mset (nodes a (count_of a buff) buff) = mset (map int [0..<count_of a buff])"
    "is_heap (key_le c) (count_of a buff) (node_key a buff)" "heap_ptr a + count_of a buff \<le> length buff"
    "heap_ptr a + count_of a buff \<le> rows_ptr a" "rows_ptr a \<le> length buff"
  using assms by (auto simp: heap_inv_def well_placed_def count_of_def)

text \<open>The words of other threads are not touched.\<close>

definition untouched :: "KeyAccessor \<Rightarrow> nat \<Rightarrow> int list \<Rightarrow> int list \<Rightarrow> bool" where
  "untouched a k buff buff' \<longleftrightarrow> length buff' = length buff \<and>
     (\<forall>w. w \<noteq> node_ptr a \<and> \<not> (heap_ptr a \<le> w \<and> w < heap_ptr a + k) \<and>
        \<not> (rows_ptr a \<le> w \<and> w < rows_ptr a + k * row_size_quad a) \<longrightarrow> buff' ! w = buff ! w)"

lemma untouched_trans: "untouched a k b1 b2 \<Longrightarrow> untouched a k b2 b3 \<Longrightarrow> untouched a k b1 b3"
  by (simp add: untouched_def)

lemma reordered_untouched: "reordered a n buff buff' \<Longrightarrow> n \<le> k \<Longrightarrow> untouched a k buff buff'"
  by (auto simp: reordered_def untouched_def)

lemma row_untouched:
  assumes "well_placed a k buff" "r < k" shows "untouched a k buff (buff[rows_ptr a + r * row_size_quad a := v])"
proof -
  define x where "x = rows_ptr a + r * row_size_quad a"
  have "rows_ptr a \<le> x" "x < rows_ptr a + k * row_size_quad a" using assms by (auto simp: well_placed_def x_def)
  then show ?thesis unfolding x_def [symmetric] by (auto simp: untouched_def nth_list_update)
qed

lemma push_heap_inv:
  assumes "heap_inv c a k buff" "count_of a buff < k" "buff' = push_heap c a key buff"
  shows "heap_inv c a k buff' \<and> count_of a buff' = Suc (count_of a buff) \<and>
    mset (stored_keys a buff') = add_mset key (mset (stored_keys a buff)) \<and> untouched a k buff buff'"
proof -
  note inv = heap_invD [OF assms(1)]
  define n where "n = count_of a buff"
  define b1 where "b1 = buff[node_ptr a := int n + 1, heap_ptr a + n := int n, key_at a n := key]"
  note kb = key_at_bound [OF inv(1) assms(2) [folded n_def]]
  have place: "node_ptr a < heap_ptr a" "heap_ptr a + k \<le> rows_ptr a" "n < k" "0 < row_size_quad a"
    using inv(1) assms(2) by (auto simp: well_placed_def n_def)
  have wp: "well_placed a k b1" using inv(1) by (simp add: b1_def well_placed_def)
  have cnt: "b1 ! node_ptr a = int n + 1" "count_of a b1 = Suc n" using place kb by (simp_all add: b1_def count_of_def)
  have slot: "b1 ! (heap_ptr a + i) = (if i = n then int n else buff ! (heap_ptr a + i))" if "i \<le> n" for i
    using place kb that by (auto simp: b1_def)
  have row: "b1 ! key_at a r = (if r = n then key else buff ! key_at a r)" for r
    using place kb by (auto simp: b1_def key_at_def)
  have "nodes a (Suc n) b1 = nodes a n buff @ [int n]"
    using inv(6) place slot kb by (intro nth_equalityI) (auto simp: length_nodes nodes_nth nth_append n_def [symmetric] b1_def)
  then have nodes: "mset (nodes a (Suc n) b1) = mset (map int [0..<Suc n])" using inv(4) by (simp add: n_def)
  have key: "node_key a b1 i = (if i = n then key else node_key a buff i)" if i: "i \<le> n" for i
  proof (cases "i = n")
    case False
    then have "i < count_of a buff" using i by (simp add: n_def)
    then obtain r where "r < count_of a buff" "buff ! (heap_ptr a + i) = int r" using nodes_rows [OF inv(6,4)] by metis
    then show ?thesis using slot [OF i] row False by (simp add: node_key_def n_def)
  qed (use slot [of n] row in \<open>simp add: node_key_def\<close>)
  have "rising (key_le c) (Suc n) (node_key a b1) n"
    using inv(5) key by (auto simp: rising_def is_heap_def n_def [symmetric] less_Suc_eq_le)
  from sift_up_heap [OF this _ _ lessI] have up: "is_heap (key_le c) (Suc n) (node_key a (sift_up c a n b1))"
    "reordered a (Suc n) b1 (sift_up c a n b1)" using place inv(8) by (auto simp: b1_def)
  have b': "buff' = sift_up c a n b1"
    using inv(2) by (simp add: assms(3) push_heap_def b1_def n_def Let_def count_of_def)
  have "heap_inv c a k buff' \<and> stored_keys a buff' = stored_keys a b1 \<and> count_of a buff' = Suc n"
    unfolding b' by (rule reordered_inv [OF wp _ cnt(2) _ nodes up]) (use cnt place in simp_all)
  moreover have "stored_keys a b1 = stored_keys a buff @ [key]"
    unfolding stored_keys_def cnt(2) n_def [symmetric] by (simp add: row)
  moreover have "untouched a k buff b1" using place kb by (auto simp: untouched_def b1_def nth_list_update)
  ultimately show ?thesis using b' untouched_trans reordered_untouched [OF up(2)] place by (auto simp: n_def)
qed

text \<open>The row of the least key is replaced, unless the new key comes before it.\<close>

lemma top_row:
  assumes "heap_inv c a k buff" "0 < count_of a buff" "r = nat (buff ! heap_ptr a)"
  shows "r < count_of a buff" "buff ! heap_ptr a = int r" "node_key a buff 0 = buff ! key_at a r"
    "\<And>s. s \<in> set (stored_keys a buff) \<Longrightarrow> key_le c (buff ! key_at a r) s"
    "\<And>j. j < count_of a buff \<Longrightarrow> j \<noteq> 0 \<Longrightarrow> buff ! (heap_ptr a + j) \<noteq> int r"
proof -
  note inv = heap_invD [OF assms(1)]
  obtain r' where r': "r' < count_of a buff" "buff ! (heap_ptr a + 0) = int r'"
    "\<And>j. j < count_of a buff \<Longrightarrow> j \<noteq> 0 \<Longrightarrow> buff ! (heap_ptr a + j) \<noteq> int r'"
    using nodes_rows [OF inv(6,4) assms(2)] by metis
  then have r: "r = r'" using assms(3) by simp
  then show "r < count_of a buff" "buff ! heap_ptr a = int r"
    "\<And>j. j < count_of a buff \<Longrightarrow> j \<noteq> 0 \<Longrightarrow> buff ! (heap_ptr a + j) \<noteq> int r" using r' by simp_all
  then show top: "node_key a buff 0 = buff ! key_at a r" by (simp add: node_key_def)
  fix s assume "s \<in> set (stored_keys a buff)"
  then have "s \<in># mset (map (node_key a buff) [0..<count_of a buff])"
    using mset_node_keys [OF inv(6,4)] by (simp add: stored_keys_def)
  then obtain i where "i < count_of a buff" "s = node_key a buff i" by auto
  then show "key_le c (buff ! key_at a r) s" using kc.top_least [OF inv(5)] top by simp
qed

lemma pop_and_push_inv:
  assumes "heap_inv c a k buff" "0 < count_of a buff" "r = nat (buff ! heap_ptr a)"
    "\<not> compare c key (buff ! key_at a r)" "buff' = sift_down c a (count_of a buff) 0 (buff[key_at a r := key])"
  shows "heap_inv c a k buff' \<and> count_of a buff' = count_of a buff \<and>
    stored_keys a buff' = (stored_keys a buff)[r := key] \<and> untouched a k buff buff'"
proof -
  note inv = heap_invD [OF assms(1)] and top = top_row [OF assms(1-3)]
  define n where "n = count_of a buff"
  define b1 where "b1 = buff[key_at a r := key]"
  have r: "r < k" using top(1) inv(3) by simp
  note kb = key_at_bound [OF inv(1) r]
  have place: "node_ptr a < heap_ptr a" "heap_ptr a + k \<le> rows_ptr a" "n \<le> k" "0 < row_size_quad a" "0 < n"
    using inv(1,3) assms(2) by (auto simp: well_placed_def n_def)
  have low: "b1 ! w = buff ! w" if "w < rows_ptr a" for w using that kb by (simp add: b1_def)
  have row: "b1 ! key_at a r' = (if r' = r then key else buff ! key_at a r')" for r'
    using place kb by (auto simp: b1_def)
  have wp: "well_placed a k b1" using inv(1) by (simp add: b1_def well_placed_def)
  have cnt: "b1 ! node_ptr a = int n" "count_of a b1 = n" using inv(2) low place by (simp_all add: n_def count_of_def)
  have nodes: "nodes a n b1 = nodes a n buff"
    using inv(6) low place by (intro nth_equalityI) (auto simp: length_nodes nodes_nth n_def b1_def)
  have key: "node_key a b1 i = (if i = 0 then key else node_key a buff i)" if i: "i < n" for i
  proof -
    obtain r' where r': "buff ! (heap_ptr a + i) = int r'" using nodes_rows [OF inv(6,4) i [unfolded n_def]] by metis
    moreover have "r' = r \<longleftrightarrow> i = 0" using r' top(2,5) i by (cases "i = 0") (auto simp: n_def)
    ultimately show ?thesis using low [of "heap_ptr a + i"] row place i by (simp add: node_key_def)
  qed
  have "sinking (key_le c) n (node_key a b1) 0"
    unfolding sinking_def using inv(5) key by (auto simp: is_heap_def n_def [symmetric])
  from sift_down_heap [OF this _ _ place(5)] have down: "is_heap (key_le c) n (node_key a buff')" "reordered a n b1 buff'"
    using place inv(8) assms(5) by (auto simp: b1_def n_def)
  have "heap_inv c a k buff' \<and> stored_keys a buff' = stored_keys a b1 \<and> count_of a buff' = n"
    by (rule reordered_inv [OF wp _ cnt(2) place(3) _ down]) (use cnt inv(4) nodes in \<open>simp_all add: n_def\<close>)
  moreover have "stored_keys a b1 = (stored_keys a buff)[r := key]"
    unfolding stored_keys_def cnt(2) n_def [symmetric] by (intro nth_equalityI) (auto simp: row nth_list_update)
  moreover have "untouched a k buff b1" using place kb by (auto simp: untouched_def b1_def nth_list_update)
  ultimately show ?thesis using untouched_trans reordered_untouched [OF down(2)] place by (auto simp: n_def)
qed

section \<open>The best rows\<close>

text \<open>A list that holds the \<open>k\<close> greatest of the keys, or all of them if there are fewer.\<close>

definition best_of :: "KeyComparator \<Rightarrow> nat \<Rightarrow> int list \<Rightarrow> int list \<Rightarrow> bool" where
  "best_of c k keys kept \<longleftrightarrow> length kept = min k (length keys) \<and>
     (\<exists>rest. mset keys = mset kept + rest \<and> (\<forall>x \<in># rest. \<forall>y \<in> set kept. key_le c x y))"

lemma best_of_push:
  assumes "best_of c k keys kept" "length kept < k" "mset kept' = add_mset key (mset kept)"
  shows "best_of c k (keys @ [key]) kept'"
proof -
  obtain rest where rest: "mset keys = mset kept + rest" using assms(1) by (auto simp: best_of_def)
  have "length keys = length kept" using assms(1,2) by (auto simp: best_of_def)
  then have "rest = {#}" using arg_cong [OF rest, of size] by simp
  then have "mset (keys @ [key]) = mset kept' + {#}" using rest assms(3) by simp
  moreover have "length kept' = Suc (length kept)" using arg_cong [OF assms(3), of size] by simp
  ultimately show ?thesis using assms(1,2) unfolding best_of_def by (intro conjI exI [of _ "{#}"]) auto
qed

lemma best_of_reject:
  assumes "best_of c k keys kept" "length kept = k" "\<And>y. y \<in> set kept \<Longrightarrow> key_le c key y"
  shows "best_of c k (keys @ [key]) kept"
proof -
  obtain rest where "mset keys = mset kept + rest" "\<forall>x \<in># rest. \<forall>y \<in> set kept. key_le c x y"
    using assms(1) by (auto simp: best_of_def)
  then show ?thesis using assms unfolding best_of_def by (intro conjI exI [of _ "add_mset key rest"]) auto
qed

lemma best_of_replace:
  assumes "best_of c k keys kept" "length kept = k" "r < k" "\<And>y. y \<in> set kept \<Longrightarrow> key_le c (kept ! r) y" "key_le c (kept ! r) key"
  shows "best_of c k (keys @ [key]) (kept[r := key])"
proof -
  obtain rest where rest: "mset keys = mset kept + rest" "\<forall>x \<in># rest. \<forall>y \<in> set kept. key_le c x y"
    using assms(1) by (auto simp: best_of_def)
  have r: "kept ! r \<in> set kept" using assms(2,3) by simp
  have "mset (keys @ [key]) = mset (kept[r := key]) + add_mset (kept ! r) rest"
    using rest(1) assms(2,3) r by (simp add: mset_update)
  moreover have "key_le c x y" if "x \<in># add_mset (kept ! r) rest" "y \<in> set (kept[r := key])" for x y
  proof -
    have "y = key \<or> y \<in> set kept" using that(2) set_update_subset_insert by fastforce
    moreover have "key_le c x (kept ! r)" using that(1) rest(2) r kc.le_refl by auto
    ultimately show ?thesis using assms(4,5) kc.le_trans by blast
  qed
  ultimately show ?thesis using assms(1,2) unfolding best_of_def
    by (intro conjI exI [of _ "add_mset (kept ! r) rest"]) auto
qed

lemma get_bin_step:
  assumes "heap_inv c a k heaps" "0 < k" "best_of c k keys (stored_keys a heaps)"
    and a: "a = heap_accessor tid threads k row_size key_offset" and c: "c = heap_comparator min_heap has_null nulls_first null_val"
    and b': "buff' = fst (get_bin_from_k_heap_impl tid threads k row_size key_offset min_heap has_null nulls_first null_val key heaps)"
  shows "heap_inv c a k buff' \<and> best_of c k (keys @ [key]) (stored_keys a buff') \<and> untouched a k heaps buff'"
proof -
  note inv = heap_invD [OF assms(1)]
  have rs: "row_size_quad a = row_size" by (simp add: a heap_accessor_def)
  have len: "length (stored_keys a heaps) = count_of a heaps" by (simp add: stored_keys_def)
  show ?thesis
  proof (cases "count_of a heaps < k")
    case True
    define b1 where "b1 = push_heap c a key heaps"
    note push = push_heap_inv [OF assms(1) True b1_def]
    have "buff' = b1[rows_ptr a + count_of a heaps * row_size_quad a := int (count_of a heaps)]"
      using True inv(2) heap_invD(2) [of c a k b1] push
      by (simp add: b' get_bin_from_k_heap_impl_def Let_def a [symmetric] c [symmetric] b1_def rs)
    then show ?thesis
      using push row_number [of c a k b1] row_untouched [of a k b1 "count_of a heaps"] heap_invD(1) [of c a k b1] True
        best_of_push [OF assms(3), of "stored_keys a b1" key] untouched_trans len by auto
  next
    case False
    then have full: "count_of a heaps = k" using inv(3) by simp
    define r where "r = nat (heaps ! heap_ptr a)"
    note top = top_row [OF assms(1) _ r_def, unfolded full, OF assms(2)]
    have code: "get_bin_from_k_heap_impl tid threads k row_size key_offset min_heap has_null nulls_first null_val key heaps =
      (case pop_and_push_heap c a key heaps of (heaps, False) \<Rightarrow> (heaps, None)
       | (heaps, True) \<Rightarrow> (heaps[rows_ptr a + r * row_size_quad a := int r], Some (rows_ptr a + r * row_size_quad a + 1)))"
      using False inv(2) unfolding get_bin_from_k_heap_impl_def Let_def a [symmetric] c [symmetric] r_def [symmetric] rs
      by (simp split: prod.split bool.split)
    show ?thesis
    proof (cases "compare c key (heaps ! key_at a r)")
      case True
      then have "buff' = heaps" by (simp add: b' code pop_and_push_heap_def r_def [symmetric])
      moreover have "key_le c key y" if "y \<in> set (stored_keys a heaps)" for y
        using kc.le_trans [OF kc.cmp_le [OF True] top(4) [OF that]] .
      ultimately show ?thesis using assms(1) best_of_reject [OF assms(3)] len full by (simp add: untouched_def)
    next
      case acc: False
      define b1 where "b1 = sift_down c a (count_of a heaps) 0 (heaps[key_at a r := key])"
      have pos: "0 < count_of a heaps" using full assms(2) by simp
      note pop = pop_and_push_inv [OF assms(1) pos r_def acc b1_def]
      have "buff' = b1[rows_ptr a + r * row_size_quad a := int r]"
        using acc by (simp add: b' code pop_and_push_heap_def r_def [symmetric] b1_def count_of_def Let_def)
      moreover have "stored_keys a heaps ! r = heaps ! key_at a r" using top(1) full by (simp add: stored_keys_def)
      ultimately show ?thesis
        using pop row_number [of c a k b1] row_untouched [of a k b1 r] heap_invD(1) [of c a k b1] top(1,4) kc.not_cmp [OF acc]
          best_of_replace [OF assms(3), of r key] untouched_trans len full by auto
    qed
  qed
qed

lemma heap_inv_empty:
  assumes "tid < threads" "8 \<le> key_offset" "key_offset < 8 * row_size" "threads + threads * k + threads * row_size * k \<le> length heaps"
    "heaps ! tid = 0"
  shows "heap_inv c (heap_accessor tid threads k row_size key_offset) k heaps"
proof -
  define a where "a = heap_accessor tid threads k row_size key_offset"
  have "tid * k + k \<le> threads * k" using assms(1) mult_le_mono1 [of "Suc tid" threads k] by simp
  moreover have "tid * (row_size * k) + row_size * k \<le> threads * (row_size * k)"
    using assms(1) mult_le_mono1 [of "Suc tid" threads "row_size * k"] by simp
  ultimately have "well_placed a k heaps"
    using assms by (simp add: a_def well_placed_def heap_accessor_def less_mult_imp_div_less mult.commute mult.left_commute)
  moreover have "heaps ! node_ptr a = 0" using assms(5) by (simp add: a_def heap_accessor_def)
  ultimately show ?thesis
    unfolding a_def [symmetric] by (simp add: heap_inv_def count_of_def nodes_def is_heap_def)
qed

section \<open>Properties\<close>

text \<open>
  C9: after a thread has offered any sequence of keys to \<open>get_bin_from_k_heap\<close>, starting with an empty heap,
  the rows in use hold the \<open>k\<close> greatest of the keys in the order of the comparator (all keys if there are
  fewer), for ascending and descending order and NULLs first or last, every other key being no
  greater than a kept one; and no word of another thread has changed.
\<close>

theorem top_k_rows:
  assumes "tid < threads" "0 < k" "8 \<le> key_offset" "key_offset < 8 * row_size"
    "threads + threads * k + threads * row_size * k \<le> length heaps" "heaps ! tid = 0"
    "heaps' = fold (\<lambda>key heaps. fst (get_bin_from_k_heap_impl tid threads k row_size key_offset min_heap has_null nulls_first
       null_val key heaps)) keys heaps"
  shows "best_of (heap_comparator min_heap has_null nulls_first null_val) k keys
      (stored_keys (heap_accessor tid threads k row_size key_offset) heaps') \<and>
    untouched (heap_accessor tid threads k row_size key_offset) k heaps heaps'"
proof -
  define a where "a = heap_accessor tid threads k row_size key_offset"
  define c where "c = heap_comparator min_heap has_null nulls_first null_val"
  define f where "f = (\<lambda>key heaps. fst (get_bin_from_k_heap_impl tid threads k row_size key_offset min_heap has_null
    nulls_first null_val key heaps))"
  have "heap_inv c a k (fold f keys heaps) \<and> best_of c k keys (stored_keys a (fold f keys heaps)) \<and> untouched a k heaps (fold f keys heaps)"
  proof (induction keys rule: rev_induct)
    case Nil
    have "count_of a heaps = 0" using assms(6) by (simp add: a_def count_of_def heap_accessor_def)
    then show ?case using heap_inv_empty [OF assms(1,3-6), of c, folded a_def]
      by (simp add: best_of_def stored_keys_def untouched_def)
  next
    case (snoc key keys)
    define b where "b = fold f keys heaps"
    have "heap_inv c a k (f key b) \<and> best_of c k (keys @ [key]) (stored_keys a (f key b)) \<and> untouched a k b (f key b)"
      by (rule get_bin_step [OF _ assms(2) _ a_def c_def]) (use snoc in \<open>simp_all add: b_def f_def\<close>)
    then show ?case using snoc untouched_trans by (auto simp: b_def)
  qed
  then show ?thesis by (simp add: assms(7) a_def c_def f_def)
qed

theorem top_k_rows_witness:
  "best_of (heap_comparator True True False (- 1)) 2 [5, - 1, 9, 7] [7, 9] \<and>
   stored_keys (heap_accessor 0 1 2 2 8) (fold (\<lambda>key heaps. fst (get_bin_from_k_heap_impl 0 1 2 2 8 True True False (- 1) key heaps))
     [5, - 1, 9, 7] (replicate 7 0)) = [7, 9]"
proof -
  define heaps' where "heaps' = fold (\<lambda>key heaps. fst (get_bin_from_k_heap_impl 0 1 2 2 8 True True False (- 1) key heaps))
     [5, - 1, 9, 7] (replicate 7 0)"
  have s: "stored_keys (heap_accessor 0 1 2 2 8) heaps' = [7, 9]" unfolding heaps'_def by code_simp
  have "replicate 7 (0 :: int) ! 0 = 0" "1 + 1 * 2 + 1 * 2 * 2 \<le> length (replicate 7 (0 :: int))" by simp_all
  with top_k_rows [of 0 1 2 8 2 "replicate 7 0" heaps' True True False "- 1" "[5, - 1, 9, 7]"] s
  show ?thesis unfolding heaps'_def by simp
qed

end
