(* ===== verification/String_Storage.thy ===== *)
theory String_Storage
  imports Cider_Prelude
begin

text \<open>
  The storage of a string dictionary (\<open>StringDictionary.cpp\<close>): the bytes of the strings one after the
  other in a payload region, and one entry with offset and size per string in an offset region.  Both
  regions grow by whole pages; fresh pages are filled with \<open>0xff\<close>, so that the entry of a string
  that was never written reads as the canary.  Shown here: appending a string keeps the stored
  strings and their invariant, nothing is written outside the regions, and the number of stored
  strings is found again by binary search for the first canary.

  A region is a function from addresses together with its size; the pages of a file that is mapped
  into memory and the blocks of the allocator are both such regions.  The page size is a parameter,
  and growing a region succeeds.
\<close>

section \<open>Regions\<close>

record StringIdxEntry =
  entry_off :: int
  entry_size :: int

record string_storage =
  str_count :: int
  offset_map :: "int \<Rightarrow> StringIdxEntry"
  payload_map :: "int \<Rightarrow> char"
  offset_file_size :: int
  payload_file_size :: int
  payload_file_off :: int

definition MAX_STRLEN :: int where "MAX_STRLEN = 32767"

definition MAX_STRCOUNT :: int where "MAX_STRCOUNT = 2147483647"

text \<open>An entry has 48 bits for the offset and 16 for the size.\<close>

definition make_entry :: "int \<Rightarrow> int \<Rightarrow> StringIdxEntry" where
  "make_entry off len = \<lparr>entry_off = off mod 281474976710656, entry_size = len mod 65536\<rparr>"

definition capacity_to_add :: "int \<Rightarrow> int \<Rightarrow> int" where
  "capacity_to_add page min_capacity_requested =
     max (1024 * page) ((min_capacity_requested div page + 1) * page)"

definition addPayloadCapacity :: "int \<Rightarrow> int \<Rightarrow> 'a string_storage_scheme \<Rightarrow> 'a string_storage_scheme" where
  "addPayloadCapacity page min_capacity_requested s =
     (let old_size = payload_file_size s;
          new_size = old_size + capacity_to_add page min_capacity_requested
      in s\<lparr>payload_map := (\<lambda>i. if old_size \<le> i \<and> i < new_size then CHR 0xFF else payload_map s i),
           payload_file_size := new_size\<rparr>)"

definition addOffsetCapacity :: "int \<Rightarrow> int \<Rightarrow> 'a string_storage_scheme \<Rightarrow> 'a string_storage_scheme" where
  "addOffsetCapacity page min_capacity_requested s =
     (let old_size = offset_file_size s;
          new_size = old_size + capacity_to_add page min_capacity_requested
      in s\<lparr>offset_map := (\<lambda>i. if old_size \<le> 8 * i \<and> 8 * i < new_size then make_entry (- 1) (- 1) else offset_map s i),
           offset_file_size := new_size\<rparr>)"

definition checkAndConditionallyIncreasePayloadCapacity ::
  "int \<Rightarrow> int \<Rightarrow> 'a string_storage_scheme \<Rightarrow> 'a string_storage_scheme result" where
  "checkAndConditionallyIncreasePayloadCapacity page write_length s =
     (if payload_file_off s + write_length > payload_file_size s then
        let min_capacity_needed = write_length - (payload_file_size s - payload_file_off s);
            s' = addPayloadCapacity page min_capacity_needed s
        in if payload_file_off s' + write_length \<le> payload_file_size s' then Inr s' else Inl CheckFailed
      else Inr s)"

definition checkAndConditionallyIncreaseOffsetCapacity ::
  "int \<Rightarrow> int \<Rightarrow> 'a string_storage_scheme \<Rightarrow> 'a string_storage_scheme result" where
  "checkAndConditionallyIncreaseOffsetCapacity page write_length s =
     (let offset_file_off = str_count s * 8
      in if offset_file_off + write_length \<ge> offset_file_size s then
           let min_capacity_needed = write_length - (offset_file_size s - offset_file_off);
               s' = addOffsetCapacity page min_capacity_needed s
           in if offset_file_off + write_length \<le> offset_file_size s' then Inr s' else Inl CheckFailed
         else Inr s)"

text \<open>\<open>memcpy\<close> of a string into the payload.\<close>

definition write_payload :: "string \<Rightarrow> 'a string_storage_scheme \<Rightarrow> 'a string_storage_scheme" where
  "write_payload str s =
     (let off = payload_file_off s
      in s\<lparr>payload_map := (\<lambda>i. if off \<le> i \<and> i < off + int (length str) then str ! nat (i - off) else payload_map s i),
           payload_file_off := off + int (length str)\<rparr>)"

text \<open>The caller counts the string.\<close>

definition appendToStorage :: "int \<Rightarrow> string \<Rightarrow> 'a string_storage_scheme \<Rightarrow> 'a string_storage_scheme result" where
  "appendToStorage page str s =
     rbind (checkAndConditionallyIncreasePayloadCapacity page (int (length str)) s) (\<lambda>s.
       let str_meta = make_entry (payload_file_off s) (int (length str));
           s = write_payload str s
       in rbind (checkAndConditionallyIncreaseOffsetCapacity page 8 s) (\<lambda>s.
            Inr (s\<lparr>offset_map := (offset_map s)(str_count s := str_meta)\<rparr>)))"

definition append_entry :: "string \<Rightarrow> int \<Rightarrow> 'a string_storage_scheme \<Rightarrow> 'a string_storage_scheme" where
  "append_entry str i s =
     (write_payload str s)\<lparr>offset_map := (offset_map s)(str_count s + i := make_entry (payload_file_off s) (int (length str)))\<rparr>"

definition appendToStorageBulk ::
  "int \<Rightarrow> string list \<Rightarrow> nat list \<Rightarrow> int \<Rightarrow> 'a string_storage_scheme \<Rightarrow> 'a string_storage_scheme result" where
  "appendToStorageBulk page input_strings string_memory_ids sum_new_strings_lengths s =
     (let num_strings = length string_memory_ids
      in rbind (checkAndConditionallyIncreasePayloadCapacity page sum_new_strings_lengths s) (\<lambda>s.
         rbind (checkAndConditionallyIncreaseOffsetCapacity page (8 * int num_strings) s) (\<lambda>s.
           Inr (fold (\<lambda>i s. append_entry (input_strings ! (string_memory_ids ! i)) (int i) s) [0..<num_strings] s))))"

definition getStringFromStorageFast :: "'a string_storage_scheme \<Rightarrow> int \<Rightarrow> string" where
  "getStringFromStorageFast s string_id =
     (let str_meta = offset_map s string_id
      in map (payload_map s) [entry_off str_meta..entry_off str_meta + entry_size str_meta - 1])"

text \<open>The string, or the mark that the canary was hit.\<close>

definition getStringFromStorage :: "'a string_storage_scheme \<Rightarrow> int \<Rightarrow> (string \<times> bool) result" where
  "getStringFromStorage s string_id =
     (if string_id < 0 then Inl CheckFailed
      else if entry_size (offset_map s string_id) = 65535 then Inr ([], True)
      else Inr (getStringFromStorageFast s string_id, False))"

definition getStringChecked :: "'a string_storage_scheme \<Rightarrow> int \<Rightarrow> string result" where
  "getStringChecked s string_id =
     rbind (getStringFromStorage s string_id) (\<lambda>(str, canary). if canary then Inl CheckFailed else Inr str)"

definition getStringUnlocked :: "'a string_storage_scheme \<Rightarrow> int \<Rightarrow> string result" where
  "getStringUnlocked s string_id =
     (if string_id < s32 (str_count s) then getStringChecked s string_id else Inl CheckFailed)"

definition getStringBytes :: "'a string_storage_scheme \<Rightarrow> int \<Rightarrow> string result" where
  "getStringBytes s string_id =
     (if 0 \<le> string_id \<and> string_id < s32 (str_count s) then getStringChecked s string_id else Inl CheckFailed)"

text \<open>Empty regions get their first pages.\<close>

definition init_storage :: "int \<Rightarrow> 'a string_storage_scheme \<Rightarrow> 'a string_storage_scheme" where
  "init_storage page s =
     (let s = (if payload_file_size s = 0 then addPayloadCapacity page 0 s else s)
      in if offset_file_size s = 0 then addOffsetCapacity page 0 s else s)"

text \<open>Binary search for the first canary.\<close>

function search_canary :: "'a string_storage_scheme \<Rightarrow> int \<Rightarrow> int \<Rightarrow> int \<Rightarrow> int result" where
  "search_canary s min_bound max_bound guess =
     (if min_bound \<le> max_bound then
        let guess = (max_bound + min_bound) sdiv 2
        in if guess < 0 then Inl CheckFailed
           else (case getStringFromStorage s guess of
                   Inl e \<Rightarrow> Inl e
                 | Inr (_, canary) \<Rightarrow>
                     if canary then search_canary s min_bound (guess - 1) guess
                     else search_canary s (guess + 1) max_bound guess)
      else let n = guess + (if min_bound > guess then 1 else 0) in if n < 0 then Inl CheckFailed else Inr n)"
  by pat_completeness auto
termination
  by (relation "measure (\<lambda>(s, lo, hi, g). nat (hi + 1 - lo))")
    (auto simp: signed_divide_int_def sgn_if split: if_splits)

declare search_canary.simps [simp del]

definition getNumStringsFromStorage :: "'a string_storage_scheme \<Rightarrow> int \<Rightarrow> int result" where
  "getNumStringsFromStorage s storage_slots =
     (if storage_slots = 0 then Inr 0 else search_canary s 0 (storage_slots - 1) 0)"

section \<open>The stored strings\<close>

definition stored :: "'a string_storage_scheme \<Rightarrow> string list" where
  "stored s = map (getStringFromStorageFast s) [0..str_count s - 1]"

definition storage_ok :: "'a string_storage_scheme \<Rightarrow> bool" where
  "storage_ok s \<longleftrightarrow>
     0 \<le> str_count s \<and> str_count s \<le> MAX_STRCOUNT \<and>
     (\<forall>i. 0 \<le> i \<and> i < str_count s \<longrightarrow>
        0 \<le> entry_off (offset_map s i) \<and> 0 \<le> entry_size (offset_map s i) \<and> entry_size (offset_map s i) \<le> MAX_STRLEN \<and>
        entry_off (offset_map s i) + entry_size (offset_map s i) \<le> payload_file_off s) \<and>
     (\<forall>i. str_count s \<le> i \<and> 8 * i < offset_file_size s \<longrightarrow> entry_size (offset_map s i) = 65535) \<and>
     payload_file_off s = int (sum_list (map length (stored s))) \<and>
     payload_file_off s \<le> payload_file_size s \<and> 0 < payload_file_size s \<and> 8 * str_count s < offset_file_size s"

lemma length_getStringFromStorageFast [simp]:
  "length (getStringFromStorageFast s i) = nat (entry_size (offset_map s i))"
  by (simp add: getStringFromStorageFast_def Let_def)

lemma length_stored [simp]: "length (stored s) = nat (str_count s)"
  by (simp add: stored_def)

lemma stored_nth: "i < nat (str_count s) \<Longrightarrow> stored s ! i = getStringFromStorageFast s (int i)"
  by (simp add: stored_def)

lemma storage_okD:
  assumes "storage_ok s"
  shows "0 \<le> str_count s" "str_count s \<le> MAX_STRCOUNT" "payload_file_off s \<le> payload_file_size s"
    "8 * str_count s < offset_file_size s" "payload_file_off s = int (sum_list (map length (stored s)))"
    "\<And>i. 0 \<le> i \<Longrightarrow> i < str_count s \<Longrightarrow> 0 \<le> entry_off (offset_map s i) \<and> 0 \<le> entry_size (offset_map s i) \<and>
      entry_size (offset_map s i) \<le> MAX_STRLEN \<and> entry_off (offset_map s i) + entry_size (offset_map s i) \<le> payload_file_off s"
    "\<And>i. str_count s \<le> i \<Longrightarrow> 8 * i < offset_file_size s \<Longrightarrow> entry_size (offset_map s i) = 65535"
    "0 < payload_file_size s"
  using assms by (auto simp: storage_ok_def)

lemma sum_list_at_most: "(\<And>x. x \<in> set xs \<Longrightarrow> f x \<le> b) \<Longrightarrow> sum_list (map f xs) \<le> length xs * (b :: nat)"
  by (induction xs) (force simp: add_mono)+

lemma payload_off_48_bits:
  assumes "storage_ok s"
  shows "0 \<le> payload_file_off s" "payload_file_off s < 281474976710656"
proof -
  have "length x \<le> nat MAX_STRLEN" if "x \<in> set (stored s)" for x
    using that storage_okD(6) [OF assms] by (auto simp: stored_def intro!: nat_mono)
  then have "sum_list (map length (stored s)) \<le> nat (str_count s) * nat MAX_STRLEN"
    using sum_list_at_most [of "stored s" length] by simp
  also have "\<dots> \<le> nat MAX_STRCOUNT * nat MAX_STRLEN" using storage_okD(1,2) [OF assms] by (intro mult_right_mono) simp_all
  finally show "payload_file_off s < 281474976710656"
    using storage_okD(5) [OF assms] by (simp add: MAX_STRCOUNT_def MAX_STRLEN_def)
  show "0 \<le> payload_file_off s" using storage_okD(5) [OF assms] by simp
qed

section \<open>Growing the regions\<close>

lemma capacity_to_add_more: "0 < page \<Longrightarrow> req < capacity_to_add page req" "0 < page \<Longrightarrow> 0 < capacity_to_add page req"
proof -
  assume "0 < page"
  moreover have "page * (req div page) + req mod page = req" by (rule mult_div_mod_eq)
  moreover have "(req div page + 1) * page = page * (req div page) + page" by (simp add: algebra_simps)
  ultimately have "req < (req div page + 1) * page" using pos_mod_bound [of page req] by linarith
  then show "req < capacity_to_add page req" by (simp add: capacity_to_add_def less_max_iff_disj)
qed (simp add: capacity_to_add_def less_max_iff_disj)

lemma payload_capacity:
  assumes "0 < page" "payload_file_off s \<le> payload_file_size s"
  obtains m sz where
    "checkAndConditionallyIncreasePayloadCapacity page len s = Inr (s\<lparr>payload_map := m, payload_file_size := sz\<rparr>)"
    "payload_file_off s + len \<le> sz" "payload_file_size s \<le> sz" "\<And>i. i < payload_file_size s \<Longrightarrow> m i = payload_map s i"
proof (cases "payload_file_off s + len > payload_file_size s")
  case True
  let ?sz = "payload_file_size s + capacity_to_add page (len - (payload_file_size s - payload_file_off s))"
  have "payload_file_off s + len \<le> ?sz" "payload_file_size s \<le> ?sz"
    using capacity_to_add_more [OF assms(1), of "len - (payload_file_size s - payload_file_off s)"] assms(2) by linarith+
  with True that [of ?sz "\<lambda>i. if payload_file_size s \<le> i \<and> i < ?sz then CHR 0xFF else payload_map s i"] show ?thesis
    by (simp add: checkAndConditionallyIncreasePayloadCapacity_def addPayloadCapacity_def Let_def)
next
  case False
  with that [of "payload_file_size s" "payload_map s"] assms(2) show ?thesis
    by (simp add: checkAndConditionallyIncreasePayloadCapacity_def)
qed

lemma offset_capacity:
  assumes "0 < page"
  obtains m sz where
    "checkAndConditionallyIncreaseOffsetCapacity page len s = Inr (s\<lparr>offset_map := m, offset_file_size := sz\<rparr>)"
    "8 * str_count s + len < sz" "\<And>i. 8 * i < offset_file_size s \<Longrightarrow> m i = offset_map s i"
    "\<And>i. offset_file_size s \<le> 8 * i \<Longrightarrow> 8 * i < sz \<Longrightarrow> entry_size (m i) = 65535"
proof (cases "str_count s * 8 + len \<ge> offset_file_size s")
  case True
  let ?sz = "offset_file_size s + capacity_to_add page (len - (offset_file_size s - str_count s * 8))"
  have "str_count s * 8 + len < ?sz"
    using capacity_to_add_more(1) [OF assms, of "len - (offset_file_size s - str_count s * 8)"] by linarith
  with True that [of ?sz "\<lambda>i. if offset_file_size s \<le> 8 * i \<and> 8 * i < ?sz then make_entry (- 1) (- 1) else offset_map s i"]
  show ?thesis
    by (simp add: checkAndConditionallyIncreaseOffsetCapacity_def addOffsetCapacity_def Let_def make_entry_def)
next
  case False
  with that [of "offset_file_size s" "offset_map s"] show ?thesis
    by (simp add: checkAndConditionallyIncreaseOffsetCapacity_def Let_def mult.commute)
qed

section \<open>Appending\<close>

lemma getStringFromStorageFast_cong:
  "offset_map s i = offset_map s' i \<Longrightarrow>
   (\<And>j. entry_off (offset_map s i) \<le> j \<Longrightarrow> j < entry_off (offset_map s i) + entry_size (offset_map s i) \<Longrightarrow> payload_map s j = payload_map s' j) \<Longrightarrow>
   getStringFromStorageFast s i = getStringFromStorageFast s' i"
  by (simp add: getStringFromStorageFast_def Let_def)

text \<open>What a storage must look like after one more string, whichever way it was written.\<close>

lemma one_more_string:
  assumes "storage_ok s" "int (length str) \<le> MAX_STRLEN" "str_count s < MAX_STRCOUNT"
    and "str_count s' = str_count s + 1" "payload_file_off s' = payload_file_off s + int (length str)"
    and "payload_file_off s' \<le> payload_file_size s'" "payload_file_size s \<le> payload_file_size s'" "8 * str_count s' < offset_file_size s'"
    and old: "\<And>i. 0 \<le> i \<Longrightarrow> i < str_count s \<Longrightarrow> offset_map s' i = offset_map s i"
      "\<And>i. i < payload_file_off s \<Longrightarrow> payload_map s' i = payload_map s i"
    and new: "offset_map s' (str_count s) = make_entry (payload_file_off s) (int (length str))"
      "\<And>k. k < length str \<Longrightarrow> payload_map s' (payload_file_off s + int k) = str ! k"
    and canaries: "\<And>i. str_count s < i \<Longrightarrow> 8 * i < offset_file_size s' \<Longrightarrow> entry_size (offset_map s' i) = 65535"
  shows "storage_ok s'" "stored s' = stored s @ [str]"
proof -
  note ok = storage_okD [OF assms(1)]
  have entry: "make_entry (payload_file_off s) (int (length str)) = \<lparr>entry_off = payload_file_off s, entry_size = int (length str)\<rparr>"
    using payload_off_48_bits [OF assms(1)] assms(2) by (simp add: make_entry_def MAX_STRLEN_def)
  have "getStringFromStorageFast s' (str_count s) = str"
  proof (rule nth_equalityI)
    show "length (getStringFromStorageFast s' (str_count s)) = length str" by (simp add: new entry)
    show "getStringFromStorageFast s' (str_count s) ! k = str ! k" if "k < length (getStringFromStorageFast s' (str_count s))" for k
      using that new(2) [of k] by (simp add: getStringFromStorageFast_def Let_def new(1) entry)
  qed
  moreover have "getStringFromStorageFast s' i = getStringFromStorageFast s i" if "0 \<le> i" "i < str_count s" for i
    using ok(6) [OF that] old that by (intro getStringFromStorageFast_cong) auto
  ultimately show stored: "stored s' = stored s @ [str]"
    using ok(1) assms(4) by (simp add: stored_def upto_rec2)
  have "0 \<le> entry_off (offset_map s' i) \<and> 0 \<le> entry_size (offset_map s' i) \<and> entry_size (offset_map s' i) \<le> MAX_STRLEN \<and>
      entry_off (offset_map s' i) + entry_size (offset_map s' i) \<le> payload_file_off s'" if "0 \<le> i" "i < str_count s'" for i
  proof (cases "i = str_count s")
    case True
    then show ?thesis using assms(2,5) payload_off_48_bits [OF assms(1)] by (simp add: new(1) entry)
  next
    case False
    then have "i < str_count s" using that assms(4) by simp
    then show ?thesis using ok(6) [OF that(1)] old(1) that(1) assms(5) by force
  qed
  then show "storage_ok s'"
    using ok(1,5,8) assms(3-8) canaries stored by (simp add: storage_ok_def)
qed

lemma appendToStorage_ok:
  assumes "storage_ok s" "0 < page" "int (length str) \<le> MAX_STRLEN" "str_count s < MAX_STRCOUNT"
  obtains s' where "appendToStorage page str s = Inr s'" "str_count s' = str_count s" "string_storage.more s' = string_storage.more s"
    "storage_ok (s'\<lparr>str_count := str_count s + 1\<rparr>)" "stored (s'\<lparr>str_count := str_count s + 1\<rparr>) = stored s @ [str]"
proof -
  note ok = storage_okD [OF assms(1)]
  obtain m sz where p: "checkAndConditionallyIncreasePayloadCapacity page (int (length str)) s = Inr (s\<lparr>payload_map := m, payload_file_size := sz\<rparr>)"
    "payload_file_off s + int (length str) \<le> sz" "\<And>i. i < payload_file_size s \<Longrightarrow> m i = payload_map s i" "payload_file_size s \<le> sz"
    using payload_capacity [OF assms(2) ok(3), of "int (length str)"] by metis
  define s1 where "s1 = write_payload str (s\<lparr>payload_map := m, payload_file_size := sz\<rparr>)"
  obtain e os where o: "checkAndConditionallyIncreaseOffsetCapacity page 8 s1 = Inr (s1\<lparr>offset_map := e, offset_file_size := os\<rparr>)"
    "8 * str_count s1 + 8 < os" "\<And>i. 8 * i < offset_file_size s1 \<Longrightarrow> e i = offset_map s1 i"
    "\<And>i. offset_file_size s1 \<le> 8 * i \<Longrightarrow> 8 * i < os \<Longrightarrow> entry_size (e i) = 65535"
    using offset_capacity [OF assms(2), of 8 s1] by metis
  define s' where "s' = s1\<lparr>offset_map := e(str_count s := make_entry (payload_file_off s) (int (length str))), offset_file_size := os\<rparr>"
  have s1: "str_count s1 = str_count s" "offset_map s1 = offset_map s" "offset_file_size s1 = offset_file_size s"
    "payload_file_off s1 = payload_file_off s + int (length str)" "payload_file_size s1 = sz" "string_storage.more s1 = string_storage.more s"
    "payload_map s1 = (\<lambda>i. if payload_file_off s \<le> i \<and> i < payload_file_off s + int (length str) then str ! nat (i - payload_file_off s) else m i)"
    by (simp_all add: s1_def write_payload_def Let_def cong: if_cong)
  have "appendToStorage page str s = Inr s'"
    using o(1) by (simp add: appendToStorage_def p(1) Let_def s'_def s1 flip: s1_def)
  moreover have e: "entry_size (e i) = 65535" if "str_count s \<le> i" "8 * i < os" for i
    using o(3,4) [of i] ok(7) [of i] that s1 by (cases "8 * i < offset_file_size s") simp_all
  have "e i = offset_map s i" if "i < str_count s" for i using o(3) [of i] that ok(4) s1 by simp
  then have "storage_ok (s'\<lparr>str_count := str_count s + 1\<rparr>)" "stored (s'\<lparr>str_count := str_count s + 1\<rparr>) = stored s @ [str]"
    using one_more_string [OF assms(1,3,4), of "s'\<lparr>str_count := str_count s + 1\<rparr>"] p(2-4) o(2) e ok(3)
    by (simp_all add: s'_def s1)
  ultimately show thesis using that [of s'] s1 by (simp add: s'_def)
qed

text \<open>Many strings at once: the entries are written before the strings are counted.\<close>

lemma append_entry_simps [simp]:
  "str_count (append_entry str i s) = str_count s" "string_storage.more (append_entry str i s) = string_storage.more s"
  "payload_file_size (append_entry str i s) = payload_file_size s" "offset_file_size (append_entry str i s) = offset_file_size s"
  "payload_file_off (append_entry str i s) = payload_file_off s + int (length str)"
  "offset_map (append_entry str i s) = (offset_map s)(str_count s + i := make_entry (payload_file_off s) (int (length str)))"
  "payload_map (append_entry str i s) = (\<lambda>j. if payload_file_off s \<le> j \<and> j < payload_file_off s + int (length str)
     then str ! nat (j - payload_file_off s) else payload_map s j)"
  by (simp_all add: append_entry_def write_payload_def Let_def)

lemma append_entries:
  assumes "storage_ok s" "\<forall>x \<in> set xs. int (length x) \<le> MAX_STRLEN" "str_count s + int (length xs) \<le> MAX_STRCOUNT"
    "payload_file_off s + int (sum_list (map length xs)) \<le> payload_file_size s" "8 * (str_count s + int (length xs)) < offset_file_size s"
    "k \<le> length xs" "s' = fold (\<lambda>i. append_entry (xs ! i) (int i)) [0..<k] s"
  shows "str_count s' = str_count s \<and> string_storage.more s' = string_storage.more s \<and>
    payload_file_size s' = payload_file_size s \<and> offset_file_size s' = offset_file_size s \<and>
    payload_file_off s' = payload_file_off s + int (sum_list (map length (take k xs))) \<and>
    storage_ok (s'\<lparr>str_count := str_count s + int k\<rparr>) \<and> stored (s'\<lparr>str_count := str_count s + int k\<rparr>) = stored s @ take k xs"
  using assms(6,7)
proof (induction k arbitrary: s')
  case 0
  then show ?case using assms(1) by simp
next
  case (Suc k)
  define t where "t = fold (\<lambda>i. append_entry (xs ! i) (int i)) [0..<k] s"
  let ?t = "t\<lparr>str_count := str_count s + int k\<rparr>"
  have IH: "str_count t = str_count s" "string_storage.more t = string_storage.more s"
    "payload_file_size t = payload_file_size s" "offset_file_size t = offset_file_size s"
    "payload_file_off t = payload_file_off s + int (sum_list (map length (take k xs)))"
    "storage_ok ?t" "stored ?t = stored s @ take k xs"
    using Suc.IH [OF _ t_def] Suc.prems(1) by simp_all
  have s': "s' = append_entry (xs ! k) (int k) t" using Suc.prems(2) by (simp add: t_def)
  have tk: "take (Suc k) xs = take k xs @ [xs ! k]" using Suc.prems(1) by (simp add: take_Suc_conv_app_nth)
  have "sum_list (map length xs) = sum_list (map length (take (Suc k) xs)) + sum_list (map length (drop (Suc k) xs))"
    by (metis append_take_drop_id map_append sum_list_append)
  then have "payload_file_off s' \<le> payload_file_size s'" using assms(4) IH s' tk by simp
  moreover have "int (length (xs ! k)) \<le> MAX_STRLEN" using assms(2) Suc.prems(1) by simp
  ultimately have "storage_ok (s'\<lparr>str_count := str_count s + int (Suc k)\<rparr>)"
    "stored (s'\<lparr>str_count := str_count s + int (Suc k)\<rparr>) = stored ?t @ [xs ! k]"
    using one_more_string [OF IH(6), of "xs ! k" "s'\<lparr>str_count := str_count s + int (Suc k)\<rparr>"]
      storage_okD(7) [OF IH(6)] Suc.prems(1) assms(3,5) IH(1-5)
    by (simp_all add: s' algebra_simps)
  then show ?case using IH s' tk by simp
qed

lemma appendToStorageBulk_ok:
  assumes "storage_ok s" "0 < page" "xs = map ((!) strs) ids" "\<forall>x \<in> set xs. int (length x) \<le> MAX_STRLEN"
    "str_count s + int (length ids) \<le> MAX_STRCOUNT"
  obtains s' where "appendToStorageBulk page strs ids (int (sum_list (map length xs))) s = Inr s'"
    "str_count s' = str_count s" "string_storage.more s' = string_storage.more s"
    "storage_ok (s'\<lparr>str_count := str_count s + int (length ids)\<rparr>)"
    "stored (s'\<lparr>str_count := str_count s + int (length ids)\<rparr>) = stored s @ xs"
proof -
  note ok = storage_okD [OF assms(1)]
  obtain m sz where p: "checkAndConditionallyIncreasePayloadCapacity page (int (sum_list (map length xs))) s =
      Inr (s\<lparr>payload_map := m, payload_file_size := sz\<rparr>)" "payload_file_off s + int (sum_list (map length xs)) \<le> sz"
    "payload_file_size s \<le> sz" "\<And>i. i < payload_file_size s \<Longrightarrow> m i = payload_map s i"
    using payload_capacity [OF assms(2) ok(3), of "int (sum_list (map length xs))"] by metis
  define s1 where "s1 = s\<lparr>payload_map := m, payload_file_size := sz\<rparr>"
  obtain e os where o: "checkAndConditionallyIncreaseOffsetCapacity page (8 * int (length ids)) s1 =
      Inr (s1\<lparr>offset_map := e, offset_file_size := os\<rparr>)" "8 * str_count s1 + 8 * int (length ids) < os"
    "\<And>i. 8 * i < offset_file_size s1 \<Longrightarrow> e i = offset_map s1 i"
    "\<And>i. offset_file_size s1 \<le> 8 * i \<Longrightarrow> 8 * i < os \<Longrightarrow> entry_size (e i) = 65535"
    using offset_capacity [OF assms(2), of "8 * int (length ids)" s1] by metis
  define s2 where "s2 = s1\<lparr>offset_map := e, offset_file_size := os\<rparr>"
  have fast: "getStringFromStorageFast s2 i = getStringFromStorageFast s i" if "0 \<le> i" "i < str_count s" for i
    using ok(6) [OF that] that p(4) ok(3,4) o(3) [of i] by (intro getStringFromStorageFast_cong) (auto simp: s2_def s1_def)
  then have st: "stored s2 = stored s" by (simp add: stored_def s2_def s1_def)
  have canary: "entry_size (e i) = 65535" if "str_count s \<le> i" "8 * i < os" for i
    using o(3,4) [of i] ok(7) [of i] that by (cases "8 * i < offset_file_size s") (simp_all add: s1_def)
  have "e i = offset_map s i" if "i < str_count s" for i using o(3) [of i] that ok(4) by (simp add: s1_def)
  then have "storage_ok s2" using assms(1) canary st p(3) ok(3) o(2) by (auto simp: storage_ok_def s2_def s1_def)
  moreover have "map ((!) strs) ids ! i = strs ! (ids ! i)" if "i \<in> set [0..<length ids]" for i using that by simp
  then have "fold (\<lambda>i. append_entry (strs ! (ids ! i)) (int i)) [0..<length ids] s2 =
      fold (\<lambda>i. append_entry (xs ! i) (int i)) [0..<length ids] s2"
    unfolding assms(3) by (intro fold_cong) simp_all
  ultimately show thesis
    using that append_entries [OF _ assms(4) _ _ _ _ refl, of s2 "length ids"] assms(3,5) p(1,2) o(1,2) st
    by (simp add: appendToStorageBulk_def s1_def s2_def Let_def)
qed

section \<open>Reading\<close>

lemma getStringChecked_stored:
  assumes "storage_ok s" "0 \<le> i" "i < str_count s"
  shows "getStringChecked s i = Inr (stored s ! nat i)" "getStringUnlocked s i = Inr (stored s ! nat i)"
    "getStringBytes s i = Inr (stored s ! nat i)"
  using storage_okD(6) [OF assms] storage_okD(1,2) [OF assms(1)] assms(2,3)
  by (simp_all add: getStringChecked_def getStringFromStorage_def getStringUnlocked_def getStringBytes_def MAX_STRLEN_def
      MAX_STRCOUNT_def wrap_id stored_nth)

lemma getStringUnlocked_outside:
  assumes "storage_ok s" "i < 0 \<or> str_count s \<le> i"
  shows "getStringUnlocked s i = Inl CheckFailed" "getStringBytes s i = Inl CheckFailed"
  using storage_okD(1,2) [OF assms(1)] assms(2)
  by (auto simp: getStringUnlocked_def getStringBytes_def getStringChecked_def getStringFromStorage_def MAX_STRCOUNT_def wrap_id)

lemma getStringFromStorage_canary:
  assumes "storage_ok s" "0 \<le> i" "8 * i < offset_file_size s"
  shows "getStringFromStorage s i = Inr (if i < str_count s then (stored s ! nat i, False) else ([], True))"
  using storage_okD(6) [OF assms(1,2)] storage_okD(7) [OF assms(1), of i] assms(2,3)
  by (cases "i < str_count s") (simp_all add: getStringFromStorage_def MAX_STRLEN_def stored_nth)

lemma search_canary_finds:
  "storage_ok s \<Longrightarrow> 0 \<le> lo \<Longrightarrow> lo \<le> str_count s \<Longrightarrow> str_count s \<le> hi + 1 \<Longrightarrow> 8 * hi < offset_file_size s \<Longrightarrow>
    (hi < lo \<Longrightarrow> g = str_count s \<or> g = str_count s - 1) \<Longrightarrow> search_canary s lo hi g = Inr (str_count s)"
proof (induction s lo hi g rule: search_canary.induct)
  case (1 s lo hi g)
  show ?case
  proof (cases "lo \<le> hi")
    case True
    define m where "m = (hi + lo) sdiv 2"
    have m: "lo \<le> m" "m \<le> hi" "0 \<le> m" using True 1(4) by (simp_all add: m_def sdiv_nonneg)
    then have get: "getStringFromStorage s m = Inr (if m < str_count s then (stored s ! nat m, False) else ([], True))"
      using 1(3,7) by (intro getStringFromStorage_canary) simp_all
    show ?thesis
    proof (cases "m < str_count s")
      case inside: True
      have "search_canary s (m + 1) hi m = Inr (str_count s)"
        using 1(2) [OF True m_def, of "(stored s ! nat m, False)" "stored s ! nat m" False] 1(3-7) inside m get by simp
      then show ?thesis using True inside m get by (subst search_canary.simps) (simp add: flip: m_def)
    next
      case outside: False
      have "search_canary s lo (m - 1) m = Inr (str_count s)"
        using 1(1) [OF True m_def, of "([], True)" "[]" True] 1(3-7) outside m get by simp
      then show ?thesis using True outside m get by (subst search_canary.simps) (simp add: flip: m_def)
    qed
  next
    case False
    then show ?thesis using 1(4-8) by (subst search_canary.simps) auto
  qed
qed

lemma getNumStringsFromStorage_ok:
  assumes "storage_ok s"
  shows "getNumStringsFromStorage s (offset_file_size s div 8) = Inr (str_count s)"
proof -
  have "0 < offset_file_size s div 8 \<or> str_count s = 0" "str_count s \<le> offset_file_size s div 8"
    using storage_okD(1,4) [OF assms] by linarith+
  moreover have "8 * (offset_file_size s div 8 - 1) < offset_file_size s" by presburger
  ultimately show ?thesis using search_canary_finds [OF assms, of 0 "offset_file_size s div 8 - 1" 0] storage_okD(1) [OF assms]
    by (auto simp: getNumStringsFromStorage_def)
qed

lemma init_storage_ok:
  assumes "0 < page" "str_count s = 0" "payload_file_off s = 0" "payload_file_size s = 0" "offset_file_size s = 0"
  shows "storage_ok (init_storage page s)" "stored (init_storage page s) = []"
    "string_storage.more (init_storage page s) = string_storage.more s" "str_count (init_storage page s) = 0"
  using capacity_to_add_more(2) [OF assms(1), of 0] assms
  by (simp_all add: init_storage_def addPayloadCapacity_def addOffsetCapacity_def Let_def storage_ok_def stored_def MAX_STRCOUNT_def
      make_entry_def)

end
