(* ===== verification/Interning.thy ===== *)
theory Interning
  imports Cider_Prelude
begin

text \<open>
  Interning: a component that gives every key an id, the same id for the same key.  \<open>interner\<close> is the
  contract of one such operation over the list of the keys known so far; its lemmas carry the contract
  to sequences of operations.  The string dictionary, its bulk variant and the transient strings of
  the dictionary proxies are interpretations of it.
\<close>

section \<open>Computations that may not end\<close>

text \<open>
  A computation may fail a check or throw (\<^typ>\<open>'a result\<close>), and it may run forever (\<^term>\<open>None\<close>).
\<close>

type_synonym 'a run = "'a result option"

definition run_bind :: "'a run \<Rightarrow> ('a \<Rightarrow> 'b run) \<Rightarrow> 'b run" where
  "run_bind m f = (case m of None \<Rightarrow> None | Some (Inl e) \<Rightarrow> Some (Inl e) | Some (Inr x) \<Rightarrow> f x)"

abbreviation return :: "'a \<Rightarrow> 'a run" where "return x \<equiv> Some (Inr x)"

abbreviation throw :: "cider_error \<Rightarrow> 'a run" where "throw e \<equiv> Some (Inl e)"

lemma run_bind_simps [simp]: "run_bind None f = None" "run_bind (throw e) f = throw e" "run_bind (return x) f = f x"
  by (simp_all add: run_bind_def)

lemma map_run_return: "map_option (map_sum id f) m = return y \<longleftrightarrow> (\<exists>x. m = return x \<and> f x = y)"
proof (cases m)
  case (Some r)
  then show ?thesis by (cases r) auto
qed simp

text \<open>The operations of a sequence one after the other, with their results.\<close>

primrec run_all :: "('k \<Rightarrow> 's \<Rightarrow> ('s \<times> 'r) run) \<Rightarrow> 'k list \<Rightarrow> 's \<Rightarrow> ('s \<times> 'r list) run" where
  "run_all f [] s = return (s, [])"
| "run_all f (k # ks) s = run_bind (f k s) (\<lambda>(s, r). run_bind (run_all f ks s) (\<lambda>(s, rs). return (s, r # rs)))"

section \<open>Interners\<close>

definition intern :: "'k \<Rightarrow> 'k list \<Rightarrow> 'k list" where
  "intern k ks = (if k \<in> set ks then ks else ks @ [k])"

lemma intern_mem: "k \<in> set (intern k ks)"
  by (simp add: intern_def)

lemma length_intern: "length ks \<le> length (intern k ks)" "length (intern k ks) \<le> Suc (length ks)"
  by (simp_all add: intern_def)

lemma intern_nth: "i < length ks \<Longrightarrow> intern k ks ! i = ks ! i"
  by (simp add: intern_def nth_append)

lemma fold_intern_nth: "i < length ks \<Longrightarrow> i < length (fold intern xs ks) \<and> fold intern xs ks ! i = ks ! i"
proof (induction xs arbitrary: ks)
  case (Cons x xs)
  have "i < length (intern x ks)" using Cons.prems length_intern(1) [of ks x] by simp
  then show ?case using Cons.IH [of "intern x ks"] Cons.prems by (simp add: intern_nth)
qed simp

lemma set_fold_intern: "set (fold intern xs ks) = set ks \<union> set xs"
  by (induction xs arbitrary: ks) (auto simp: intern_def)

locale interner =
  fixes ok :: "'s \<Rightarrow> bool" and keys :: "'s \<Rightarrow> 'k list" and capacity :: nat and good :: "'k \<Rightarrow> bool"
    and id_of :: "nat \<Rightarrow> int" and add :: "'k \<Rightarrow> 's \<Rightarrow> ('s \<times> int) run"
  assumes keys_distinct: "ok s \<Longrightarrow> distinct (keys s)"
    and id_inj: "i < capacity \<Longrightarrow> j < capacity \<Longrightarrow> id_of i = id_of j \<Longrightarrow> i = j"
    and add_ok: "ok s \<Longrightarrow> good k \<Longrightarrow> length (keys s) < capacity \<Longrightarrow>
      \<exists>s' i. add k s = return (s', id_of i) \<and> ok s' \<and> keys s' = intern k (keys s) \<and> i < length (keys s') \<and> keys s' ! i = k"
begin

lemma all_added:
  assumes "ok s" "\<forall>k \<in> set ks. good k" "length (keys s) + length ks \<le> capacity"
  shows "\<exists>s' ids. run_all add ks s = return (s', ids) \<and> ok s' \<and> keys s' = fold intern ks (keys s) \<and> length (keys s') \<le> capacity \<and>
    length ids = length ks \<and> (\<forall>j < length ks. \<exists>i < length (keys s'). ids ! j = id_of i \<and> keys s' ! i = ks ! j)"
  using assms
proof (induction ks arbitrary: s)
  case Nil
  then show ?case by simp
next
  case (Cons k ks)
  obtain s1 i where 1: "add k s = return (s1, id_of i)" "ok s1" "keys s1 = intern k (keys s)" "i < length (keys s1)" "keys s1 ! i = k"
    using add_ok [of s k] Cons.prems by auto
  have "length (keys s1) + length ks \<le> capacity" using Cons.prems(3) length_intern(2) [of k "keys s"] 1(3) by simp
  then obtain s' ids where 2: "run_all add ks s1 = return (s', ids)" "ok s'" "keys s' = fold intern ks (keys s1)" "length (keys s') \<le> capacity"
    "length ids = length ks" "\<forall>j < length ks. \<exists>i < length (keys s'). ids ! j = id_of i \<and> keys s' ! i = ks ! j"
    using Cons.IH [of s1] 1(2) Cons.prems(2) by auto
  have "i < length (keys s')" "keys s' ! i = k" using fold_intern_nth [OF 1(4), of ks] 1(5) 2(3) by simp_all
  then have "\<forall>j < length (k # ks). \<exists>i' < length (keys s'). (id_of i # ids) ! j = id_of i' \<and> keys s' ! i' = (k # ks) ! j"
    using 2(6) by (auto simp: nth_Cons less_Suc_eq_0_disj)
  then show ?case using 1 2 by (intro exI [of _ s'] exI [of _ "id_of i # ids"]) simp
qed

text \<open>Two results are the same id exactly when the keys are the same.\<close>

lemma ids_equal:
  assumes "ok s'" "length (keys s') \<le> capacity" "\<forall>j < length ks. \<exists>i < length (keys s'). ids ! j = id_of i \<and> keys s' ! i = ks ! j"
    "a < length ks" "b < length ks"
  shows "ids ! a = ids ! b \<longleftrightarrow> ks ! a = ks ! b"
proof -
  obtain i j where i: "i < length (keys s')" "ids ! a = id_of i" "keys s' ! i = ks ! a"
    and j: "j < length (keys s')" "ids ! b = id_of j" "keys s' ! j = ks ! b"
    using assms(3-5) by blast
  have "ids ! a = ids ! b \<longleftrightarrow> i = j" using id_inj [of i j] i j assms(2) by auto
  also have "\<dots> \<longleftrightarrow> ks ! a = ks ! b" using nth_eq_iff_index_eq [OF keys_distinct [OF assms(1)] i(1) j(1)] i(3) j(3) by simp
  finally show ?thesis .
qed

end

end
