(* ===== verification/String_Dict.thy ===== *)
theory String_Dict
  imports String_Storage Interning Probing Null_Values
begin

text \<open>
  The string dictionary (\<open>StringDictionary.cpp\<close>): a hash table of string ids over the storage.  A
  string is looked up by linear probing and added when it is missing; the table doubles when it is
  half full; a dictionary is rebuilt from its storage when it is opened again.

  Shown here: the probing loop returns as long as a slot is free, and the invariant keeps half of the
  slots free; \<open>getOrAdd\<close> and the bulk variants behave like a list of distinct strings in which the id
  of a string is its position, so that strings are equal exactly when their ids are; recovery gives
  the same ids again.

  The locks of the class are not part of the model: an operation here is one that no other thread
  interleaves with.  The number of collisions, a statistic, is left out.
\<close>

unbundle bit_operations_syntax

section \<open>The probing loop\<close>

text \<open>
  From a bucket on, with wrap-around, to the first one that satisfies \<open>stop\<close>; the three bucket
  computations of the class differ in \<open>stop\<close> only.
\<close>

partial_function (option) find_bucket :: "(nat \<Rightarrow> bool) \<Rightarrow> nat \<Rightarrow> nat \<Rightarrow> nat option" where
  "find_bucket stop table_size bucket =
     (if stop bucket then Some bucket
      else find_bucket stop table_size (if Suc bucket = table_size then 0 else Suc bucket))"

declare find_bucket.simps [code]

lemma find_bucket_path:
  assumes "h < n" "k < n" "stop (path n h k)" "\<forall>i < k. \<not> stop (path n h i)"
  shows "find_bucket stop n h = Some (path n h k)"
proof -
  have "find_bucket stop n (path n h j) = Some (path n h k)" if "j \<le> k" for j
    using that
  proof (induction "k - j" arbitrary: j)
    case 0
    then show ?case using assms(3) by (subst find_bucket.simps) simp
  next
    case (Suc m)
    have "(if Suc (path n h j) = n then 0 else Suc (path n h j)) = path n h (Suc j)"
      using path_less [of n h j] assms(1) by (simp flip: path_Suc)
    moreover have "find_bucket stop n (path n h (Suc j)) = Some (path n h k)" using Suc by (intro Suc.hyps(1)) simp_all
    moreover have "\<not> stop (path n h j)" using Suc assms(4) by simp
    ultimately show ?case by (subst find_bucket.simps) simp
  qed
  from this [of 0] show ?thesis using assms(1) by (simp add: path_0)
qed

text \<open>A slot that stops the loop makes it return, and at the first such slot.\<close>

lemma find_bucket_ends:
  assumes "h < n" "i < n" "stop i"
  obtains k where "k < n" "find_bucket stop n h = Some (path n h k)" "stop (path n h k)" "\<forall>j < k. \<not> stop (path n h j)"
proof -
  obtain j where j: "j < n" "path n h j = i" using path_surj [OF assms(1,2)] .
  define k where "k = (LEAST k. stop (path n h k))"
  have "stop (path n h k)" "k \<le> j" unfolding k_def using j(2) assms(3) by (auto intro: LeastI Least_le)
  moreover have "\<forall>j < k. \<not> stop (path n h j)" unfolding k_def using not_less_Least by blast
  ultimately show thesis using that [of k] find_bucket_path [OF assms(1), of k stop] j(1) by simp
qed

text \<open>Without such a slot it runs forever.\<close>

lemma find_bucket_stops: "find_bucket stop n h = Some r \<Longrightarrow> h < n \<longrightarrow> stop r \<and> r < n"
  by (erule find_bucket.raw_induct [rotated]) (fastforce split: if_splits)

lemma find_bucket_diverges: "h < n \<Longrightarrow> (\<And>i. i < n \<Longrightarrow> \<not> stop i) \<Longrightarrow> find_bucket stop n h = None"
  using find_bucket_stops [of stop n h] by (cases "find_bucket stop n h") auto

section \<open>Tables of ids\<close>

text \<open>
  A table of the ids below \<open>n\<close>, where the search for id \<open>i\<close> starts at slot \<open>h i\<close>: every slot is empty or
  holds an id, no id is in two slots, and probing for an id meets it before an empty slot.
\<close>

definition id_table :: "(nat \<Rightarrow> nat) \<Rightarrow> nat \<Rightarrow> int list \<Rightarrow> bool" where
  "id_table h n t \<longleftrightarrow>
     (\<forall>b < length t. t ! b \<noteq> - 1 \<longrightarrow> 0 \<le> t ! b \<and> t ! b < int n) \<and>
     (\<forall>b < length t. \<forall>b' < length t. t ! b \<noteq> - 1 \<and> t ! b = t ! b' \<longrightarrow> b = b') \<and>
     (\<forall>i < n. h i < length t \<and> (\<exists>j < length t. t ! path (length t) (h i) j = int i \<and> (\<forall>m < j. t ! path (length t) (h i) m \<noteq> - 1)))"

lemma id_tableD:
  assumes "id_table h n t"
  shows "b < length t \<Longrightarrow> t ! b \<noteq> - 1 \<Longrightarrow> 0 \<le> t ! b \<and> t ! b < int n"
    "b < length t \<Longrightarrow> b' < length t \<Longrightarrow> t ! b \<noteq> - 1 \<Longrightarrow> t ! b = t ! b' \<Longrightarrow> b = b'"
    "i < n \<Longrightarrow> h i < length t \<and> (\<exists>j < length t. t ! path (length t) (h i) j = int i \<and> (\<forall>m < j. t ! path (length t) (h i) m \<noteq> - 1))"
  using assms unfolding id_table_def by blast+

lemma id_table_empty: "id_table h 0 (replicate m (- 1))"
  by (simp add: id_table_def)

lemma id_table_cong: "id_table h n t \<Longrightarrow> (\<And>i. i < n \<Longrightarrow> h i = h' i) \<Longrightarrow> id_table h' n t"
  by (simp add: id_table_def)

text \<open>With fewer ids than slots there is an empty slot.\<close>

lemma id_table_free:
  assumes "id_table h n t" "n < length t"
  shows "\<exists>b < length t. t ! b = - 1"
proof (rule ccontr)
  assume "\<not> ?thesis"
  then have full: "t ! b \<noteq> - 1" if "b < length t" for b using that by blast
  have "inj_on ((!) t) {..<length t}" using id_tableD(2) [OF assms(1)] full by (auto simp: inj_on_def)
  moreover have "(!) t ` {..<length t} \<subseteq> {0..<int n}" using id_tableD(1) [OF assms(1)] full by auto
  ultimately have "length t \<le> card {0..<int n}" using card_inj_on_le [of "(!) t" "{..<length t}" "{0..<int n}"] by simp
  then show False using assms(2) by simp
qed

lemma id_table_insert:
  assumes "id_table h n t" "h n < length t" "j < length t" "b = path (length t) (h n) j" "t ! b = - 1"
    "\<forall>m < j. t ! path (length t) (h n) m \<noteq> - 1"
  shows "id_table h (Suc n) (t[b := int n])"
proof -
  have b: "b < length t" using assms(2,4) by (auto intro: path_less)
  have fresh: "t ! b' \<noteq> int n" if "b' < length t" for b' using id_tableD(1) [OF assms(1) that] by auto
  have len: "path (length t) h' m < length t" for h' m using assms(2) by (auto intro: path_less)
  have old: "\<exists>j < length t. t[b := int n] ! path (length t) (h i) j = int i \<and> (\<forall>m < j. t[b := int n] ! path (length t) (h i) m \<noteq> - 1)"
    if i: "i < n" for i
  proof -
    obtain j' where "j' < length t" "t ! path (length t) (h i) j' = int i" "\<forall>m < j'. t ! path (length t) (h i) m \<noteq> - 1"
      using id_tableD(3) [OF assms(1) i] by blast
    then show ?thesis using b assms(5) by (intro exI [of _ j']) (auto simp: nth_list_update)
  qed
  have new: "t[b := int n] ! path (length t) (h n) j = int n \<and> (\<forall>m < j. t[b := int n] ! path (length t) (h n) m \<noteq> - 1)"
    using assms(4,6) b len by (auto simp: nth_list_update)
  have "\<exists>j < length t. t[b := int n] ! path (length t) (h i) j = int i \<and> (\<forall>m < j. t[b := int n] ! path (length t) (h i) m \<noteq> - 1)"
    if "i < Suc n" for i
    using that old [of i] new assms(3) by (cases "i = n") auto
  moreover have "h i < length t" if "i < Suc n" for i
    using that id_tableD(3) [OF assms(1), of i] assms(2) by (cases "i = n") auto
  moreover have "0 \<le> t[b := int n] ! b' \<and> t[b := int n] ! b' < int (Suc n)" if "b' < length t" "t[b := int n] ! b' \<noteq> - 1" for b'
    using that id_tableD(1) [OF assms(1), of b'] by (cases "b' = b") auto
  moreover have "b1 = b2" if "b1 < length t" "b2 < length t" "t[b := int n] ! b1 \<noteq> - 1" "t[b := int n] ! b1 = t[b := int n] ! b2" for b1 b2
    using that id_tableD(2) [OF assms(1), of b1 b2] fresh [of b1] fresh [of b2] by (cases "b1 = b"; cases "b2 = b") auto
  ultimately show ?thesis unfolding id_table_def by simp
qed

section \<open>Dictionaries\<close>

definition round_up_p2 :: "int \<Rightarrow> int" where
  "round_up_p2 num =
     (let x = u64 (num - 1);
          x = x OR drop_bit 1 x;
          x = x OR drop_bit 2 x;
          x = x OR drop_bit 4 x;
          x = x OR drop_bit 8 x;
          x = x OR drop_bit 16 x;
          x = u64 (x + 1)
      in if x = 0 \<or> x > 4294967295 then 4294967295 else x)"

text \<open>\<open>char\<close> is signed on the platforms of the program.\<close>

definition hash_string :: "string \<Rightarrow> int" where
  "hash_string str = foldl (\<lambda>str_hash c. u32 (str_hash * 997 + s8 (int (of_char c)))) 1 str"

abbreviation INVALID_STR_ID :: int where "INVALID_STR_ID \<equiv> - 1"

text \<open>
  The caches hold the results of searches: by pattern and options, by pattern and escape character,
  the id of an equal string, the place in the sorted ids, and a copy of all strings.
\<close>

record StringDictionary = string_storage +
  hash_table :: "int list"
  hash_cache :: "int list"
  sorted_cache :: "int list"
  materialize_hashes :: bool
  like_cache :: "(string \<times> bool \<times> bool \<times> char) \<rightharpoonup> int list"
  regex_cache :: "(string \<times> char) \<rightharpoonup> int list"
  equal_cache :: "string \<rightharpoonup> int"
  compare_cache :: "string \<rightharpoonup> int \<times> int"
  strings_cache :: "string list option"

definition start_bucket :: "int \<Rightarrow> nat \<Rightarrow> nat" where
  "start_bucket hash table_size = nat (hash AND (int table_size - 1))"

definition computeBucket :: "StringDictionary \<Rightarrow> int \<Rightarrow> string \<Rightarrow> int list \<Rightarrow> nat option" where
  "computeBucket d hash input_string table =
     find_bucket (\<lambda>bucket.
         let candidate_string_id = table ! bucket
         in candidate_string_id = INVALID_STR_ID \<or>
            ((materialize_hashes d \<longrightarrow> hash = hash_cache d ! nat candidate_string_id) \<and>
             input_string = getStringFromStorageFast d candidate_string_id))
       (length table) (start_bucket hash (length table))"

text \<open>Ids from \<open>storage_high_water_mark\<close> on are still in the input.\<close>

definition computeBucketFromStorageAndMemory ::
  "StringDictionary \<Rightarrow> int \<Rightarrow> string \<Rightarrow> int list \<Rightarrow> int \<Rightarrow> string list \<Rightarrow> nat list \<Rightarrow> nat option" where
  "computeBucketFromStorageAndMemory d hash input_string table storage_high_water_mark input_strings string_memory_ids =
     find_bucket (\<lambda>bucket.
         let candidate_string_id = table ! bucket
         in candidate_string_id = INVALID_STR_ID \<or>
            ((\<not> materialize_hashes d \<or> hash = hash_cache d ! nat candidate_string_id) \<and>
             (if candidate_string_id > 0 \<and> candidate_string_id \<ge> storage_high_water_mark
              then input_string = input_strings ! (string_memory_ids ! nat (candidate_string_id - storage_high_water_mark))
              else input_string = getStringFromStorageFast d candidate_string_id)))
       (length table) (start_bucket hash (length table))"

definition computeUniqueBucketWithHash :: "int \<Rightarrow> int list \<Rightarrow> nat option" where
  "computeUniqueBucketWithHash hash table =
     find_bucket (\<lambda>bucket. table ! bucket = INVALID_STR_ID) (length table) (start_bucket hash (length table))"

definition fillRateIsHigh :: "StringDictionary \<Rightarrow> int \<Rightarrow> bool" where
  "fillRateIsHigh d num_strings \<longleftrightarrow> int (length (hash_table d)) \<le> num_strings * 2"

text \<open>The loop that enters ids with given hashes into a new table.\<close>

primrec enter_ids :: "(nat \<Rightarrow> int result) \<Rightarrow> nat list \<Rightarrow> int list \<Rightarrow> int list run" where
  "enter_ids hash [] table = return table"
| "enter_ids hash (i # ids) table =
     run_bind (Some (hash i)) (\<lambda>h.
     run_bind (map_option Inr (computeUniqueBucketWithHash h table)) (\<lambda>bucket.
       enter_ids hash ids (table[bucket := int i])))"

definition grow_hash_cache :: "StringDictionary \<Rightarrow> StringDictionary" where
  "grow_hash_cache d =
     (if materialize_hashes d then d\<lparr>hash_cache := hash_cache d @ replicate (length (hash_cache d)) 0\<rparr> else d)"

definition increaseHashTableCapacity :: "StringDictionary \<Rightarrow> StringDictionary run" where
  "increaseHashTableCapacity d =
     run_bind (enter_ids (\<lambda>i. if materialize_hashes d then Inr (hash_cache d ! i)
                              else rbind (getStringChecked d (int i)) (\<lambda>str. Inr (hash_string str)))
                 [0..<nat (str_count d)] (replicate (length (hash_table d) * 2) INVALID_STR_ID)) (\<lambda>new_str_ids.
       return ((grow_hash_cache d)\<lparr>hash_table := new_str_ids\<rparr>))"

definition increaseHashTableCapacityFromStorageAndMemory ::
  "StringDictionary \<Rightarrow> int \<Rightarrow> int \<Rightarrow> nat list \<Rightarrow> int list \<Rightarrow> StringDictionary run" where
  "increaseHashTableCapacityFromStorageAndMemory d count storage_high_water_mark string_memory_ids input_strings_hashes =
     (let high = nat storage_high_water_mark
      in run_bind (enter_ids (\<lambda>i. if materialize_hashes d then Inr (hash_cache d ! i)
                                 else if i < high then rbind (getStringChecked d (int i)) (\<lambda>str. Inr (hash_string str))
                                 else Inr (input_strings_hashes ! (string_memory_ids ! (i - high))))
                 (if materialize_hashes d then [0..<nat count] else [0..<high + length string_memory_ids])
                 (replicate (length (hash_table d) * 2) INVALID_STR_ID)) (\<lambda>new_str_ids.
       return ((grow_hash_cache d)\<lparr>hash_table := new_str_ids\<rparr>)))"

definition invalidateInvertedIndex :: "StringDictionary \<Rightarrow> StringDictionary" where
  "invalidateInvertedIndex d =
     d\<lparr>like_cache := Map.empty, regex_cache := Map.empty, equal_cache := Map.empty, compare_cache := Map.empty\<rparr>"

text \<open>The assignments that enter a string into the hash table.\<close>

definition enter_string :: "nat \<Rightarrow> int \<Rightarrow> StringDictionary \<Rightarrow> StringDictionary" where
  "enter_string bucket hash d =
     d\<lparr>hash_table := (hash_table d)[bucket := s32 (str_count d)],
       hash_cache := (if materialize_hashes d then (hash_cache d)[nat (str_count d) := hash] else hash_cache d),
       str_count := str_count d + 1\<rparr>"

definition getOrAddImpl :: "int \<Rightarrow> string \<Rightarrow> StringDictionary \<Rightarrow> (StringDictionary \<times> int) run" where
  "getOrAddImpl page str d =
     (if str = [] then return (d, inline_int_null_value True 32)
      else if \<not> int (length str) \<le> MAX_STRLEN then throw CheckFailed
      else let hash = hash_string str
           in run_bind (map_option Inr (computeBucket d hash str (hash_table d))) (\<lambda>bucket.
              if hash_table d ! bucket \<noteq> INVALID_STR_ID then return (d, hash_table d ! bucket)
              else run_bind (if fillRateIsHigh d (str_count d) then increaseHashTableCapacity d else return d) (\<lambda>d.
                   run_bind (map_option Inr (computeBucket d hash str (hash_table d))) (\<lambda>bucket.
                     if hash_table d ! bucket = INVALID_STR_ID then
                       if str_count d < MAX_STRCOUNT then
                         run_bind (Some (appendToStorage page str d)) (\<lambda>d.
                           let d = invalidateInvertedIndex (enter_string bucket hash d)
                           in return (d, hash_table d ! bucket))
                       else throw CheckFailed
                     else return (d, hash_table d ! bucket)))))"

text \<open>\<open>getUnlocked\<close>, \<open>getIdOfString\<close> without the lock.\<close>

definition getIdOfString :: "StringDictionary \<Rightarrow> string \<Rightarrow> int option" where
  "getIdOfString d str = map_option (\<lambda>bucket. hash_table d ! bucket) (computeBucket d (hash_string str) str (hash_table d))"

section \<open>Bulk operations\<close>

text \<open>The type \<open>T\<close> of the ids in the output is given by its signedness and its width.\<close>

definition cast_id :: "bool \<Rightarrow> nat \<Rightarrow> int \<Rightarrow> int" where
  "cast_id is_signed w x = (if is_signed then wrap_s (2 ^ (w - 1)) x else wrap_u (2 ^ w) x)"

definition getOrAddBulk_one :: "bool \<Rightarrow> nat \<Rightarrow> int \<Rightarrow> string \<Rightarrow> StringDictionary \<Rightarrow> (StringDictionary \<times> int) run" where
  "getOrAddBulk_one is_signed w page input_string d =
     (if input_string = [] then return (d, cast_id is_signed w (inline_int_null_value is_signed w))
      else if \<not> int (length input_string) \<le> MAX_STRLEN then throw CheckFailed
      else let hash = hash_string input_string
           in run_bind (map_option Inr (computeBucket d hash input_string (hash_table d))) (\<lambda>bucket.
              if hash_table d ! bucket \<noteq> INVALID_STR_ID then return (d, cast_id is_signed w (hash_table d ! bucket))
              else if str_count d > max_valid_int_value is_signed w then throw CiderCompileException
              else if \<not> str_count d < MAX_STRCOUNT then throw CheckFailed
              else run_bind (if fillRateIsHigh d (str_count d)
                             then run_bind (increaseHashTableCapacity d) (\<lambda>d.
                               run_bind (map_option Inr (computeBucket d hash input_string (hash_table d))) (\<lambda>bucket. return (d, bucket)))
                             else return (d, bucket)) (\<lambda>(d, bucket).
                   run_bind (Some (appendToStorage page input_string d)) (\<lambda>d.
                     return (enter_string bucket hash d, cast_id is_signed w (s32 (str_count d)))))))"

definition getOrAddBulk_serial :: "bool \<Rightarrow> nat \<Rightarrow> int \<Rightarrow> string list \<Rightarrow> StringDictionary \<Rightarrow> (StringDictionary \<times> int list) run" where
  "getOrAddBulk_serial is_signed w page input_strings d =
     run_bind (run_all (getOrAddBulk_one is_signed w page) input_strings d) (\<lambda>(d', ids).
       return (if str_count d' - str_count d > 0 then invalidateInvertedIndex d' else d', ids))"

text \<open>
  The variant that computes the hashes beforehand.  \<open>hashStrings\<close> only compares the sizes of its
  arguments, so the hashes stay zero.
\<close>

definition hashStrings :: "string list \<Rightarrow> int list \<Rightarrow> int list result" where
  "hashStrings string_vec hashes = (if length string_vec = length hashes then Inr hashes else Inl CheckFailed)"

text \<open>The loop: the dictionary, the shadow count, the places of the new strings in the input, and their total length.\<close>

primrec bulk_parallel_loop ::
  "bool \<Rightarrow> nat \<Rightarrow> string list \<Rightarrow> int list \<Rightarrow> int \<Rightarrow> string list \<Rightarrow> nat \<Rightarrow> StringDictionary \<times> int \<times> nat list \<times> int \<Rightarrow>
   ((StringDictionary \<times> int \<times> nat list \<times> int) \<times> int list) run" where
  "bulk_parallel_loop is_signed w input_strings hashes high [] idx st = return (st, [])"
| "bulk_parallel_loop is_signed w input_strings hashes high (input_string # rest) idx st =
     (case st of (d, shadow_str_count, string_memory_ids, sum_new_string_lengths) \<Rightarrow>
      let continue = (\<lambda>st out. run_bind (bulk_parallel_loop is_signed w input_strings hashes high rest (Suc idx) st)
            (\<lambda>(st, outs). return (st, cast_id is_signed w out # outs)))
      in if input_string = [] then continue st (inline_int_null_value is_signed w)
         else if \<not> int (length input_string) \<le> MAX_STRLEN then throw CheckFailed
         else run_bind (if fillRateIsHigh d shadow_str_count
                        then increaseHashTableCapacityFromStorageAndMemory d shadow_str_count high string_memory_ids hashes
                        else return d) (\<lambda>d.
              run_bind (map_option Inr (computeBucketFromStorageAndMemory d (hashes ! idx) input_string (hash_table d) high
                          input_strings string_memory_ids)) (\<lambda>bucket.
                if hash_table d ! bucket \<noteq> INVALID_STR_ID
                then continue (d, shadow_str_count, string_memory_ids, sum_new_string_lengths) (hash_table d ! bucket)
                else if shadow_str_count > max_valid_int_value is_signed w then throw CiderCompileException
                else if \<not> shadow_str_count < MAX_STRCOUNT then throw CheckFailed
                else continue
                  (d\<lparr>hash_table := (hash_table d)[bucket := s32 shadow_str_count],
                     hash_cache := (if materialize_hashes d then (hash_cache d)[nat shadow_str_count := hashes ! idx] else hash_cache d)\<rparr>,
                   shadow_str_count + 1, string_memory_ids @ [idx], sum_new_string_lengths + int (length input_string))
                  shadow_str_count)))"

definition getOrAddBulkParallel :: "bool \<Rightarrow> nat \<Rightarrow> int \<Rightarrow> string list \<Rightarrow> StringDictionary \<Rightarrow> (StringDictionary \<times> int list) run" where
  "getOrAddBulkParallel is_signed w page input_strings d =
     run_bind (Some (hashStrings input_strings (replicate (length input_strings) 0))) (\<lambda>hashes.
     run_bind (bulk_parallel_loop is_signed w input_strings hashes (str_count d) input_strings 0 (d, str_count d, [], 0))
       (\<lambda>((d, shadow_str_count, string_memory_ids, sum_new_string_lengths), ids).
     run_bind (Some (appendToStorageBulk page input_strings string_memory_ids sum_new_string_lengths d)) (\<lambda>d.
       let d' = d\<lparr>str_count := shadow_str_count\<rparr>
       in return (if shadow_str_count - str_count d > 0 then invalidateInvertedIndex d' else d', ids))))"

definition getOrAddBulk :: "bool \<Rightarrow> bool \<Rightarrow> nat \<Rightarrow> int \<Rightarrow> string list \<Rightarrow> StringDictionary \<Rightarrow> (StringDictionary \<times> int list) run" where
  "getOrAddBulk enable_stringdict_parallel is_signed w page input_strings d =
     (if enable_stringdict_parallel then getOrAddBulkParallel is_signed w page input_strings d
      else getOrAddBulk_serial is_signed w page input_strings d)"

definition getOrAddBulkArray ::
  "bool \<Rightarrow> int \<Rightarrow> string list list \<Rightarrow> StringDictionary \<Rightarrow> (StringDictionary \<times> int list list) run" where
  "getOrAddBulkArray enable_stringdict_parallel page string_array_vec d =
     run_all (\<lambda>strings. getOrAddBulk enable_stringdict_parallel True 32 page strings) string_array_vec d"

text \<open>\<open>getBulk\<close> leaves the output as it is and reports that no string is missing.\<close>

definition getBulk :: "string list \<Rightarrow> int list \<Rightarrow> int list \<times> int" where
  "getBulk string_vec encoded_vec = (encoded_vec, 0)"

text \<open>Translating the ids of another dictionary; every transient id takes the first transient string.\<close>

definition source_string :: "StringDictionary \<Rightarrow> string list \<Rightarrow> int \<Rightarrow> string result" where
  "source_string source_dict transient_string_vec source_id =
     (if source_id = - 2147483648 then Inr []
      else if source_id < 0 then (if 0 < length transient_string_vec then Inr (transient_string_vec ! 0) else Inl CheckFailed)
      else getStringUnlocked source_dict source_id)"

definition populate_string_ids ::
  "bool \<Rightarrow> int \<Rightarrow> int list \<Rightarrow> StringDictionary \<Rightarrow> string list \<Rightarrow> StringDictionary \<Rightarrow> (StringDictionary \<times> int list) run" where
  "populate_string_ids enable_stringdict_parallel page source_ids source_dict transient_string_vec dest_dict =
     run_bind (Some (foldr (\<lambda>source_id acc. rbind (source_string source_dict transient_string_vec source_id) (\<lambda>str.
                 rbind acc (\<lambda>strs. Inr (str # strs)))) source_ids (Inr []))) (\<lambda>strings.
       getOrAddBulk enable_stringdict_parallel True 32 page strings dest_dict)"

section \<open>The invariant\<close>

definition bucket_of_id :: "StringDictionary \<Rightarrow> nat \<Rightarrow> nat" where
  "bucket_of_id d i = start_bucket (hash_string (stored d ! i)) (length (hash_table d))"

text \<open>
  The strings are distinct and not empty, the size of the table is a power of two and at least twice
  the number of strings, probing finds every id, and the cached hashes are those of the strings.
\<close>

definition dict_ok :: "StringDictionary \<Rightarrow> bool" where
  "dict_ok d \<longleftrightarrow>
     storage_ok d \<and> distinct (stored d) \<and> [] \<notin> set (stored d) \<and>
     (\<exists>k. length (hash_table d) = 2 ^ Suc k) \<and> 2 * str_count d \<le> int (length (hash_table d)) \<and>
     id_table (bucket_of_id d) (nat (str_count d)) (hash_table d) \<and>
     (materialize_hashes d \<longrightarrow> length (hash_table d) \<le> 2 * length (hash_cache d) \<and>
        (\<forall>i < nat (str_count d). hash_cache d ! i = hash_string (stored d ! i)))"

lemma dict_okD:
  assumes "dict_ok d"
  shows "storage_ok d" "distinct (stored d)" "[] \<notin> set (stored d)" "\<exists>k. length (hash_table d) = 2 ^ Suc k"
    "2 * str_count d \<le> int (length (hash_table d))" "id_table (bucket_of_id d) (nat (str_count d)) (hash_table d)"
    "materialize_hashes d \<Longrightarrow> length (hash_table d) \<le> 2 * length (hash_cache d)"
    "materialize_hashes d \<Longrightarrow> i < nat (str_count d) \<Longrightarrow> hash_cache d ! i = hash_string (stored d ! i)"
  using assms by (simp_all add: dict_ok_def)

lemma hash_string_nonneg: "0 \<le> hash_string str"
  by (induction str rule: rev_induct) (simp_all add: hash_string_def wrap_range)

lemma start_bucket_less: "start_bucket h (2 ^ k) < 2 ^ k"
proof -
  have "h AND (int (2 ^ k) - 1) = take_bit k h" by (simp add: take_bit_eq_mask mask_eq_exp_minus_1)
  then show ?thesis using take_bit_int_less_exp [of k h] by (simp add: start_bucket_def nat_less_iff)
qed

lemma start_bucket_table: "dict_ok d \<Longrightarrow> start_bucket h (length (hash_table d)) < length (hash_table d)"
  using start_bucket_less [of h] dict_okD(4) [of d] by metis

text \<open>The storage does not depend on the rest of the dictionary.\<close>

lemma storage_independent [simp]:
  "getStringFromStorageFast (d\<lparr>hash_table := t\<rparr>) = getStringFromStorageFast d"
  "getStringFromStorageFast (d\<lparr>hash_cache := hc\<rparr>) = getStringFromStorageFast d"
  "getStringFromStorageFast (invalidateInvertedIndex d) = getStringFromStorageFast d"
  by (simp_all add: fun_eq_iff getStringFromStorageFast_def invalidateInvertedIndex_def)

lemma stored_independent [simp]:
  "stored ((d :: StringDictionary)\<lparr>hash_table := t\<rparr>) = stored d" "stored (d\<lparr>hash_cache := hc\<rparr>) = stored d"
  by (simp_all add: stored_def)

lemma storage_ok_independent [simp]:
  "storage_ok ((d :: StringDictionary)\<lparr>hash_table := t\<rparr>) = storage_ok d" "storage_ok (d\<lparr>hash_cache := hc\<rparr>) = storage_ok d"
  by (simp_all add: storage_ok_def)

lemma invalidate_simps [simp]:
  "hash_table (invalidateInvertedIndex d) = hash_table d" "hash_cache (invalidateInvertedIndex d) = hash_cache d"
  "materialize_hashes (invalidateInvertedIndex d) = materialize_hashes d" "str_count (invalidateInvertedIndex d) = str_count d"
  by (simp_all add: invalidateInvertedIndex_def)

lemma stored_invalidate [simp]: "stored (invalidateInvertedIndex d) = stored d"
  by (simp add: stored_def)

lemma storage_ok_invalidate [simp]: "storage_ok (invalidateInvertedIndex d) = storage_ok d"
  unfolding storage_ok_def by (simp add: invalidateInvertedIndex_def stored_def getStringFromStorageFast_def [abs_def])

lemma dict_ok_invalidate [simp]: "dict_ok (invalidateInvertedIndex d) = dict_ok d"
  by (simp add: dict_ok_def bucket_of_id_def [abs_def])

lemma same_more:
  assumes "string_storage.more (d1 :: StringDictionary) = string_storage.more d"
  shows "hash_table d1 = hash_table d" "hash_cache d1 = hash_cache d" "materialize_hashes d1 = materialize_hashes d"
  using assms by (cases d; cases d1; simp)+

section \<open>Looking up\<close>

lemma candidate_string:
  assumes "dict_ok d" "b < length (hash_table d)" "hash_table d ! b \<noteq> - 1"
  shows "0 \<le> hash_table d ! b" "nat (hash_table d ! b) < nat (str_count d)"
    "getStringFromStorageFast d (hash_table d ! b) = stored d ! nat (hash_table d ! b)"
proof -
  show c: "0 \<le> hash_table d ! b" "nat (hash_table d ! b) < nat (str_count d)"
    using id_tableD(1) [OF dict_okD(6) [OF assms(1)] assms(2,3)] by linarith+
  show "getStringFromStorageFast d (hash_table d ! b) = stored d ! nat (hash_table d ! b)"
    using stored_nth [OF c(2)] c(1) by simp
qed

lemma computeBucket_found:
  assumes "dict_ok d" "i < nat (str_count d)"
  obtains b where "b < length (hash_table d)" "hash_table d ! b = int i"
    "computeBucket d (hash_string (stored d ! i)) (stored d ! i) (hash_table d) = Some b"
proof -
  let ?t = "hash_table d" let ?L = "length (hash_table d)" let ?h = "bucket_of_id d i"
  note id = id_tableD [OF dict_okD(6) [OF assms(1)]]
  obtain j where j: "?h < ?L" "j < ?L" "?t ! path ?L ?h j = int i" "\<forall>m < j. ?t ! path ?L ?h m \<noteq> - 1"
    using id(3) [OF assms(2)] by blast
  have before: "getStringFromStorageFast d (?t ! path ?L ?h m) \<noteq> stored d ! i" if "m < j" for m
  proof
    assume same: "getStringFromStorageFast d (?t ! path ?L ?h m) = stored d ! i"
    have p: "path ?L ?h m < ?L" "path ?L ?h j < ?L" using j(1) by (auto intro: path_less)
    have "?t ! path ?L ?h m \<noteq> - 1" using j(4) that by blast
    note c = candidate_string [OF assms(1) p(1) this]
    have "stored d ! nat (?t ! path ?L ?h m) = stored d ! i" using same c(3) by simp
    then have "nat (?t ! path ?L ?h m) = i"
      using nth_eq_iff_index_eq [OF dict_okD(2) [OF assms(1)]] c(2) assms(2) by simp
    then have "?t ! path ?L ?h m = ?t ! path ?L ?h j" using c(1) j(3) by simp
    then have "path ?L ?h m = path ?L ?h j" using id(2) [OF p \<open>?t ! path ?L ?h m \<noteq> - 1\<close>] by blast
    then show False using path_inj [of m ?L j] j(2) that by simp
  qed
  have "find_bucket (\<lambda>bucket. let c = ?t ! bucket in c = - 1 \<or> ((materialize_hashes d \<longrightarrow> hash_string (stored d ! i) = hash_cache d ! nat c) \<and>
      stored d ! i = getStringFromStorageFast d c)) ?L ?h = Some (path ?L ?h j)"
    using j(3,4) before dict_okD(8) [OF assms(1) _ assms(2)] stored_nth [OF assms(2)]
    by (intro find_bucket_path [OF j(1,2)]) (auto simp: Let_def dest: not_sym)
  moreover have "path ?L ?h j < ?L" using j(1) by (auto intro: path_less)
  ultimately show thesis using that [of "path ?L ?h j"] j(3) by (simp add: computeBucket_def bucket_of_id_def)
qed

lemma computeBucket_missing:
  assumes "dict_ok d" "str \<notin> set (stored d)" "h = start_bucket (hash_string str) (length (hash_table d))"
  obtains j where "j < length (hash_table d)" "computeBucket d (hash_string str) str (hash_table d) = Some (path (length (hash_table d)) h j)"
    "hash_table d ! path (length (hash_table d)) h j = - 1" "\<forall>m < j. hash_table d ! path (length (hash_table d)) h m \<noteq> - 1"
proof -
  let ?t = "hash_table d" let ?L = "length (hash_table d)"
  let ?stop = "\<lambda>bucket. let c = ?t ! bucket in c = - 1 \<or> ((materialize_hashes d \<longrightarrow> hash_string str = hash_cache d ! nat c) \<and>
      str = getStringFromStorageFast d c)"
  have h: "h < ?L" using start_bucket_table [OF assms(1)] assms(3) by simp
  have stop: "?stop b \<longleftrightarrow> ?t ! b = - 1" if "b < ?L" for b
  proof (cases "?t ! b = - 1")
    case False
    then have "getStringFromStorageFast d (?t ! b) \<in> set (stored d)"
      using candidate_string [OF assms(1) that] by simp
    then show ?thesis using False assms(2) by (auto simp: Let_def)
  qed simp
  have "nat (str_count d) < ?L" using dict_okD(5) [OF assms(1)] h storage_okD(1) [OF dict_okD(1) [OF assms(1)]] by linarith
  then obtain b where "b < ?L" "?t ! b = - 1" using id_table_free [OF dict_okD(6) [OF assms(1)]] by blast
  then obtain k where k: "k < ?L" "find_bucket ?stop ?L h = Some (path ?L h k)" "?stop (path ?L h k)" "\<forall>j < k. \<not> ?stop (path ?L h j)"
    using find_bucket_ends [OF h, of b ?stop] by auto
  have "path ?L h m < ?L" for m using h by (auto intro: path_less)
  then have "?t ! path ?L h k = - 1" "\<forall>m < k. ?t ! path ?L h m \<noteq> - 1" using k(3,4) stop by blast+
  then show thesis using that [of k] k(1,2) by (simp add: computeBucket_def assms(3))
qed

lemma getIdOfString_ok:
  assumes "dict_ok d"
  shows "i < nat (str_count d) \<Longrightarrow> getIdOfString d (stored d ! i) = Some (int i)"
    "str \<notin> set (stored d) \<Longrightarrow> getIdOfString d str = Some (- 1)"
  using computeBucket_found [OF assms, of i] computeBucket_missing [OF assms, of str, OF _ refl]
  by (metis getIdOfString_def option.map(2))+

section \<open>Growing the hash table\<close>

lemma computeUniqueBucketWithHash_ok:
  assumes "id_table h n t" "n < length t" "h0 = start_bucket hash (length t)" "h0 < length t"
  obtains j where "j < length t" "computeUniqueBucketWithHash hash t = Some (path (length t) h0 j)" "t ! path (length t) h0 j = - 1"
    "\<forall>m < j. t ! path (length t) h0 m \<noteq> - 1"
proof -
  obtain b where "b < length t" "t ! b = - 1" using id_table_free [OF assms(1,2)] by blast
  then show thesis
    using find_bucket_ends [OF assms(4), of b "\<lambda>bucket. t ! bucket = - 1"] that
    by (auto simp: computeUniqueBucketWithHash_def assms(3))
qed

lemma enter_ids_ok:
  assumes "\<And>i. i < n \<Longrightarrow> hash i = Inr (hs i)" "length t = 2 ^ k" "n \<le> length t" "m \<le> n"
    "id_table (\<lambda>i. start_bucket (hs i) (2 ^ k)) m t"
  shows "\<exists>t'. enter_ids hash [m..<n] t = return t' \<and> length t' = length t \<and> id_table (\<lambda>i. start_bucket (hs i) (2 ^ k)) n t'"
  using assms(2-)
proof (induction "n - m" arbitrary: m t)
  case 0
  then show ?case by simp
next
  case (Suc l)
  let ?h = "start_bucket (hs m) (length t)"
  have l: "l = n - Suc m" "Suc m \<le> n" using Suc.hyps(2) by simp_all
  have m: "m < n" "m < length t" "?h < length t" using Suc.hyps(2) Suc.prems(1,2) start_bucket_less [of "hs m" k] by simp_all
  obtain j where j: "j < length t" "computeUniqueBucketWithHash (hs m) t = Some (path (length t) ?h j)" "t ! path (length t) ?h j = - 1"
    "\<forall>i < j. t ! path (length t) ?h i \<noteq> - 1"
    using computeUniqueBucketWithHash_ok [OF Suc.prems(4) m(2) refl m(3)] by blast
  let ?t = "t[path (length t) ?h j := int m]"
  have "id_table (\<lambda>i. start_bucket (hs i) (2 ^ k)) (Suc m) ?t"
    using id_table_insert [OF Suc.prems(4) _ j(1) _ j(3)] j(4) m(3) Suc.prems(1) by simp
  then obtain t' where "enter_ids hash [Suc m..<n] ?t = return t'" "length t' = length t" "id_table (\<lambda>i. start_bucket (hs i) (2 ^ k)) n t'"
    using Suc.hyps(1) [of "Suc m" ?t] Suc.prems(1,2) l by auto
  then show ?case using assms(1) [OF m(1)] j(2) m(1) by (simp add: upt_conv_Cons)
qed

lemma increaseHashTableCapacity_ok:
  assumes "dict_ok d"
  obtains d' where "increaseHashTableCapacity d = return d'" "dict_ok d'" "stored d' = stored d" "str_count d' = str_count d"
    "length (hash_table d') = 2 * length (hash_table d)"
proof -
  let ?n = "nat (str_count d)"
  note ok = dict_okD [OF assms]
  obtain k where k: "length (hash_table d) = 2 ^ Suc k" using ok(4) by blast
  define hash where "hash i = (if materialize_hashes d then Inr (hash_cache d ! i)
    else rbind (getStringChecked d (int i)) (\<lambda>str. Inr (hash_string str)))" for i
  have "hash i = Inr (hash_string (stored d ! i))" if "i < ?n" for i
    using ok(8) [of i] getStringChecked_stored(1) [OF ok(1), of "int i"] that by (simp add: hash_def)
  moreover have "?n \<le> length (hash_table d)" using ok(5) storage_okD(1) [OF ok(1)] by linarith
  then have "?n \<le> 2 ^ Suc (Suc k)" using k by simp
  ultimately obtain t where t: "enter_ids hash [0..<?n] (replicate (2 ^ Suc (Suc k)) (- 1)) = return t" "length t = 2 ^ Suc (Suc k)"
    "id_table (\<lambda>i. start_bucket (hash_string (stored d ! i)) (2 ^ Suc (Suc k))) ?n t"
    using enter_ids_ok [of ?n hash "\<lambda>i. hash_string (stored d ! i)" "replicate (2 ^ Suc (Suc k)) (- 1)" "Suc (Suc k)" 0] id_table_empty
    by auto
  define d' where "d' = (grow_hash_cache d)\<lparr>hash_table := t\<rparr>"
  have g: "stored d' = stored d" "str_count d' = str_count d" "hash_table d' = t" "materialize_hashes d' = materialize_hashes d"
    "storage_ok d' = storage_ok d" "materialize_hashes d \<Longrightarrow> hash_cache d' = hash_cache d @ replicate (length (hash_cache d)) 0"
    by (simp_all add: d'_def grow_hash_cache_def)
  have "hash_cache d' ! i = hash_string (stored d ! i)" if "materialize_hashes d" "i < ?n" for i
  proof -
    have "i < length (hash_cache d)" using ok(5,7) that k storage_okD(1) [OF ok(1)] by linarith
    then show ?thesis using ok(8) [OF that] g(6) [OF that(1)] by (simp add: nth_append)
  qed
  moreover have "bucket_of_id d' = (\<lambda>i. start_bucket (hash_string (stored d ! i)) (2 ^ Suc (Suc k)))"
    by (simp add: bucket_of_id_def fun_eq_iff g t(2))
  moreover have "\<exists>k'. length t = 2 ^ Suc k'" using t(2) by (rule exI)
  moreover have len: "length t = 2 * length (hash_table d)" using t(2) k by simp
  moreover have "2 * str_count d \<le> int (length t)" using ok(5) len by simp
  moreover have "length t \<le> 2 * length (hash_cache d')" if "materialize_hashes d" using ok(7) [OF that] g(6) [OF that] len by simp
  ultimately have "dict_ok d'"
    unfolding dict_ok_def g using ok(1-3) t(3) by simp
  moreover have "increaseHashTableCapacity d = return d'"
    using t(1) k by (simp add: increaseHashTableCapacity_def hash_def [abs_def] d'_def mult.commute)
  ultimately show thesis using that [of d'] g t(2) k by simp
qed

section \<open>Adding a string\<close>

lemma enter_new_string:
  assumes "dict_ok d" "0 < page" "str \<notin> set (stored d)" "str \<noteq> []" "int (length str) \<le> MAX_STRLEN" "str_count d < MAX_STRCOUNT"
    "\<not> fillRateIsHigh d (str_count d)" "computeBucket d (hash_string str) str (hash_table d) = Some b"
  obtains d1 where "appendToStorage page str d = Inr d1" "str_count d1 = str_count d"
    "dict_ok (enter_string b (hash_string str) d1)" "stored (enter_string b (hash_string str) d1) = stored d @ [str]"
    "str_count (enter_string b (hash_string str) d1) = str_count d + 1" "hash_table (enter_string b (hash_string str) d1) ! b = str_count d"
proof -
  note ok = dict_okD [OF assms(1)]
  let ?t = "hash_table d" let ?n = "nat (str_count d)" let ?h = "start_bucket (hash_string str) (length ?t)"
  have count: "0 \<le> str_count d" "s32 (str_count d) = str_count d"
    using storage_okD(1) [OF ok(1)] assms(6) by (simp_all add: wrap_id MAX_STRCOUNT_def)
  obtain d1 where d1: "appendToStorage page str d = Inr d1" "str_count d1 = str_count d" "string_storage.more d1 = string_storage.more d"
    "storage_ok (d1\<lparr>str_count := str_count d + 1\<rparr>)" "stored (d1\<lparr>str_count := str_count d + 1\<rparr>) = stored d @ [str]"
    using appendToStorage_ok [OF ok(1) assms(2,5,6)] by blast
  note more = same_more [OF d1(3)]
  obtain j where j: "j < length ?t" "b = path (length ?t) ?h j" "?t ! b = - 1" "\<forall>m < j. ?t ! path (length ?t) ?h m \<noteq> - 1"
    using computeBucket_missing [OF assms(1,3) refl] assms(8) by (metis option.inject)
  have b: "b < length ?t" using start_bucket_table [OF assms(1)] j(2) by (auto intro: path_less)
  define d2 where "d2 = enter_string b (hash_string str) d1"
  have d2_eq: "d2 = ((d1\<lparr>str_count := str_count d + 1\<rparr>)\<lparr>hash_table := ?t[b := str_count d]\<rparr>)\<lparr>hash_cache :=
      (if materialize_hashes d then (hash_cache d)[?n := hash_string str] else hash_cache d)\<rparr>"
    using d1(2) more count by (simp add: d2_def enter_string_def)
  have s: "stored d2 = stored d @ [str]" "storage_ok d2" unfolding d2_eq using d1(4,5) by simp_all
  have f: "hash_table d2 = ?t[b := str_count d]" "str_count d2 = str_count d + 1" "materialize_hashes d2 = materialize_hashes d"
    "hash_cache d2 = (if materialize_hashes d then (hash_cache d)[?n := hash_string str] else hash_cache d)"
    by (simp_all add: d2_eq more)
  have nth: "(stored d @ [str]) ! i = stored d ! i" if "i < ?n" for i using that by (simp add: nth_append)
  have last: "(stored d @ [str]) ! ?n = str" by (simp add: nth_append)
  have "id_table (bucket_of_id d2) ?n ?t"
    using ok(6) by (rule id_table_cong) (simp add: bucket_of_id_def s f nth)
  then have "id_table (bucket_of_id d2) (Suc ?n) (?t[b := int ?n])"
    using start_bucket_table [OF assms(1)] j by (intro id_table_insert [where j = j]) (simp_all add: bucket_of_id_def s f last)
  moreover have "2 * (str_count d + 1) \<le> int (length ?t)" using ok(4) assms(7) by (auto simp: fillRateIsHigh_def)
  moreover have "?n < length (hash_cache d)" if "materialize_hashes d"
    using ok(7) [OF that] assms(7) count(1) by (simp add: fillRateIsHigh_def)
  then have "hash_cache d2 ! i = hash_string ((stored d @ [str]) ! i)" if "materialize_hashes d" "i < Suc ?n" for i
    using that ok(8) [OF that(1), of i] nth [of i] last by (cases "i = ?n") (simp_all add: f)
  ultimately have "dict_ok d2"
    unfolding dict_ok_def using ok(2-4,7) assms(3,4) count(1) by (simp add: s f nat_add_distrib)
  then show thesis using that [OF d1(1,2)] s(1) f b by (simp add: d2_def)
qed

lemma make_room:
  assumes "dict_ok d"
  obtains d1 where "(if fillRateIsHigh d (str_count d) then increaseHashTableCapacity d else return d) = return d1" "dict_ok d1"
    "stored d1 = stored d" "str_count d1 = str_count d" "\<not> fillRateIsHigh d1 (str_count d1)"
proof (cases "fillRateIsHigh d (str_count d)")
  case True
  obtain d' where d': "increaseHashTableCapacity d = return d'" "dict_ok d'" "stored d' = stored d" "str_count d' = str_count d"
    "length (hash_table d') = 2 * length (hash_table d)" using increaseHashTableCapacity_ok [OF assms] .
  have "0 < length (hash_table d)" using start_bucket_table [OF assms, of 0] by linarith
  then have "\<not> fillRateIsHigh d' (str_count d')" using d'(4,5) dict_okD(5) [OF assms] unfolding fillRateIsHigh_def by linarith
  then show thesis using that [of d'] d' True by simp
next
  case False
  then show thesis using that assms by simp
qed

definition good_string :: "string \<Rightarrow> bool" where
  "good_string str \<longleftrightarrow> str \<noteq> [] \<and> int (length str) \<le> MAX_STRLEN"

lemma getOrAddImpl_present:
  assumes "dict_ok d" "good_string str" "str \<in> set (stored d)"
  obtains i where "getOrAddImpl page str d = return (d, int i)" "i < length (stored d)" "stored d ! i = str"
proof -
  obtain i where i: "i < length (stored d)" "stored d ! i = str" using assms(3) by (auto simp: in_set_conv_nth)
  obtain b where "hash_table d ! b = int i" "computeBucket d (hash_string str) str (hash_table d) = Some b"
    using computeBucket_found [OF assms(1), of i] i by auto
  then show thesis using that [of i] i assms(2) by (simp add: getOrAddImpl_def good_string_def)
qed

lemma getOrAddImpl_new:
  assumes "dict_ok d" "0 < page" "good_string str" "str \<notin> set (stored d)" "str_count d < MAX_STRCOUNT"
  obtains d' where "getOrAddImpl page str d = return (d', str_count d)" "dict_ok d'" "stored d' = stored d @ [str]"
    "str_count d' = str_count d + 1"
proof -
  obtain d1 where d1: "(if fillRateIsHigh d (str_count d) then increaseHashTableCapacity d else return d) = return d1" "dict_ok d1"
    "stored d1 = stored d" "str_count d1 = str_count d" "\<not> fillRateIsHigh d1 (str_count d1)"
    using make_room [OF assms(1)] .
  obtain b0 where b0: "computeBucket d (hash_string str) str (hash_table d) = Some b0" "hash_table d ! b0 = - 1"
    using computeBucket_missing [OF assms(1,4) refl] by metis
  obtain b where b: "computeBucket d1 (hash_string str) str (hash_table d1) = Some b" "hash_table d1 ! b = - 1"
    using computeBucket_missing [OF d1(2), of str, OF _ refl] assms(4) d1(3) by metis
  obtain d2 where d2: "appendToStorage page str d1 = Inr d2" "str_count d2 = str_count d1"
    "dict_ok (enter_string b (hash_string str) d2)" "stored (enter_string b (hash_string str) d2) = stored d1 @ [str]"
    "str_count (enter_string b (hash_string str) d2) = str_count d1 + 1" "hash_table (enter_string b (hash_string str) d2) ! b = str_count d1"
    using enter_new_string [OF d1(2) assms(2) _ _ _ _ d1(5) b(1)] assms(3-5) d1(3,4) by (auto simp: good_string_def)
  show thesis
    using that [of "invalidateInvertedIndex (enter_string b (hash_string str) d2)"] assms(3,5) d1(1,3,4) b0 b d2
    by (simp add: getOrAddImpl_def good_string_def Let_def)
qed

lemma getOrAddImpl_ok:
  assumes "dict_ok d" "0 < page" "good_string str" "str_count d < MAX_STRCOUNT"
  shows "\<exists>d' i. getOrAddImpl page str d = return (d', int i) \<and> dict_ok d' \<and> stored d' = intern str (stored d) \<and>
    i < length (stored d') \<and> stored d' ! i = str"
proof (cases "str \<in> set (stored d)")
  case True
  then show ?thesis using getOrAddImpl_present [OF assms(1,3)] assms(1) by (metis intern_def)
next
  case False
  obtain d' where "getOrAddImpl page str d = return (d', str_count d)" "dict_ok d'" "stored d' = stored d @ [str]"
    using getOrAddImpl_new [OF assms(1-3) False assms(4)] by metis
  then show ?thesis using False storage_okD(1) [OF dict_okD(1) [OF assms(1)]]
    by (intro exI [of _ d'] exI [of _ "nat (str_count d)"]) (simp add: intern_def nth_append)
qed

interpretation dict: interner "\<lambda>d. 0 < page \<and> dict_ok d" stored "nat MAX_STRCOUNT" good_string int "getOrAddImpl page" for page
proof unfold_locales
  fix d str
  assume "0 < page \<and> dict_ok d" "good_string str" "length (stored d) < nat MAX_STRCOUNT"
  then show "\<exists>d' i. getOrAddImpl page str d = return (d', int i) \<and> (0 < page \<and> dict_ok d') \<and> stored d' = intern str (stored d) \<and>
      i < length (stored d') \<and> stored d' ! i = str"
    using getOrAddImpl_ok [of d page str] by (auto simp: MAX_STRCOUNT_def)
qed (auto dest: dict_okD)

text \<open>The ids of the bulk operation have the type of the output.\<close>

definition id_type :: "bool \<Rightarrow> nat \<Rightarrow> bool" where
  "id_type is_signed w \<longleftrightarrow> (is_signed, w) \<in> {(False, 8), (False, 16), (True, 32)}"

definition id_limit :: "bool \<Rightarrow> nat \<Rightarrow> nat" where
  "id_limit is_signed w = nat (min MAX_STRCOUNT (max_valid_int_value is_signed w + 1))"

lemma cast_id_valid:
  assumes "id_type is_signed w" "i < id_limit is_signed w"
  shows "cast_id is_signed w (int i) = int i"
proof -
  consider "\<not> is_signed" "w = 8" | "\<not> is_signed" "w = 16" | "is_signed" "w = 32" using assms(1) by (auto simp: id_type_def)
  then show ?thesis
    using assms(2) by cases (simp_all add: cast_id_def id_limit_def max_valid_int_value_def MAX_STRCOUNT_def wrap_s_def wrap_u_def)
qed

lemma getOrAddBulk_one_ok:
  assumes "id_type is_signed w" "dict_ok d" "0 < page" "good_string str" "length (stored d) < id_limit is_signed w"
  shows "\<exists>d' i. getOrAddBulk_one is_signed w page str d = return (d', int i) \<and> dict_ok d' \<and> stored d' = intern str (stored d) \<and>
    i < length (stored d') \<and> stored d' ! i = str"
proof (cases "str \<in> set (stored d)")
  case True
  then obtain i where i: "i < length (stored d)" "stored d ! i = str" by (auto simp: in_set_conv_nth)
  obtain b where "hash_table d ! b = int i" "computeBucket d (hash_string str) str (hash_table d) = Some b"
    using computeBucket_found [OF assms(2), of i] i by auto
  then show ?thesis using True i assms cast_id_valid [OF assms(1), of i]
    by (simp add: getOrAddBulk_one_def good_string_def intern_def)
next
  case False
  have count: "0 \<le> str_count d" "str_count d < MAX_STRCOUNT" "str_count d \<le> max_valid_int_value is_signed w"
    using storage_okD(1) [OF dict_okD(1) [OF assms(2)]] assms(5) by (simp_all add: id_limit_def)
  obtain b0 where b0: "computeBucket d (hash_string str) str (hash_table d) = Some b0" "hash_table d ! b0 = - 1"
    using computeBucket_missing [OF assms(2) False refl] by metis
  obtain d1 where d1: "(if fillRateIsHigh d (str_count d) then increaseHashTableCapacity d else return d) = return d1" "dict_ok d1"
    "stored d1 = stored d" "str_count d1 = str_count d" "\<not> fillRateIsHigh d1 (str_count d1)"
    using make_room [OF assms(2)] .
  obtain b where b: "computeBucket d1 (hash_string str) str (hash_table d1) = Some b"
    using computeBucket_missing [OF d1(2), of str, OF _ refl] False d1(3) by metis
  obtain d2 where d2: "appendToStorage page str d1 = Inr d2" "str_count d2 = str_count d1"
    "dict_ok (enter_string b (hash_string str) d2)" "stored (enter_string b (hash_string str) d2) = stored d1 @ [str]"
    using enter_new_string [OF d1(2) assms(3) _ _ _ _ d1(5) b] assms(4) False count d1(3,4) by (auto simp: good_string_def)
  have "(if fillRateIsHigh d (str_count d) then run_bind (increaseHashTableCapacity d) (\<lambda>d.
      run_bind (map_option Inr (computeBucket d (hash_string str) str (hash_table d))) (\<lambda>bucket. return (d, bucket)))
    else return (d, b0)) = return (d1, b)" using d1(1) b b0(1) by (auto split: if_splits)
  moreover have "cast_id is_signed w (s32 (str_count d)) = str_count d"
    using cast_id_valid [OF assms(1,5)] count by (simp add: wrap_id MAX_STRCOUNT_def)
  ultimately have "getOrAddBulk_one is_signed w page str d = return (enter_string b (hash_string str) d2, str_count d)"
    using assms(4) count b0 d2(1,2) d1(4) by (simp add: getOrAddBulk_one_def good_string_def)
  then show ?thesis using False d2(3,4) d1(3) count(1)
    by (intro exI [of _ "enter_string b (hash_string str) d2"] exI [of _ "nat (str_count d)"]) (simp add: intern_def nth_append)
qed

interpretation bulk: interner "\<lambda>d. id_type is_signed w \<and> 0 < page \<and> dict_ok d" stored "id_limit is_signed w" good_string int
  "getOrAddBulk_one is_signed w page" for is_signed w page
proof unfold_locales
  fix d str
  assume "id_type is_signed w \<and> 0 < page \<and> dict_ok d" "good_string str" "length (stored d) < id_limit is_signed w"
  then show "\<exists>d' i. getOrAddBulk_one is_signed w page str d = return (d', int i) \<and> (id_type is_signed w \<and> 0 < page \<and> dict_ok d') \<and>
      stored d' = intern str (stored d) \<and> i < length (stored d') \<and> stored d' ! i = str"
    using getOrAddBulk_one_ok [of is_signed w d page str] by blast
qed (auto dest: dict_okD)

end
