(* ===== verification/String_Open.thy ===== *)
theory String_Open
  imports String_Dict
begin

text \<open>
  Opening string dictionaries (the constructor of \<open>StringDictionary\<close>) and the contract of a
  dictionary as its clients see it.  A temporary dictionary, or one in truncated files, starts
  empty; a dictionary is recovered from its files by counting the strings, hashing them in batches
  of futures, and entering them into a new table.
\<close>

unbundle bit_operations_syntax

section \<open>The constructor\<close>

definition StringDictionary_make ::
  "bool \<Rightarrow> nat \<Rightarrow> (int \<Rightarrow> StringIdxEntry) \<Rightarrow> (int \<Rightarrow> char) \<Rightarrow> int \<Rightarrow> int \<Rightarrow> StringDictionary" where
  "StringDictionary_make materializeHashes initial_capacity offsets payload offset_size payload_size =
     \<lparr>str_count = 0, offset_map = offsets, payload_map = payload, offset_file_size = offset_size, payload_file_size = payload_size,
      payload_file_off = 0, hash_table = replicate initial_capacity INVALID_STR_ID, hash_cache = replicate initial_capacity 0,
      sorted_cache = [], materialize_hashes = materializeHashes, like_cache = Map.empty, regex_cache = Map.empty,
      equal_cache = Map.empty, compare_cache = Map.empty, strings_cache = None\<rparr>"

text \<open>Without recovery the regions are empty.\<close>

definition StringDictionary_new :: "int \<Rightarrow> bool \<Rightarrow> nat \<Rightarrow> StringDictionary result" where
  "StringDictionary_new page materializeHashes initial_capacity =
     (if int initial_capacity AND (int initial_capacity - 1) = 0
      then Inr (init_storage page (StringDictionary_make materializeHashes initial_capacity (\<lambda>_. make_entry 0 0) (\<lambda>_. CHR 0x00) 0 0))
      else Inl CheckFailed)"

text \<open>What one future computes: hashes and sizes up to the first canary.\<close>

primrec recovered_hashes :: "StringDictionary \<Rightarrow> int list \<Rightarrow> (int \<times> int) list result" where
  "recovered_hashes d [] = Inr []"
| "recovered_hashes d (curr_id # ids) =
     rbind (getStringFromStorage d curr_id) (\<lambda>(str, canary).
       if canary then Inr []
       else rbind (recovered_hashes d ids) (\<lambda>hs. Inr ((hash_string str, int (length str)) # hs)))"

primrec process_hashes :: "(int \<times> int) list \<Rightarrow> StringDictionary \<Rightarrow> StringDictionary run" where
  "process_hashes [] d = return d"
| "process_hashes (h # hs) d =
     run_bind (map_option Inr (computeUniqueBucketWithHash (fst h) (hash_table d))) (\<lambda>bucket.
       process_hashes hs (enter_string bucket (fst h) (d\<lparr>payload_file_off := payload_file_off d + snd h\<rparr>)))"

definition processDictionaryFutures :: "(int \<times> int) list list \<Rightarrow> StringDictionary \<Rightarrow> StringDictionary run" where
  "processDictionaryFutures futures d = process_hashes (concat futures) d"

text \<open>One future per \<open>items_per_thread\<close> strings; whenever \<open>thread_count\<close> of them are started, they are processed.\<close>

function recover_strings ::
  "int \<Rightarrow> nat \<Rightarrow> int \<Rightarrow> int \<Rightarrow> nat \<Rightarrow> (int \<times> int) list list \<Rightarrow> StringDictionary \<Rightarrow> StringDictionary run" where
  "recover_strings items_per_thread thread_count count string_id thread_inits futures d =
     (if string_id < count \<and> 0 < items_per_thread then
        run_bind (Some (recovered_hashes d [string_id..min (string_id + items_per_thread) count - 1])) (\<lambda>hashVec.
          if Suc thread_inits mod thread_count = 0
          then run_bind (processDictionaryFutures (futures @ [hashVec]) d) (\<lambda>d.
                 recover_strings items_per_thread thread_count count (string_id + items_per_thread) (Suc thread_inits) [] d)
          else recover_strings items_per_thread thread_count count (string_id + items_per_thread) (Suc thread_inits) (futures @ [hashVec]) d)
      else if futures \<noteq> [] then processDictionaryFutures futures d else return d)"
  by pat_completeness auto
termination
  by (relation "measure (\<lambda>(items, tc, count, string_id, _). nat (count - string_id))") auto

declare recover_strings.simps [simp del]

definition StringDictionary_recover ::
  "int \<Rightarrow> nat \<Rightarrow> bool \<Rightarrow> nat \<Rightarrow> (int \<Rightarrow> StringIdxEntry) \<Rightarrow> (int \<Rightarrow> char) \<Rightarrow> int \<Rightarrow> int \<Rightarrow> StringDictionary run" where
  "StringDictionary_recover page thread_count materializeHashes initial_capacity offsets payload offset_size payload_size =
     (if int initial_capacity AND (int initial_capacity - 1) = 0 then
        let d = init_storage page (StringDictionary_make materializeHashes initial_capacity offsets payload offset_size payload_size)
        in run_bind (Some (if payload_size = 0 then Inr 0 else getNumStringsFromStorage d (offset_file_size d div 8))) (\<lambda>count.
             let max_entries = nat (max (round_up_p2 (count * 2 + 1)) (round_up_p2 (max (int initial_capacity) 1)));
                 d = d\<lparr>hash_table := replicate max_entries INVALID_STR_ID,
                       hash_cache := (if materializeHashes then replicate (max_entries div 2) 0 else hash_cache d)\<rparr>
             in if count = 0 then return d
                else let items_per_thread = max 2000 (min 200000 (count div int thread_count + 1))
                     in recover_strings items_per_thread thread_count count 0 0 [] d)
      else throw CheckFailed)"

section \<open>Rounding up to a power of two\<close>

text \<open>Each step makes a bit depend on twice as many higher bits.\<close>

definition spread :: "nat \<Rightarrow> int \<Rightarrow> int \<Rightarrow> bool" where
  "spread n x y \<longleftrightarrow> (\<forall>i. bit y i \<longleftrightarrow> (\<exists>j < n. bit x (i + j)))"

lemma spread_step:
  assumes "spread n x y"
  shows "spread (2 * n) x (y OR drop_bit n y)"
  unfolding spread_def
proof
  fix i
  have y: "bit y i \<longleftrightarrow> (\<exists>j < n. bit x (i + j))" for i using assms by (simp add: spread_def)
  have "(\<exists>j < 2 * n. bit x (i + j)) \<longleftrightarrow> (\<exists>j < n. bit x (i + j)) \<or> (\<exists>j < n. bit x (i + n + j))"
  proof
    assume "\<exists>j < 2 * n. bit x (i + j)"
    then obtain j where j: "j < 2 * n" "bit x (i + j)" by blast
    show "(\<exists>j < n. bit x (i + j)) \<or> (\<exists>j < n. bit x (i + n + j))"
    proof (cases "j < n")
      case False
      then have "j - n < n" "i + n + (j - n) = i + j" using j(1) by simp_all
      then show ?thesis using j(2) by metis
    qed (use j in blast)
  next
    assume "(\<exists>j < n. bit x (i + j)) \<or> (\<exists>j < n. bit x (i + n + j))"
    then show "\<exists>j < 2 * n. bit x (i + j)"
    proof (elim disjE exE conjE)
      fix j assume "j < n" "bit x (i + n + j)"
      then show ?thesis by (intro exI [of _ "n + j"]) (simp add: add.assoc)
    qed force
  qed
  then show "bit (y OR drop_bit n y) i \<longleftrightarrow> (\<exists>j < 2 * n. bit x (i + j))"
    by (simp add: bit_or_iff bit_drop_bit_eq y add.commute add.left_commute)
qed

lemma spread_mask:
  assumes "spread 32 x y" "2 ^ k \<le> x" "x < 2 ^ Suc k" "k < 32"
  shows "y = mask (Suc k)"
proof (rule bit_eqI)
  fix i
  have "x div 2 ^ k = 1" using assms(2,3) by (intro div_eqI) simp_all
  then have top: "bit x k" by (simp add: bit_iff_odd)
  have above: "\<not> bit x m" if "k < m" for m
  proof -
    have "(2 :: int) ^ Suc k \<le> 2 ^ m" using that by (intro power_increasing) simp_all
    then have "x div 2 ^ m = 0" using assms(2,3) zero_less_power [of "2 :: int" k] by (intro div_pos_pos_trivial) simp_all
    then show ?thesis by (simp add: bit_iff_odd)
  qed
  have "bit y i \<longleftrightarrow> i \<le> k"
  proof
    assume "bit y i"
    then obtain j where "bit x (i + j)" using assms(1) by (auto simp: spread_def)
    then show "i \<le> k" using above [of "i + j"] by linarith
  next
    assume "i \<le> k"
    then show "bit y i" using assms(1,4) top by (auto simp: spread_def intro!: exI [of _ "k - i"])
  qed
  then show "bit y i = bit (mask (Suc k) :: int) i" by (simp add: bit_mask_iff less_Suc_eq_le)
qed

lemma round_up_p2_ok:
  assumes "1 \<le> num" "num \<le> 2147483648"
  obtains k where "round_up_p2 num = 2 ^ k" "num \<le> 2 ^ k"
proof -
  define x where "x = num - 1"
  define y where "y = (let x = x OR drop_bit 1 x; x = x OR drop_bit 2 x; x = x OR drop_bit 4 x; x = x OR drop_bit 8 x in x OR drop_bit 16 x)"
  have x: "0 \<le> x" "x < 2147483648" using assms by (simp_all add: x_def)
  then have r: "round_up_p2 num = (let z = u64 (y + 1) in if z = 0 \<or> z > 4294967295 then 4294967295 else z)"
    unfolding round_up_p2_def y_def by (simp add: Let_def wrap_id flip: x_def)
  show thesis
  proof (cases "x = 0")
    case True
    then have "y = 0" by (simp add: y_def)
    then show thesis using that [of 0] r True by (simp add: wrap_id x_def)
  next
    case False
    then have "1 \<le> nat x" using x by simp
    then obtain k where "2 ^ k \<le> nat x" "nat x < 2 ^ (k + 1)" using ex_power_ivl1 [of 2 "nat x"] by auto
    then have k: "2 ^ k \<le> x" "x < 2 ^ Suc k" using x(1) by (simp_all add: le_nat_iff nat_less_iff)
    have "(2 :: int) ^ k < 2 ^ 31" using k(1) x(2) by simp
    then have k31: "k < 31" by (rule power_less_imp_less_exp [rotated]) simp
    have "spread 1 x x" by (simp add: spread_def)
    from spread_step [OF spread_step [OF spread_step [OF spread_step [OF spread_step [OF this]]]]]
    have "spread 32 x y" by (simp add: y_def Let_def)
    then have "y = 2 ^ Suc k - 1" using spread_mask [OF _ k] k31 by (simp add: mask_eq_exp_minus_1)
    moreover have "(2 :: int) ^ Suc k \<le> 2 ^ 31" using k31 by (intro power_increasing) simp_all
    ultimately have "round_up_p2 num = 2 ^ Suc k" using r zero_less_power [of "2 :: int" k] by (simp add: wrap_id)
    then show thesis using that [of "Suc k"] k(2) by (simp add: x_def)
  qed
qed

section \<open>A new dictionary\<close>

lemma new_dictionary_ok:
  assumes "StringDictionary_new page materializeHashes (2 ^ Suc k) = Inr d" "0 < page"
  shows "dict_ok d" "stored d = []"
proof -
  define d0 where "d0 = StringDictionary_make materializeHashes (2 ^ Suc k) (\<lambda>_. make_entry 0 0) (\<lambda>_. CHR 0x00) 0 0"
  have d: "d = init_storage page d0" using assms(1) by (simp add: StringDictionary_new_def d0_def split: if_splits)
  have init: "storage_ok d" "stored d = []" "string_storage.more d = string_storage.more d0" "str_count d = 0"
    using init_storage_ok [OF assms(2), of d0] by (simp_all add: d d0_def StringDictionary_make_def)
  note more = same_more [OF init(3)]
  show "stored d = []" by (rule init(2))
  show "dict_ok d" unfolding dict_ok_def using init more id_table_empty [of "bucket_of_id d" "2 * 2 ^ k"]
    by (auto simp: d0_def StringDictionary_make_def)
qed

lemma power_of_two_check: "int (2 ^ k) AND (int (2 ^ k) - 1) = 0"
proof -
  have "(2 :: int) ^ k AND (2 ^ k - 1) = take_bit k (2 ^ k)" by (simp add: take_bit_eq_mask mask_eq_exp_minus_1)
  then show ?thesis by simp
qed

lemma new_dictionary_total: "\<exists>d. StringDictionary_new page materializeHashes (2 ^ k) = Inr d"
  using power_of_two_check [of k] by (simp add: StringDictionary_new_def)

section \<open>Recovery\<close>

lemma getStringFromStorage_cong:
  "offset_map d = offset_map d0 \<Longrightarrow> payload_map d = payload_map d0 \<Longrightarrow> getStringFromStorage (d :: StringDictionary) i = getStringFromStorage (d0 :: StringDictionary) i"
  by (simp add: getStringFromStorage_def getStringFromStorageFast_def)

lemma getNumStringsFromStorage_cong:
  assumes "offset_map d = offset_map d0" "payload_map d = payload_map d0"
  shows "getNumStringsFromStorage (d :: StringDictionary) n = getNumStringsFromStorage (d0 :: StringDictionary) n"
proof -
  have "search_canary d lo hi g = search_canary d0 lo hi g" for lo hi g
    using assms
  proof (induction d0 lo hi g rule: search_canary.induct)
    case (1 s lo hi g)
    define m where "m = (hi + lo) sdiv 2"
    have get: "getStringFromStorage d m = getStringFromStorage s m" using 1(3,4) by (rule getStringFromStorage_cong)
    show ?case
    proof (cases "lo \<le> hi \<and> 0 \<le> m")
      case True
      then show ?thesis
        using 1(1) [OF _ m_def] 1(2) [OF _ m_def] 1(3,4) get
        by (subst search_canary.simps [of d], subst search_canary.simps [of s])
          (cases "getStringFromStorage s m", auto simp flip: m_def)
    next
      case False
      then show ?thesis by (subst search_canary.simps [of d], subst search_canary.simps [of s]) (auto simp flip: m_def)
    qed
  qed
  then show ?thesis by (simp add: getNumStringsFromStorage_def)
qed

text \<open>A dictionary with the files of \<open>d0\<close> that has entered the first \<open>k\<close> of its strings.\<close>

definition recovering :: "StringDictionary \<Rightarrow> nat \<Rightarrow> nat \<Rightarrow> StringDictionary \<Rightarrow> bool" where
  "recovering d0 size_log k d \<longleftrightarrow>
     offset_map d = offset_map d0 \<and> payload_map d = payload_map d0 \<and> offset_file_size d = offset_file_size d0 \<and>
     payload_file_size d = payload_file_size d0 \<and> str_count d = int k \<and>
     payload_file_off d = int (sum_list (map length (take k (stored d0)))) \<and> length (hash_table d) = 2 ^ Suc size_log \<and>
     id_table (\<lambda>i. start_bucket (hash_string (stored d0 ! i)) (2 ^ Suc size_log)) k (hash_table d) \<and>
     (materialize_hashes d \<longrightarrow> length (hash_table d) \<le> 2 * length (hash_cache d) \<and> (\<forall>i < k. hash_cache d ! i = hash_string (stored d0 ! i)))"

definition hashes_of :: "StringDictionary \<Rightarrow> nat \<Rightarrow> nat \<Rightarrow> (int \<times> int) list" where
  "hashes_of d0 a b = map (\<lambda>i. (hash_string (stored d0 ! i), int (length (stored d0 ! i)))) [a..<b]"

lemma hashes_of_append: "a \<le> b \<Longrightarrow> b \<le> c \<Longrightarrow> hashes_of d0 a b @ hashes_of d0 b c = hashes_of d0 a c"
  using upt_add_eq_append [of a b "c - b"] by (simp add: hashes_of_def flip: map_append)

lemma process_hash_step:
  assumes "recovering d0 size_log k d" "k < length (stored d0)" "2 * length (stored d0) < 2 ^ Suc size_log" "storage_ok d0"
    "h = hash_string (stored d0 ! k)"
  obtains b where "computeUniqueBucketWithHash h (hash_table d) = Some b"
    "recovering d0 size_log (Suc k) (enter_string b h (d\<lparr>payload_file_off := payload_file_off d + int (length (stored d0 ! k))\<rparr>))"
proof -
  let ?t = "hash_table d"
  have r: "length ?t = 2 ^ Suc size_log" "id_table (\<lambda>i. start_bucket (hash_string (stored d0 ! i)) (2 ^ Suc size_log)) k ?t"
    "str_count d = int k" "materialize_hashes d \<Longrightarrow> length ?t \<le> 2 * length (hash_cache d)"
    "materialize_hashes d \<Longrightarrow> \<forall>i < k. hash_cache d ! i = hash_string (stored d0 ! i)"
    using assms(1) by (simp_all add: recovering_def)
  have less: "k < length ?t" "start_bucket h (length ?t) < length ?t"
    using assms(2,3) start_bucket_less [of h "Suc size_log"] unfolding r(1) by linarith+
  obtain j where j: "j < length ?t" "computeUniqueBucketWithHash h ?t = Some (path (length ?t) (start_bucket h (length ?t)) j)"
    "?t ! path (length ?t) (start_bucket h (length ?t)) j = - 1" "\<forall>m < j. ?t ! path (length ?t) (start_bucket h (length ?t)) m \<noteq> - 1"
    using computeUniqueBucketWithHash_ok [OF r(2) less(1) refl less(2)] by blast
  let ?b = "path (length ?t) (start_bucket h (length ?t)) j"
  have "id_table (\<lambda>i. start_bucket (hash_string (stored d0 ! i)) (2 ^ Suc size_log)) (Suc k) (?t[?b := int k])"
    using id_table_insert [OF r(2) _ j(1) _ j(3)] j(4) less(2) r(1) assms(5) by simp
  moreover have "s32 (int k) = int k"
    using assms(2) storage_okD(1,2) [OF assms(4)] by (simp add: wrap_id MAX_STRCOUNT_def)
  moreover have "k < length (hash_cache d)" if "materialize_hashes d" using r(1) r(4) [OF that] assms(2,3) by linarith
  then have "(hash_cache d)[k := h] ! i = hash_string (stored d0 ! i)" if "materialize_hashes d" "i < Suc k" for i
    using that r(5) assms(5) by (cases "i = k") simp_all
  moreover have "take (Suc k) (stored d0) = take k (stored d0) @ [stored d0 ! k]" using assms(2) by (simp add: take_Suc_conv_app_nth)
  ultimately have "recovering d0 size_log (Suc k) (enter_string ?b h (d\<lparr>payload_file_off := payload_file_off d + int (length (stored d0 ! k))\<rparr>))"
    using assms(1) r(1,3,4) by (simp add: recovering_def enter_string_def)
  then show thesis using that j(2) by blast
qed

lemma process_hashes_ok:
  assumes "recovering d0 size_log k d" "k \<le> m" "m \<le> length (stored d0)" "2 * length (stored d0) < 2 ^ Suc size_log" "storage_ok d0"
  shows "\<exists>d'. process_hashes (hashes_of d0 k m) d = return d' \<and> recovering d0 size_log m d'"
  using assms(1,2)
proof (induction "m - k" arbitrary: k d)
  case 0
  then show ?case by (simp add: hashes_of_def)
next
  case (Suc l)
  have l: "l = m - Suc k" "Suc k \<le> m" "k < length (stored d0)" using Suc.hyps(2) assms(3) by simp_all
  let ?h = "hash_string (stored d0 ! k)" let ?d = "d\<lparr>payload_file_off := payload_file_off d + int (length (stored d0 ! k))\<rparr>"
  obtain b where b: "computeUniqueBucketWithHash ?h (hash_table d) = Some b" "recovering d0 size_log (Suc k) (enter_string b ?h ?d)"
    using process_hash_step [OF Suc.prems(1) l(3) assms(4,5) refl] .
  have "hashes_of d0 k m = (?h, int (length (stored d0 ! k))) # hashes_of d0 (Suc k) m" using l(2) by (simp add: hashes_of_def upt_conv_Cons)
  then show ?case using Suc.hyps(1) [OF l(1) b(2) l(2)] b(1) by simp
qed

lemma recovered_hashes_ok:
  assumes "recovering d0 size_log k d" "storage_ok d0" "0 \<le> a" "b \<le> str_count d0"
  shows "recovered_hashes d [a..b - 1] = Inr (hashes_of d0 (nat a) (nat b))"
  using assms(3)
proof (induction "nat (b - a)" arbitrary: a)
  case 0
  then show ?case using assms(3) by (simp add: hashes_of_def)
next
  case (Suc l)
  have a: "a \<le> b - 1" "l = nat (b - (a + 1))" "nat a < nat b" "nat (a + 1) = Suc (nat a)" using Suc.hyps(2) Suc.prems by linarith+
  have "getStringFromStorage d a = Inr (stored d0 ! nat a, False)"
    using getStringFromStorage_canary [OF assms(2) Suc.prems] getStringFromStorage_cong [of d d0 a] assms(1,4) a(1)
      storage_okD(4) [OF assms(2)] by (simp add: recovering_def)
  moreover have "[a..b - 1] = a # [a + 1..b - 1]" using a(1) by (simp add: upto_rec1)
  moreover have "hashes_of d0 (nat a) (nat b) = (hash_string (stored d0 ! nat a), int (length (stored d0 ! nat a))) # hashes_of d0 (Suc (nat a)) (nat b)"
    using a(3) by (simp add: hashes_of_def upt_conv_Cons)
  ultimately show ?case using Suc.hyps(1) [OF a(2)] Suc.prems a(4) by simp
qed

lemma recover_strings_ok:
  assumes "storage_ok d0" "2 * length (stored d0) < 2 ^ Suc size_log" "0 < items"
  shows "recovering d0 size_log k d \<Longrightarrow> 0 \<le> string_id \<Longrightarrow> int k \<le> min string_id (str_count d0) \<Longrightarrow>
    concat futures = hashes_of d0 k (nat (min string_id (str_count d0))) \<Longrightarrow>
    \<exists>d'. recover_strings items thread_count (str_count d0) string_id thread_inits futures d = return d' \<and>
      recovering d0 size_log (nat (str_count d0)) d'"
proof (induction "nat (str_count d0 - string_id)" arbitrary: string_id thread_inits futures d k rule: less_induct)
  case less
  let ?n = "str_count d0" let ?next = "min (string_id + items) (str_count d0)"
  show ?case
  proof (cases "string_id < ?n")
    case True
    have hv: "recovered_hashes d [string_id..?next - 1] = Inr (hashes_of d0 (nat string_id) (nat ?next))"
      using recovered_hashes_ok [OF less.prems(1) assms(1) less.prems(2), of ?next] by simp
    have "nat string_id \<le> nat ?next" "k \<le> nat string_id" "nat (min string_id ?n) = nat string_id"
      using True assms(3) less.prems(2,3) by linarith+
    then have cat: "concat (futures @ [hashes_of d0 (nat string_id) (nat ?next)]) = hashes_of d0 k (nat ?next)"
      using less.prems(4) hashes_of_append [of k "nat string_id" "nat ?next" d0] by simp
    have arith: "nat (?n - (string_id + items)) < nat (?n - string_id)" "0 \<le> string_id + items" "int k \<le> ?next" "k \<le> nat ?next" "nat ?next \<le> length (stored d0)"
      using True assms(3) less.prems(2,3) by auto
    show ?thesis
    proof (cases "Suc thread_inits mod thread_count = 0")
      case mod: True
      obtain d1 where d1: "process_hashes (hashes_of d0 k (nat ?next)) d = return d1" "recovering d0 size_log (nat ?next) d1"
        using process_hashes_ok [OF less.prems(1) arith(4,5) assms(2,1)] by blast
      have "int (nat ?next) \<le> ?next" using arith(3) by simp
      then obtain d' where "recover_strings items thread_count ?n (string_id + items) (Suc thread_inits) [] d1 = return d'"
        "recovering d0 size_log (nat ?n) d'"
        using less.hyps [OF arith(1) d1(2) arith(2), of "[]" "Suc thread_inits"] by (auto simp: hashes_of_def)
      then show ?thesis
        using True assms(3) hv mod d1(1) cat by (subst recover_strings.simps) (simp add: processDictionaryFutures_def)
    next
      case nomod: False
      obtain d' where "recover_strings items thread_count ?n (string_id + items) (Suc thread_inits)
          (futures @ [hashes_of d0 (nat string_id) (nat ?next)]) d = return d'" "recovering d0 size_log (nat ?n) d'"
        using less.hyps [OF arith(1) less.prems(1) arith(2,3) cat, of "Suc thread_inits"] by blast
      then show ?thesis using True assms(3) hv nomod by (subst recover_strings.simps) simp
    qed
  next
    case False
    then have "min string_id ?n = ?n" by simp
    then have cat: "concat futures = hashes_of d0 k (nat ?n)" "k \<le> nat ?n" using less.prems(3,4) by simp_all
    obtain d' where d': "process_hashes (hashes_of d0 k (nat ?n)) d = return d'" "recovering d0 size_log (nat ?n) d'"
      using process_hashes_ok [OF less.prems(1) cat(2) _ assms(2,1)] by auto
    show ?thesis
    proof (cases "futures = []")
      case True
      then show ?thesis using False d' cat(1) by (subst recover_strings.simps) (simp flip: cat(1))
    next
      case nonempty: False
      then show ?thesis using False d' cat(1) by (subst recover_strings.simps) (simp add: processDictionaryFutures_def)
    qed
  qed
qed

lemma recovering_done:
  assumes "recovering d0 size_log (nat (str_count d0)) d" "dict_ok d0" "2 * str_count d0 < 2 ^ Suc size_log"
  shows "dict_ok d" "stored d = stored d0"
proof -
  note ok = dict_okD [OF assms(2)]
  note n = storage_okD(1) [OF ok(1)]
  have r: "offset_map d = offset_map d0" "payload_map d = payload_map d0" "str_count d = str_count d0" "offset_file_size d = offset_file_size d0"
    "payload_file_size d = payload_file_size d0" "payload_file_off d = payload_file_off d0"
    "length (hash_table d) = 2 ^ Suc size_log"
    "id_table (\<lambda>i. start_bucket (hash_string (stored d0 ! i)) (2 ^ Suc size_log)) (nat (str_count d0)) (hash_table d)"
    using assms(1) n storage_okD(5) [OF ok(1)] by (simp_all add: recovering_def)
  have "getStringFromStorageFast d = getStringFromStorageFast d0" by (simp add: fun_eq_iff getStringFromStorageFast_def r)
  then show st: "stored d = stored d0" by (simp add: stored_def r)
  have "storage_ok d" using ok(1) unfolding storage_ok_def st r by blast
  moreover have "bucket_of_id d = (\<lambda>i. start_bucket (hash_string (stored d0 ! i)) (2 ^ Suc size_log))"
    by (simp add: fun_eq_iff bucket_of_id_def st r(7))
  moreover have "2 * str_count d0 \<le> int (2 ^ Suc size_log)" using assms(3) by simp
  ultimately show "dict_ok d" unfolding dict_ok_def st r(3,7) using ok(2,3) r(8) assms(1) unfolding recovering_def by (metis r(7))
qed

lemma max_power_of_two:
  assumes "1 \<le> a" "a \<le> 2147483648" "2 \<le> b" "b \<le> 2147483648"
  obtains k where "max (round_up_p2 a) (round_up_p2 b) = 2 ^ Suc k" "a \<le> 2 ^ Suc k"
proof -
  obtain i j where i: "round_up_p2 a = 2 ^ i" "a \<le> 2 ^ i" and j: "round_up_p2 b = 2 ^ j" "b \<le> 2 ^ j"
    using round_up_p2_ok [OF assms(1,2)] round_up_p2_ok [of b] assms(3,4) by (metis one_le_numeral order_trans)
  have "j \<noteq> 0" using j(2) assms(3) by (cases j) simp_all
  then obtain k where k: "max i j = Suc k" by (cases "max i j") auto
  have "max (round_up_p2 a) (round_up_p2 b) = 2 ^ max i j"
    by (simp add: i j max_def)
  moreover have "(2 :: int) ^ i \<le> 2 ^ max i j" by simp
  ultimately show thesis using that [of k] i(2) k by simp
qed

lemma recover_ok:
  assumes "dict_ok d0" "0 < page" "str_count d0 < 1073741824" "1 \<le> cap" "cap \<le> 31"
  shows "\<exists>d. StringDictionary_recover page thread_count materializeHashes (2 ^ cap) (offset_map d0) (payload_map d0) (offset_file_size d0)
    (payload_file_size d0) = return d \<and> dict_ok d \<and> stored d = stored d0"
proof -
  note ok = dict_okD(1) [OF assms(1)]
  let ?n = "str_count d0"
  define d1 where "d1 = StringDictionary_make materializeHashes (2 ^ cap) (offset_map d0) (payload_map d0) (offset_file_size d0) (payload_file_size d0)"
  have f: "offset_map d1 = offset_map d0" "payload_map d1 = payload_map d0" "offset_file_size d1 = offset_file_size d0"
    "payload_file_size d1 = payload_file_size d0" "payload_file_off d1 = 0" "str_count d1 = 0" "materialize_hashes d1 = materializeHashes"
    by (simp_all add: d1_def StringDictionary_make_def)
  have init: "init_storage page d1 = d1" using storage_okD(1,4,8) [OF ok] by (simp add: init_storage_def f)
  have count: "getNumStringsFromStorage d1 (offset_file_size d1 div 8) = Inr ?n"
    using getNumStringsFromStorage_ok [OF ok] getNumStringsFromStorage_cong [OF f(1,2)] f(3) by simp
  have "(2 :: int) ^ 1 \<le> 2 ^ cap" "(2 :: int) ^ cap \<le> 2 ^ 31" using assms(4,5) by (intro power_increasing; simp)+
  then obtain k where k: "max (round_up_p2 (?n * 2 + 1)) (round_up_p2 (max (int (2 ^ cap)) 1)) = 2 ^ Suc k" "?n * 2 + 1 \<le> 2 ^ Suc k"
    using max_power_of_two [of "?n * 2 + 1" "2 ^ cap"] storage_okD(1) [OF ok] assms(3) by auto
  define d2 where "d2 = d1\<lparr>hash_table := replicate (2 ^ Suc k) INVALID_STR_ID,
    hash_cache := (if materializeHashes then replicate (2 ^ Suc k div 2) 0 else hash_cache d1)\<rparr>"
  have start: "recovering d0 k 0 d2" using id_table_empty by (simp add: recovering_def d2_def f)
  have size: "nat (2 * 2 ^ k) = 2 * 2 ^ k" by (simp add: nat_mult_distrib nat_power_eq)
  have rec: "StringDictionary_recover page thread_count materializeHashes (2 ^ cap) (offset_map d0) (payload_map d0) (offset_file_size d0) (payload_file_size d0) =
    (if ?n = 0 then return d2 else recover_strings (max 2000 (min 200000 (?n div int thread_count + 1))) thread_count ?n 0 0 [] d2)"
    using count k(1) power_of_two_check [of cap] storage_okD(8) [OF ok]
    unfolding StringDictionary_recover_def by (cases "?n = 0") (simp_all add: init d2_def size Let_def flip: d1_def)
  have fit: "2 * ?n < 2 ^ Suc k" "2 * length (stored d0) < 2 ^ Suc k" using k(2) storage_okD(1) [OF ok] by (simp_all add: nat_less_iff)
  show ?thesis
  proof (cases "?n = 0")
    case True
    then show ?thesis using recovering_done [OF _ assms(1) fit(1), of d2] start rec by simp
  next
    case False
    obtain d where "recover_strings (max 2000 (min 200000 (?n div int thread_count + 1))) thread_count ?n 0 0 [] d2 = return d"
      "recovering d0 k (nat ?n) d"
      using recover_strings_ok [OF ok fit(2) _ start, of "max 2000 (min 200000 (?n div int thread_count + 1))" 0 "[]" thread_count 0]
        storage_okD(1) [OF ok] by (auto simp: hashes_of_def less_max_iff_disj)
    then show ?thesis using recovering_done [OF _ assms(1) fit(1)] rec False by auto
  qed
qed

section \<open>Properties\<close>

text \<open>
  C7: a dictionary that starts empty and gets any sequence of strings (not empty, of at most 32767 bytes) one by
  one holds the distinct strings in the order of their first occurrence; two of the returned ids are
  equal exactly when the strings are; reading an id gives its string and looking up a string gives its
  id; a string that was not added has no id.  No call fails or runs forever.
\<close>

theorem dictionary_interns:
  assumes "StringDictionary_new page materializeHashes (2 ^ Suc k) = Inr d" "0 < page" "\<forall>str \<in> set strs. good_string str"
    "int (length strs) \<le> MAX_STRCOUNT"
  shows "\<exists>d' ids. run_all (getOrAddImpl page) strs d = return (d', ids) \<and> stored d' = fold intern strs [] \<and>
    (\<forall>a < length strs. \<forall>b < length strs. ids ! a = ids ! b \<longleftrightarrow> strs ! a = strs ! b) \<and>
    (\<forall>a < length strs. getStringUnlocked d' (ids ! a) = Inr (strs ! a) \<and> getIdOfString d' (strs ! a) = Some (ids ! a)) \<and>
    (\<forall>str. str \<notin> set strs \<longrightarrow> getIdOfString d' str = Some (- 1))"
proof -
  note new = new_dictionary_ok [OF assms(1,2)]
  obtain d' ids where r: "run_all (getOrAddImpl page) strs d = return (d', ids)" "dict_ok d'" "stored d' = fold intern strs []"
    "length (stored d') \<le> nat MAX_STRCOUNT" "\<forall>j < length strs. \<exists>i < length (stored d'). ids ! j = int i \<and> stored d' ! i = strs ! j"
    using dict.all_added [of page d strs] assms(2-4) new by (auto simp: le_nat_iff simp del: length_stored)
  have "getStringUnlocked d' (ids ! a) = Inr (strs ! a) \<and> getIdOfString d' (strs ! a) = Some (ids ! a)" if "a < length strs" for a
    using r(5) that getStringChecked_stored(2) [OF dict_okD(1) [OF r(2)]] getIdOfString_ok(1) [OF r(2)] by force
  moreover have "getIdOfString d' str = Some (- 1)" if "str \<notin> set strs" for str
    using getIdOfString_ok(2) [OF r(2), of str] that r(3) by (simp add: set_fold_intern)
  ultimately show ?thesis using r(1,3) dict.ids_equal [of page d' strs ids] r(2,4,5) assms(2) by blast
qed

theorem dictionary_interns_witness:
  "\<exists>d d' ids. StringDictionary_new 8 True (2 ^ Suc 1) = Inr d \<and> run_all (getOrAddImpl 8) [''be'', ''to'', ''be'', ''or'', ''not''] d = return (d', ids) \<and>
    stored d' = [''be'', ''to'', ''or'', ''not''] \<and> ids ! 0 = ids ! 2 \<and> ids ! 0 \<noteq> ids ! 1 \<and>
    getStringUnlocked d' (ids ! 3) = Inr ''or'' \<and> getIdOfString d' ''not'' = Some (ids ! 4) \<and> getIdOfString d' ''question'' = Some (- 1)"
proof -
  let ?strs = "[''be'', ''to'', ''be'', ''or'', ''not'']"
  obtain d where d: "StringDictionary_new 8 True (2 ^ Suc 1) = Inr d" using new_dictionary_total by blast
  have good: "\<forall>str \<in> set ?strs. good_string str" by (simp add: good_string_def MAX_STRLEN_def)
  have "int (length ?strs) \<le> MAX_STRCOUNT" by (simp add: MAX_STRCOUNT_def)
  from dictionary_interns [OF d _ good this]
  obtain d' ids where r: "run_all (getOrAddImpl 8) ?strs d = return (d', ids)" "stored d' = fold intern ?strs []"
    "\<forall>a < length ?strs. \<forall>b < length ?strs. ids ! a = ids ! b \<longleftrightarrow> ?strs ! a = ?strs ! b"
    "\<forall>a < length ?strs. getStringUnlocked d' (ids ! a) = Inr (?strs ! a) \<and> getIdOfString d' (?strs ! a) = Some (ids ! a)"
    "\<forall>str. str \<notin> set ?strs \<longrightarrow> getIdOfString d' str = Some (- 1)" by auto
  have "stored d' = [''be'', ''to'', ''or'', ''not'']" unfolding r(2) by (simp add: intern_def)
  moreover have "ids ! 0 = ids ! 2" "ids ! 0 \<noteq> ids ! 1" using r(3) by simp_all
  moreover have "getStringUnlocked d' (ids ! 3) = Inr ''or''" "getIdOfString d' ''not'' = Some (ids ! 4)"
    using r(4) [rule_format, of 3] r(4) [rule_format, of 4] by simp_all
  ultimately show ?thesis using d r(1) r(5) [rule_format, of "''question''"] by auto
qed

text \<open>
  C29: the serial bulk operation gives the same ids as adding the strings one by one and leaves a
  dictionary with the same strings, for each of the three types of ids, as long as the strings fit the
  type.
\<close>

theorem bulk_like_single:
  assumes "dict_ok d" "0 < page" "id_type is_signed w" "\<forall>str \<in> set strs. good_string str"
    "length (stored d) + length strs \<le> id_limit is_signed w"
  shows "\<exists>d1 d2 ids. getOrAddBulk False is_signed w page strs d = return (d1, ids) \<and> run_all (getOrAddImpl page) strs d = return (d2, ids) \<and>
    dict_ok d1 \<and> stored d1 = stored d2 \<and> stored d1 = fold intern strs (stored d)"
proof -
  obtain d1 ids where r: "run_all (getOrAddBulk_one is_signed w page) strs d = return (d1, ids)" "dict_ok d1" "stored d1 = fold intern strs (stored d)"
    "length ids = length strs" "\<forall>j < length strs. \<exists>i < length (stored d1). ids ! j = int i \<and> stored d1 ! i = strs ! j"
    using bulk.all_added [of is_signed w page d strs] assms by (auto simp del: length_stored)
  have "id_limit is_signed w \<le> nat MAX_STRCOUNT" by (simp add: id_limit_def)
  then obtain d2 ids2 where r2: "run_all (getOrAddImpl page) strs d = return (d2, ids2)" "stored d2 = fold intern strs (stored d)"
    "length ids2 = length strs" "\<forall>j < length strs. \<exists>i < length (stored d2). ids2 ! j = int i \<and> stored d2 ! i = strs ! j"
    using dict.all_added [of page d strs] assms by (auto simp del: length_stored)
  have "ids ! j = ids2 ! j" if "j < length strs" for j
    using r(3,5) r2(2,4) that nth_eq_iff_index_eq [OF dict_okD(2) [OF r(2)]] by metis
  then have "ids = ids2" using r(4) r2(3) by (simp add: nth_equalityI)
  then show ?thesis using r r2 by (auto simp: getOrAddBulk_def getOrAddBulk_serial_def)
qed

theorem bulk_like_single_witness:
  "\<exists>d d1 d2 ids. StringDictionary_new 8 False (2 ^ Suc 0) = Inr d \<and>
    getOrAddBulk False False 8 8 [''x'', ''y'', ''x'', ''z''] d = return (d1, ids) \<and>
    run_all (getOrAddImpl 8) [''x'', ''y'', ''x'', ''z''] d = return (d2, ids) \<and> stored d1 = [''x'', ''y'', ''z'']"
proof -
  let ?strs = "[''x'', ''y'', ''x'', ''z'']"
  obtain d where d: "StringDictionary_new 8 False (2 ^ Suc 0) = Inr d" using new_dictionary_total by blast
  note new = new_dictionary_ok [OF d]
  have "id_type False 8" "\<forall>str \<in> set ?strs. good_string str" "length (stored d) + length ?strs \<le> id_limit False 8"
    using new by (simp_all add: id_type_def good_string_def MAX_STRLEN_def id_limit_def MAX_STRCOUNT_def max_valid_int_value_def wrap_id
        del: length_stored)
  from bulk_like_single [OF new(1) _ this, of 8]
  obtain d1 d2 ids where "getOrAddBulk False False 8 8 ?strs d = return (d1, ids)" "run_all (getOrAddImpl 8) ?strs d = return (d2, ids)"
    "stored d1 = fold intern ?strs (stored d)" by auto
  moreover have "fold intern ?strs (stored d) = [''x'', ''y'', ''z'']" by (simp add: new(2) intern_def)
  ultimately show ?thesis using d by metis
qed

text \<open>
  C10: a dictionary that is recovered from the files of another has the same strings with the same ids,
  whatever the number of threads, the initial capacity and the choice to keep hashes.
\<close>

theorem recovery_roundtrip:
  assumes "dict_ok d0" "0 < page" "0 < thread_count" "str_count d0 < 1073741824" "1 \<le> cap" "cap \<le> 31"
  shows "\<exists>d. StringDictionary_recover page thread_count materializeHashes (2 ^ cap) (offset_map d0) (payload_map d0) (offset_file_size d0)
    (payload_file_size d0) = return d \<and> dict_ok d \<and> stored d = stored d0 \<and> (\<forall>str. getIdOfString d str = getIdOfString d0 str)"
proof -
  obtain d where d: "StringDictionary_recover page thread_count materializeHashes (2 ^ cap) (offset_map d0) (payload_map d0) (offset_file_size d0)
    (payload_file_size d0) = return d" "dict_ok d" "stored d = stored d0"
    using recover_ok [OF assms(1,2,4-6)] by blast
  have "getIdOfString d str = getIdOfString d0 str" for str
  proof (cases "str \<in> set (stored d0)")
    case True
    then obtain i where i: "i < length (stored d0)" "stored d0 ! i = str" by (auto simp: in_set_conv_nth)
    moreover have "nat (str_count d) = nat (str_count d0)" using d(3) by (metis length_stored)
    ultimately show ?thesis using getIdOfString_ok(1) [OF d(2), of i] getIdOfString_ok(1) [OF assms(1), of i] d(3) by simp
  qed (simp add: getIdOfString_ok(2) d assms(1))
  then show ?thesis using d by blast
qed

theorem recovery_roundtrip_witness:
  "\<exists>d0 d. stored d0 = [''be'', ''not''] \<and> StringDictionary_recover 8 4 True (2 ^ 8) (offset_map d0) (payload_map d0) (offset_file_size d0)
    (payload_file_size d0) = return d \<and> stored d = [''be'', ''not''] \<and> getIdOfString d ''not'' = getIdOfString d0 ''not''"
proof -
  obtain d where d: "StringDictionary_new 8 False (2 ^ Suc 1) = Inr d" using new_dictionary_total by blast
  note new = new_dictionary_ok [OF d]
  obtain d0 where d0: "dict_ok d0" "stored d0 = [''be'', ''not'']"
    using dict.all_added [of 8 d "[''be'', ''not'']"] new
    by (auto simp: good_string_def MAX_STRLEN_def MAX_STRCOUNT_def intern_def simp del: length_stored)
  have "nat (str_count d0) = 2" using d0(2) length_stored [of d0] by simp
  then have "str_count d0 < 1073741824" by linarith
  from recovery_roundtrip [OF d0(1) _ _ this, of 8 4 8 True]
  obtain d' where "StringDictionary_recover 8 4 True (2 ^ 8) (offset_map d0) (payload_map d0) (offset_file_size d0) (payload_file_size d0) = return d'"
    "stored d' = stored d0" "\<forall>str. getIdOfString d' str = getIdOfString d0 str" by auto
  then show ?thesis using d0(2) by metis
qed

section \<open>Departures from the contract\<close>

text \<open>
  The bulk operation with precomputed hashes enters every string under hash zero: afterwards the
  string is not found, and adding it again gives a second id.
\<close>

lemma parallel_bulk_loses_strings:
  "run_bind (Some (StringDictionary_new 8 False 4)) (\<lambda>d. run_bind (getOrAddBulk True True 32 8 [''a''] d) (\<lambda>(d, ids).
     run_bind (getOrAddImpl 8 ''a'' d) (\<lambda>(d', i). return (ids, getIdOfString d ''a'', i)))) = return ([0], Some (- 1), 1)"
  by code_simp

text \<open>An initial capacity of one passes the check, but the table is full after one string and the next one is searched for forever.\<close>

lemma capacity_one_hangs:
  "\<exists>d. run_bind (Some (StringDictionary_new 8 False 1)) (getOrAddImpl 8 ''a'') = return (d, 0) \<and> getOrAddImpl 8 ''b'' d = None"
proof -
  let ?run = "run_bind (Some (StringDictionary_new 8 False 1)) (getOrAddImpl 8 ''a'')"
  have "map_option (map_sum id (\<lambda>(d, i). (i, hash_table d, materialize_hashes d, getStringFromStorageFast d 0))) ?run = return (0, [0], False, ''a'')"
    by code_simp
  then obtain d where d: "?run = return (d, 0)" "hash_table d = [0]" "\<not> materialize_hashes d" "getStringFromStorageFast d 0 = ''a''"
    unfolding map_run_return by auto
  have "start_bucket (hash_string ''b'') 1 = 0" by (simp add: start_bucket_def)
  then have "computeBucket d (hash_string ''b'') ''b'' (hash_table d) = None"
    using d(2-4) by (simp add: computeBucket_def) (intro find_bucket_diverges; simp)
  then show ?thesis using d(1) by (auto simp: getOrAddImpl_def MAX_STRLEN_def)
qed

end
