(* ===== verification/Spec2Isabelle.thy ===== *)
theory Spec2Isabelle
  imports Date_Add Nullable_Ops Agg_Runtime Null_Values Count_Distinct Group_By Join_Many Expression_Values String_Like Top_K String_Open
begin

text \<open>
  A verification of Cider, the query engine of BDTK (\<open>cpp/src/cider\<close>).  Cider compiles a plan to native code
  that works on batches of columns; the generated code calls runtime functions for everything that is
  not a plain instruction, and the compiler decides with static information (types, ranges of
  expressions, constant patterns) which of them it calls.  This library models those runtime functions
  and decisions, and shows what they compute.

  \<^bold>\<open>Conventions.\<close>  \<open>Cider_Prelude\<close> has the fixed-width integers of C++ (\<open>s8\<close> to \<open>s64\<close>, \<open>u8\<close> to \<open>u64\<close>, written wherever
  the source can leave a range), truncating division, and errors: an exception, a failed \<open>CHECK\<close> or the trap of a
  division is the left part of a \<open>result\<close>.  \<open>assert\<close> has no effect and \<open>UNREACHABLE()\<close> only logs, as in a release build.  Memory is a
  list or a function from addresses; a pointer is an index into it.  SQL NULL is the sentinel value that
  the source uses.  A loop that may run forever is a \<open>partial_function\<close>; the theorems about it say that it
  returns.  No definition uses fuel.

  \<^bold>\<open>Times\<close> (\<open>function/datetime\<close>).  \<open>Calendar\<close> is the reference: the proleptic Gregorian calendar as a relation between
  days and dates.  \<open>Extract_From_Time\<close>, \<open>Date_Truncate\<close>, \<open>Date_Diff\<close> and \<open>Date_Add\<close> are the four parts of the runtime;
  \<open>Extract_Correct\<close> and \<open>Truncate_Correct\<close> show that fields and period starts are those of the calendar, the
  other two that differences count whole units, that adding months keeps the day or clamps it, and
  that adding inverts the difference.  \<open>Date_Time_IR\<close> is the translation of \<open>EXTRACT\<close> and \<open>DATE_TRUNC\<close> by
  \<open>exec/template\<close>: folding a constant gives what the emitted code computes.

  \<^bold>\<open>Types, NULL and scalar functions.\<close>  \<open>SQL_Types\<close> (\<open>type/data/sqltypes.h\<close>), \<open>Null_Values\<close> (\<open>InlineNullValues.h\<close>, datums),
  \<open>Bit_Utils\<close> (bit vectors), \<open>Nullable_Ops\<close> (arithmetic, comparison, three-valued logic, decimals of
  \<open>RuntimeFunctions.cpp\<close>), \<open>Murmur_Hash\<close> (\<open>function/hash\<close>).  Shown: casting is a preorder, sentinels fit their storage,
  NULL propagates, arithmetic is exact modulo the width of the type, decimals round halves away from
  zero, bit counts are exact.

  \<^bold>\<open>Aggregation.\<close>  \<open>Agg_Runtime\<close> has the integer aggregators; \<open>Count_Distinct\<close> the bitmaps and HyperLogLog sketches of
  distinct counts, a refinement of sets; \<open>Probing\<close> is linear probing with its contract \<open>open_table\<close>, which
  \<open>Group_By\<close> (\<open>GroupByRuntime.cpp\<close>) instantiates for the row-wise and the columnar layout: every lookup returns, rows
  of equal keys share a slot, and both layouts agree.  \<open>Top_K\<close> (\<open>TopKRuntime.cpp\<close>) is the heap of the rows of
  \<open>ORDER BY ... LIMIT\<close>, proved over the contract \<open>heap_order\<close> of its comparator.

  \<^bold>\<open>Joins.\<close>  \<open>Join_Column\<close> (decoders, iterators over chunks), \<open>Join_Scan\<close> (prefix sums), \<open>Join_Build\<close> (the perfect-hash tables of
  \<open>HashJoinRuntime.cpp\<close> and their builders).  \<open>Threads\<close> is an interleaving semantics of worker threads as a step
  relation; \<open>Join_Correct\<close> and \<open>Join_Many\<close> show that every complete run of the builder threads, in any
  interleaving, leaves a table that answers with exactly the rows of a key, or the documented error;
  for \<open>SEMI\<close> and \<open>ANTI\<close> joins, with one of them.

  \<^bold>\<open>Ranges of expressions.\<close>  \<open>Expression_Range\<close> is \<open>ExpressionRange.cpp\<close>; \<open>Time_Order\<close>, \<open>Range_Sound\<close> and \<open>Expression_Values\<close> define the
  values of an expression on a row (dates as seconds) and show that the computed range holds them all,
  under named conditions that exclude the cases where it does not; those cases are lemmas of their own.

  \<^bold>\<open>Strings.\<close>  \<open>String_Like\<close> has \<open>LIKE\<close>, \<open>ILIKE\<close> and the comparisons of \<open>StringLike.cpp\<close>, and the treatment of constant
  patterns by the parser; the matcher is shown equal to a specification over pattern tokens.
  \<open>String_Storage\<close> is the storage of a string dictionary, \<open>Interning\<close> the contract of giving ids to keys,
  \<open>String_Dict\<close> the hash table with growth and bulk operations, and \<open>String_Open\<close> opening and recovery
  (\<open>StringDictionary.cpp\<close>): a dictionary behaves like the list of its distinct strings, also after recovery.

  \<^bold>\<open>Parameters.\<close>  Code outside the sources is an argument of the definitions that use it: the floating-point
  operations and the checked 64-bit integer of expression ranges, the hash set of distinct counts, the
  page size of string storage, the thread numbers of top-k heaps.

  \<^bold>\<open>Bounds.\<close>  Times are restricted where the arithmetic of the source would overflow (each theorem says
  where); the list of the values of a distinct-count bitmap, whose positions the source computes in 32
  bits, is right up to 2 to the 31 bits; string dictionaries hold at most 2147483647 strings of at most 32767 bytes, recovery fewer than
  2 to the 30; the tables of a dictionary have at least two slots.

  \<^bold>\<open>Not modelled.\<close>  The generation of LLVM code and the just-in-time operators (their result is a module of a
  library), the traversal of protobuf plans, the executor, result sets and buffer managers, batch
  processors and the Velox operators (drivers around compiled code and other systems' classes), the
  aggregation tables with spilling and the templates of generic hash tables (\<open>common/hashtable\<close>), baseline and
  overlaps joins, regular expressions (\<open>std::regex\<close>), window functions, and floating-point variants of runtime
  functions.  Of the string dictionary, the searches (\<open>getLike\<close>, \<open>getCompare\<close>, \<open>getRegexpLike\<close>, \<open>copyStrings\<close>), the
  proxies and the locks are left out.
\<close>

end
